theory Spec2Isabelle
  imports Main
begin

section \<open>Buffers and the tree bitfield\<close>

text \<open>
  A Buffer is a sequence of bytes; \<open>char\<close> is a byte, so a buffer is a \<open>string\<close>
  and \<open>data.length\<close> is \<open>length data\<close>.
\<close>

type_synonym buffer = string

text \<open>
  The tree bitfield (\<open>self.bitfield.tree\<close>, a sparse bitfield) as the list of its bits:
  \<open>bitfield.length\<close> is the length of the list and \<open>bitfield.get(i)\<close> is false at and
  beyond the length.
\<close>

type_synonym bitfield = "bool list"

definition bf_get :: "bitfield \<Rightarrow> nat \<Rightarrow> bool" where
  "bf_get bits i = (i < length bits \<and> bits ! i)"

section \<open>Open: the length of a stored feed\<close>

text \<open>
  \<^verbatim>\<open>
  function trimLength (bitfield) {
    if (!bitfield.length) return 0
    var len = bitfield.length
    while (len && !bitfield.get(len - 1)) len--
    return len
  }
  \<close>
  The loop, counting \<open>len\<close> down.
\<close>

fun trim_loop :: "bitfield \<Rightarrow> nat \<Rightarrow> nat" where
  "trim_loop bits 0 = 0"
| "trim_loop bits (Suc n) = (if bf_get bits n then Suc n else trim_loop bits n)"

definition trimLength :: "bitfield \<Rightarrow> nat" where
  "trimLength bits = (if length bits = 0 then 0 else trim_loop bits (length bits))"

text \<open>
  \<^verbatim>\<open>while (len > 0 && !self.tree.bitfield.get(len - 1)) len -= 2\<close>
  in \<open>_open\<close>. \<open>len\<close> is a JavaScript number and may leave the loop as \<open>-1\<close>, so it is
  an \<open>int\<close> here.
\<close>

function leaf_loop :: "bitfield \<Rightarrow> int \<Rightarrow> int" where
  "leaf_loop bits len =
     (if len > 0 \<and> \<not> bf_get bits (nat (len - 1)) then leaf_loop bits (len - 2) else len)"
  by pat_completeness auto
termination
  by (relation "measure (\<lambda>(bits, len). nat len)") auto

declare leaf_loop.simps [simp del]

text \<open>
  The length that \<open>_open\<close> assigns (\<open>self.length\<close> starts at 0):
  \<^verbatim>\<open>
  var len = trimLength(self.bitfield.tree)
  if (len) {
    if ((len & 1) === 0) {
      len--
      while (len > 0 && !self.tree.bitfield.get(len - 1)) len -= 2
    }
    if (len > 0) self.length = (len + 1) / 2
  }
  \<close>
  \<open>open_len\<close> is the value of \<open>len\<close> before the last line.
\<close>

definition open_len :: "bitfield \<Rightarrow> int" where
  "open_len bits =
     (let len = int (trimLength bits)
      in if len \<noteq> 0 \<and> even len then leaf_loop bits (len - 1) else len)"

definition open_length :: "bitfield \<Rightarrow> nat" where
  "open_length bits =
     (let len = open_len bits in if len > 0 then nat ((len + 1) div 2) else 0)"

text \<open>The indices of the leaves (even tree indices) whose bit is set.\<close>

definition present_leaves :: "bitfield \<Rightarrow> nat set" where
  "present_leaves bits = {i. even i \<and> bf_get bits i}"

section \<open>Properties of the length computation\<close>

lemma bf_get_less: "bf_get bits i \<Longrightarrow> i < length bits"
  by (simp add: bf_get_def)

lemma trim_loop_le: "trim_loop bits n \<le> n"
  by (induction n) auto

lemma trim_loop_zero: "trim_loop bits n = 0 \<Longrightarrow> i < n \<Longrightarrow> \<not> bf_get bits i"
  by (induction n) (auto split: if_splits simp: less_Suc_eq)

lemma trim_loop_Suc:
  "trim_loop bits n = Suc m \<Longrightarrow> bf_get bits m \<and> m < n \<and> (\<forall>i. m < i \<and> i < n \<longrightarrow> \<not> bf_get bits i)"
  by (induction n) (auto split: if_splits simp: less_Suc_eq)

lemma trimLength_zero: "trimLength bits = 0 \<Longrightarrow> \<not> bf_get bits i"
  using trim_loop_zero [of bits "length bits" i] bf_get_less [of bits i]
  by (auto simp: trimLength_def split: if_splits)

lemma trimLength_Suc:
  assumes "trimLength bits = Suc m"
  shows "bf_get bits m" and "\<And>i. m < i \<Longrightarrow> \<not> bf_get bits i"
proof -
  from assms have t: "trim_loop bits (length bits) = Suc m"
    by (simp add: trimLength_def split: if_splits)
  from trim_loop_Suc [OF t] show "bf_get bits m" by simp
  fix i assume "m < i"
  with trim_loop_Suc [OF t] bf_get_less [of bits i] show "\<not> bf_get bits i"
    by (cases "i < length bits") auto
qed

lemma leaf_loop_odd: "odd len \<Longrightarrow> odd (leaf_loop bits len)"
proof (induction bits len rule: leaf_loop.induct)
  case (1 bits len)
  show ?case
  proof (cases "len > 0 \<and> \<not> bf_get bits (nat (len - 1))")
    case True
    with 1 show ?thesis by (subst leaf_loop.simps) simp
  next
    case False
    with 1 show ?thesis by (subst leaf_loop.simps) auto
  qed
qed

lemma leaf_loop_found:
  "odd len \<Longrightarrow> leaf_loop bits len > 0 \<Longrightarrow>
     bf_get bits (nat (leaf_loop bits len - 1)) \<and> leaf_loop bits len \<le> len \<and>
     (\<forall>i. even i \<and> int i < len \<and> leaf_loop bits len - 1 < int i \<longrightarrow> \<not> bf_get bits i)"
proof (induction bits len rule: leaf_loop.induct)
  case (1 bits len)
  show ?case
  proof (cases "len > 0 \<and> \<not> bf_get bits (nat (len - 1))")
    case True
    then have eq: "leaf_loop bits len = leaf_loop bits (len - 2)"
      by (subst leaf_loop.simps) simp
    from "1.prems" have o: "odd (len - 2)" by simp
    from "1.IH" [OF True o] "1.prems"(2) eq
    have ih: "bf_get bits (nat (leaf_loop bits len - 1))" "leaf_loop bits len \<le> len - 2"
      "\<And>i. even i \<Longrightarrow> int i < len - 2 \<Longrightarrow> leaf_loop bits len - 1 < int i \<Longrightarrow> \<not> bf_get bits i"
      by auto
    have "\<not> bf_get bits i" if "even i" "int i < len" "leaf_loop bits len - 1 < int i" for i
    proof (cases "int i < len - 2")
      case True
      with ih(3) that show ?thesis by blast
    next
      case False
      with that "1.prems"(1) have "int i = len - 1" by presburger
      with True show ?thesis by (metis nat_int)
    qed
    with ih show ?thesis by auto
  next
    case False
    then have eq: "leaf_loop bits len = len"
      by (subst leaf_loop.simps) auto
    with False "1.prems" show ?thesis by auto
  qed
qed

lemma leaf_loop_none:
  "odd len \<Longrightarrow> \<not> leaf_loop bits len > 0 \<Longrightarrow> even i \<Longrightarrow> int i < len \<Longrightarrow> \<not> bf_get bits i"
proof (induction bits len rule: leaf_loop.induct)
  case (1 bits len)
  show ?case
  proof (cases "len > 0 \<and> \<not> bf_get bits (nat (len - 1))")
    case True
    then have eq: "leaf_loop bits len = leaf_loop bits (len - 2)"
      by (subst leaf_loop.simps) simp
    from "1.prems" have o: "odd (len - 2)" by simp
    show ?thesis
    proof (cases "int i < len - 2")
      case lt: True
      from "1.IH" [OF True o _ "1.prems"(3) lt] "1.prems"(2) eq show ?thesis by simp
    next
      case False
      with "1.prems" have "int i = len - 1" by presburger
      with True show ?thesis by (metis nat_int)
    qed
  next
    case False
    then have eq: "leaf_loop bits len = len"
      by (subst leaf_loop.simps) auto
    with False "1.prems" show ?thesis by auto
  qed
qed

lemma finite_present_leaves: "finite (present_leaves bits)"
proof (rule finite_subset)
  show "present_leaves bits \<subseteq> {..<length bits}"
    by (auto simp: present_leaves_def dest: bf_get_less)
qed simp

lemma open_length_no_leaf:
  assumes "present_leaves bits = {}"
  shows "open_length bits = 0"
proof (cases "trimLength bits")
  case 0
  then show ?thesis by (simp add: open_length_def open_len_def)
next
  case (Suc m)
  from trimLength_Suc(1) [OF Suc] assms have m: "odd m"
    by (auto simp: present_leaves_def)
  have "\<not> leaf_loop bits (int m) > 0"
  proof
    assume pos: "leaf_loop bits (int m) > 0"
    from m have om: "odd (int m)" by simp
    from leaf_loop_found [OF om pos] leaf_loop_odd [OF om, of bits] pos
    have "bf_get bits (nat (leaf_loop bits (int m) - 1))" "even (nat (leaf_loop bits (int m) - 1))"
      by (auto simp: even_nat_iff)
    with assms show False by (auto simp: present_leaves_def)
  qed
  with Suc m show ?thesis by (simp add: open_length_def open_len_def)
qed

lemma open_length_some_leaf:
  assumes "present_leaves bits \<noteq> {}"
  shows "open_length bits = (Max (present_leaves bits) + 2) div 2"
proof (cases "trimLength bits")
  case 0
  with trimLength_zero [OF 0] assms show ?thesis by (auto simp: present_leaves_def)
next
  case (Suc m)
  note top = trimLength_Suc [OF Suc]
  show ?thesis
  proof (cases "even m")
    case True
    have "Max (present_leaves bits) = m"
    proof (rule Max_eqI [OF finite_present_leaves])
      show "m \<in> present_leaves bits" using True top(1) by (simp add: present_leaves_def)
      fix y assume "y \<in> present_leaves bits"
      with top(2) [of y] show "y \<le> m" by (cases "m < y") (auto simp: present_leaves_def)
    qed
    with Suc True show ?thesis by (simp add: open_length_def open_len_def)
  next
    case False
    then have om: "odd (int m)" by simp
    define r where "r = leaf_loop bits (int m)"
    have below: "i < m" if "i \<in> present_leaves bits" for i
    proof -
      from that top(2) [of i] have "i \<le> m" by (cases "m < i") (auto simp: present_leaves_def)
      moreover from that False have "i \<noteq> m" by (auto simp: present_leaves_def)
      ultimately show ?thesis by simp
    qed
    have pos: "r > 0"
    proof (rule ccontr)
      assume "\<not> r > 0"
      with leaf_loop_none [OF om, of bits] below have "present_leaves bits = {}"
        by (auto simp: r_def present_leaves_def)
      with assms show False by simp
    qed
    from leaf_loop_found [OF om, of bits] pos
    have found: "bf_get bits (nat (r - 1))" "r \<le> int m"
      "\<And>i. even i \<Longrightarrow> int i < int m \<Longrightarrow> r - 1 < int i \<Longrightarrow> \<not> bf_get bits i"
      by (auto simp: r_def)
    from leaf_loop_odd [OF om, of bits] have odd_r: "odd r" by (simp add: r_def)
    have "Max (present_leaves bits) = nat (r - 1)"
    proof (rule Max_eqI [OF finite_present_leaves])
      show "nat (r - 1) \<in> present_leaves bits"
        using found(1) odd_r pos by (simp add: present_leaves_def even_nat_iff)
      fix y assume y: "y \<in> present_leaves bits"
      show "y \<le> nat (r - 1)"
      proof (rule ccontr)
        assume "\<not> y \<le> nat (r - 1)"
        with pos have "r - 1 < int y" by simp
        with found(3) [of y] below [OF y] y show False by (simp add: present_leaves_def)
      qed
    qed
    moreover from Suc False have "open_len bits = r"
      by (simp add: open_len_def r_def)
    moreover from pos odd_r have "nat ((r + 1) div 2) = (nat (r - 1) + 2) div 2"
      by (auto elim!: oddE)
    ultimately show ?thesis using pos by (simp add: open_length_def)
  qed
qed

lemma open_len_odd: "0 < open_len bits \<Longrightarrow> odd (open_len bits)"
proof (cases "trimLength bits")
  case 0
  assume "0 < open_len bits"
  with 0 show ?thesis by (simp add: open_len_def)
next
  case (Suc m)
  show ?thesis
  proof (cases "even m")
    case True
    with Suc show ?thesis by (simp add: open_len_def)
  next
    case False
    then have "odd (int m)" by simp
    from leaf_loop_odd [OF this, of bits] Suc False show ?thesis
      by (simp add: open_len_def)
  qed
qed

lemma trimLength_above: "trimLength bits \<le> i \<Longrightarrow> \<not> bf_get bits i"
proof (cases "trimLength bits")
  case 0
  then show ?thesis by (rule trimLength_zero)
next
  case (Suc m)
  assume "trimLength bits \<le> i"
  with Suc have "m < i" by simp
  then show ?thesis by (rule trimLength_Suc(2) [OF Suc])
qed

lemma trimLength_last: "0 < trimLength bits \<Longrightarrow> bf_get bits (trimLength bits - 1)"
  using trimLength_Suc(1) [of bits "trimLength bits - 1"] by simp

text \<open>
  The tree bitfield is trimmed of its trailing unset bits: no bit is set at or beyond
  \<open>trimLength\<close>, and the bit just below it is set. The length then is 0 when no leaf bit
  is set, and otherwise (last present leaf index + 2) / 2, whatever internal-node bits lie
  beyond that leaf; the division by two is exact, since \<open>len\<close> is odd whenever it is
  positive.
\<close>

lemma open_length_formula:
  "(\<forall>i \<ge> trimLength bits. \<not> bf_get bits i) \<and>
   (0 < trimLength bits \<longrightarrow> bf_get bits (trimLength bits - 1)) \<and>
   open_length bits =
     (if present_leaves bits = {} then 0 else (Max (present_leaves bits) + 2) div 2) \<and>
   (0 < open_len bits \<longrightarrow> odd (open_len bits)) \<and>
   (0 < n \<and> bf_get bits (2 * (n - 1)) \<and> (\<forall>i. even i \<and> 2 * (n - 1) < i \<longrightarrow> \<not> bf_get bits i)
      \<longrightarrow> open_length bits = n)"
proof -
  have "open_length bits = n"
    if n: "0 < n" "bf_get bits (2 * (n - 1))" "\<forall>i. even i \<and> 2 * (n - 1) < i \<longrightarrow> \<not> bf_get bits i"
  proof -
    have "Max (present_leaves bits) = 2 * (n - 1)"
    proof (rule Max_eqI [OF finite_present_leaves])
      show "2 * (n - 1) \<in> present_leaves bits" using n(2) by (simp add: present_leaves_def)
      fix y assume "y \<in> present_leaves bits"
      with n(3) show "y \<le> 2 * (n - 1)" by (cases "2 * (n - 1) < y") (auto simp: present_leaves_def)
    qed
    moreover from n(2) have "2 * (n - 1) \<in> present_leaves bits" by (simp add: present_leaves_def)
    then have "present_leaves bits \<noteq> {}" by blast
    ultimately show ?thesis using n(1) by (simp add: open_length_some_leaf)
  qed
  then show ?thesis
    using trimLength_above [of bits] trimLength_last [of bits] open_len_odd [of bits]
      open_length_no_leaf [of bits] open_length_some_leaf [of bits]
    by (simp split: if_splits)
qed

text \<open>
  Leaves 0 and 2 and the nodes 1 and 5 are set, leaf 4 is not (the parent of a half-written
  leaf): the length is 2.
\<close>

lemma open_length_formula_example:
  "trimLength [True, True, True, False, False, True] = 6 \<and>
   bf_get [True, True, True, False, False, True] 5 \<and>
   present_leaves [True, True, True, False, False, True] \<noteq> {} \<and>
   (Max (present_leaves [True, True, True, False, False, True]) + 2) div 2 = 2 \<and>
   open_len [True, True, True, False, False, True] = 3 \<and>
   open_length [True, True, True, False, False, True] = 2"
proof -
  let ?bits = "[True, True, True, False, False, True]"
  have t: "trimLength ?bits = 6" by (simp add: trimLength_def bf_get_def)
  have g: "bf_get ?bits (2 * (2 - 1))" by (simp add: bf_get_def)
  have a: "\<forall>i. even i \<and> 2 * (2 - 1) < i \<longrightarrow> \<not> bf_get ?bits i"
  proof (intro allI impI)
    fix i :: nat assume "even i \<and> 2 * (2 - 1) < i"
    then have "i = 4 \<or> 6 \<le> i" by presburger
    then show "\<not> bf_get ?bits i" by (auto simp: bf_get_def)
  qed
  from g have "2 * (2 - 1) \<in> present_leaves ?bits" by (simp add: present_leaves_def)
  then have ne: "present_leaves ?bits \<noteq> {}" by blast
  have l: "open_len ?bits = 3"
    by (simp add: open_len_def t leaf_loop.simps bf_get_def)
  from open_length_formula [of ?bits 2] t g a ne l show ?thesis
    by (simp split: if_splits)
qed

section \<open>Flat-tree arithmetic\<close>

text \<open>
  Modelled from the spec: the index arithmetic of the \<open>flat-tree\<close> package, which
  \<open>index.js\<close> requires and which is not among the sources. Tree nodes are numbered in
  order: leaves are the even indices, and the binary representation of \<open>index + 1\<close>
  gives the depth (its number of trailing zeros) and the offset within that depth.
  JavaScript numbers are used as unbounded naturals here.
\<close>

function depth_loop :: "nat \<Rightarrow> nat \<Rightarrow> nat" where
  "depth_loop idx d = (if idx \<noteq> 0 \<and> even idx then depth_loop (idx div 2) (Suc d) else d)"
  by pat_completeness auto
termination
  by (relation "measure (\<lambda>(idx, d). idx)") auto

declare depth_loop.simps [simp del]

definition depth :: "nat \<Rightarrow> nat" where
  "depth index = depth_loop (index + 1) 0"

definition offset :: "nat \<Rightarrow> nat" where
  "offset index =
     (if even index then index div 2 else ((index + 1) div 2 ^ depth index - 1) div 2)"

definition index_of :: "nat \<Rightarrow> nat \<Rightarrow> nat" where
  "index_of d ofs = (1 + 2 * ofs) * 2 ^ d - 1"

definition parent :: "nat \<Rightarrow> nat" where
  "parent index = index_of (depth index + 1) (offset index div 2)"

definition sibling :: "nat \<Rightarrow> nat" where
  "sibling index =
     index_of (depth index) (if odd (offset index) then offset index - 1 else offset index + 1)"

text \<open>\<open>leftChild\<close> of a leaf is \<open>-1\<close> in the package; \<open>_seek\<close> calls it on odd indices only.\<close>

definition leftChild :: "nat \<Rightarrow> nat" where
  "leftChild index = index_of (depth index - 1) (offset index * 2)"

definition leftSpan :: "nat \<Rightarrow> nat" where
  "leftSpan index = (if even index then index else offset index * 2 ^ (depth index + 1))"

definition rightSpan :: "nat \<Rightarrow> nat" where
  "rightSpan index =
     (if even index then index else (offset index + 1) * 2 ^ (depth index + 1) - 2)"

text \<open>
  \<open>fullRoots(index)\<close>: the roots of the full subtrees that cover the leaves below the
  even tree index \<open>index\<close>, in ascending order:
  \<^verbatim>\<open>
  index /= 2; var offset = 0; var factor = 1
  while (true) {
    if (!index) return result
    while (factor * 2 <= index) factor *= 2
    result.push(offset + factor - 1)
    offset = offset + 2 * factor; index -= factor; factor = 1
  }
  \<close>
  \<open>factor\<close> starts at 1 and only doubles; the guard \<open>factor \<noteq> 0\<close> makes the function
  total. The package throws on an odd \<open>index\<close>; every call in \<open>index.js\<close> passes an even
  number (twice a length, or a right span plus two).
\<close>

function factor_loop :: "nat \<Rightarrow> nat \<Rightarrow> nat" where
  "factor_loop index factor =
     (if factor \<noteq> 0 \<and> factor * 2 \<le> index then factor_loop index (factor * 2) else factor)"
  by pat_completeness auto
termination
  by (relation "measure (\<lambda>(index, factor). index - factor)") auto

declare factor_loop.simps [simp del]

lemma factor_loop_bounds:
  "0 < f \<Longrightarrow> f \<le> n \<Longrightarrow> 0 < factor_loop n f \<and> factor_loop n f \<le> n"
proof (induction n f rule: factor_loop.induct)
  case (1 index factor)
  show ?case
  proof (cases "factor \<noteq> 0 \<and> factor * 2 \<le> index")
    case True
    with 1 show ?thesis by (subst (1 2) factor_loop.simps) auto
  next
    case False
    with 1 show ?thesis by (subst (1 2) factor_loop.simps) auto
  qed
qed

function fullRoots_loop :: "nat \<Rightarrow> nat \<Rightarrow> nat list" where
  "fullRoots_loop index ofs =
     (if index = 0 then []
      else let factor = factor_loop index 1
           in (ofs + factor - 1) # fullRoots_loop (index - factor) (ofs + 2 * factor))"
  by pat_completeness auto
termination
proof (relation "measure (\<lambda>(index, ofs). index)")
  show "wf (measure (\<lambda>(index, ofs). index))" by simp
next
  fix index ofs :: nat and x
  assume "index \<noteq> 0" "x = factor_loop index 1"
  with factor_loop_bounds [of 1 index]
  show "((index - x, ofs + 2 * x), index, ofs) \<in> measure (\<lambda>(index, ofs). index)"
    by auto
qed

declare fullRoots_loop.simps [simp del]

definition fullRoots :: "nat \<Rightarrow> nat list" where
  "fullRoots index = fullRoots_loop (index div 2) 0"

text \<open>\<open>isBlock\<close> of \<open>index.js\<close>: \<^verbatim>\<open>(index & 1) === 0\<close>.\<close>

definition isBlock :: "nat \<Rightarrow> bool" where
  "isBlock index = even index"

subsection \<open>Depth and offset determine the index\<close>

lemma depth_loop_pow: "depth_loop ((1 + 2 * ofs) * 2 ^ k) d = d + k"
proof (induction k arbitrary: d)
  case 0
  show ?case by (subst depth_loop.simps) simp
next
  case (Suc k)
  have "depth_loop ((1 + 2 * ofs) * 2 ^ Suc k) d = depth_loop ((1 + 2 * ofs) * 2 ^ k) (Suc d)"
    by (subst depth_loop.simps) (simp add: algebra_simps)
  with Suc show ?case by simp
qed

lemma index_of_Suc: "Suc (index_of d ofs) = (1 + 2 * ofs) * 2 ^ d"
  by (simp add: index_of_def)

lemma depth_index_of [simp]: "depth (index_of d ofs) = d"
  using depth_loop_pow [of ofs d 0] by (simp add: depth_def index_of_def)

lemma even_index_of [simp]: "even (index_of d ofs) \<longleftrightarrow> d = 0"
proof -
  have "odd (Suc (index_of d ofs)) \<longleftrightarrow> d = 0"
    unfolding index_of_Suc by simp
  then show ?thesis by simp
qed

lemma offset_index_of [simp]: "offset (index_of d ofs) = ofs"
proof (cases "d = 0")
  case True
  then show ?thesis by (simp add: offset_def index_of_def)
next
  case False
  have "(index_of d ofs + 1) div 2 ^ d = 1 + 2 * ofs"
    using index_of_Suc [of d ofs] by simp
  with False show ?thesis by (simp add: offset_def)
qed

lemma index_of_exists: "\<exists>d ofs. i = index_of d ofs"
proof (induction i rule: less_induct)
  case (less i)
  show ?case
  proof (cases "even i")
    case True
    then have "i = index_of 0 (i div 2)" by (auto simp: index_of_def)
    then show ?thesis by blast
  next
    case False
    then have "i div 2 < i" by (cases i) auto
    from less [OF this] obtain d ofs where h: "i div 2 = index_of d ofs" by blast
    from False have "Suc i = 2 * Suc (i div 2)" by (auto elim!: oddE)
    also have "\<dots> = (1 + 2 * ofs) * 2 ^ Suc d" by (simp add: h index_of_Suc)
    finally have "i = index_of (Suc d) ofs"
      by (metis index_of_Suc nat.inject)
    then show ?thesis by blast
  qed
qed

lemma index_of_depth_offset [simp]: "index_of (depth i) (offset i) = i"
proof -
  from index_of_exists obtain d ofs where "i = index_of d ofs" by blast
  then show ?thesis by simp
qed

lemma index_of_inject [simp]: "index_of d ofs = index_of d' ofs' \<longleftrightarrow> d = d' \<and> ofs = ofs'"
  by (metis depth_index_of offset_index_of)

lemma depth_parent [simp]: "depth (parent i) = Suc (depth i)"
  by (simp add: parent_def)

lemma depth_sibling [simp]: "depth (sibling i) = depth i"
  by (simp add: sibling_def)

lemma offset_parent [simp]: "offset (parent i) = offset i div 2"
  by (simp add: parent_def)

lemma depth_leftChild [simp]: "depth (leftChild i) = depth i - 1"
  by (simp add: leftChild_def)

lemma depth_zero_iff: "depth i = 0 \<longleftrightarrow> even i"
  by (metis even_index_of index_of_depth_offset)

lemma pow_le_index_of: "2 ^ d \<le> Suc (index_of d ofs)"
  unfolding index_of_Suc by simp

lemma depth_le: "depth i \<le> i"
proof -
  have "depth i < 2 ^ depth i" by (rule less_exp)
  also have "\<dots> \<le> Suc (index_of (depth i) (offset i))" by (rule pow_le_index_of)
  finally show ?thesis by simp
qed

section \<open>Nodes, hashes and signatures\<close>

text \<open>A tree node as \<open>storage.Node\<close> has it: \<open>(index, hash, size)\<close>.\<close>

record node =
  index :: nat
  hash :: buffer
  size_node :: nat

definition Node :: "nat \<Rightarrow> buffer \<Rightarrow> nat \<Rightarrow> node" where
  "Node i h s = \<lparr>index = i, hash = h, size_node = s\<rparr>"

text \<open>
  Modelled from the spec: \<open>lib/hash\<close> and the signature package are not among the
  sources. The three domain-separated hashes, the discovery-key hash, signing,
  verification and the key pair that \<open>signatures.keyPair()\<close> returns are parameters: a
  theorem about \<open>cr\<close> holds for every choice of them. \<open>keyPair\<close> is
  \<open>(publicKey, secretKey)\<close>.
\<close>

record crypto =
  H_leaf :: "buffer \<Rightarrow> buffer"
  H_parent :: "nat \<Rightarrow> buffer \<Rightarrow> buffer \<Rightarrow> buffer"
  H_roots :: "node list \<Rightarrow> buffer"
  H_discovery :: "buffer \<Rightarrow> buffer"
  sign :: "buffer \<Rightarrow> buffer \<Rightarrow> buffer"
  verify :: "buffer \<Rightarrow> buffer \<Rightarrow> buffer \<Rightarrow> bool"
  keyPair :: "buffer \<times> buffer"

text \<open>
  Modelled from the spec: \<open>hash.data\<close>, \<open>hash.parent\<close>, \<open>hash.tree\<close> and
  \<open>hash.discoveryKey\<close> of \<open>lib/hash\<close>. The leaf hash is \<open>H_leaf(len \<parallel> bytes)\<close>; the
  parent hash is \<open>H_parent(leftSize + rightSize \<parallel> leftHash \<parallel> rightHash)\<close>, the children
  taken in index order; a root set is summarised by \<open>H_roots(root1 \<parallel> root2 \<parallel> \<dots>)\<close>.
\<close>

definition hash_data :: "crypto \<Rightarrow> buffer \<Rightarrow> buffer" where
  "hash_data cr data = H_leaf cr data"

definition hash_parent :: "crypto \<Rightarrow> node \<Rightarrow> node \<Rightarrow> buffer" where
  "hash_parent cr a b =
     (if index a > index b
      then H_parent cr (size_node b + size_node a) (hash b) (hash a)
      else H_parent cr (size_node a + size_node b) (hash a) (hash b))"

definition hash_tree :: "crypto \<Rightarrow> node list \<Rightarrow> buffer" where
  "hash_tree cr roots = H_roots cr roots"

definition hash_discoveryKey :: "crypto \<Rightarrow> buffer \<Rightarrow> buffer" where
  "hash_discoveryKey cr k = H_discovery cr k"

text \<open>
  \<^verbatim>\<open>
  function verifyNode (trusted, node) {
    return trusted && trusted.index === node.index && equals(trusted.hash, node.hash)
  }
  function addSize (size, node) { return size + node.size }
  \<close>
\<close>

definition verifyNode :: "node option \<Rightarrow> node \<Rightarrow> bool" where
  "verifyNode trusted n =
     (case trusted of None \<Rightarrow> False | Some t \<Rightarrow> index t = index n \<and> hash t = hash n)"

definition addSize :: "nat \<Rightarrow> node \<Rightarrow> nat" where
  "addSize sz n = sz + size_node n"

section \<open>Errors and callbacks\<close>

text \<open>
  Every \<open>new Error(...)\<close> of \<open>index.js\<close> is a constructor; \<open>message\<close> gives its text.
  \<open>StorageFailed\<close> is the error of a storage read that finds no record, \<open>UnexpectedSize\<close>
  that of \<open>putData\<close>, and \<open>Thrown\<close> an exception raised instead of a callback call.
\<close>

datatype error =
    AlreadyExists
  | NotFound
  | NotWritable
  | NoProofAvailable
  | MissingRoots
  | MissingSignature
  | InvalidSignature
  | ChecksumFailed
  | NotDownloaded
  | SeekFailed
  | OutOfBounds
  | Cancelled
  | StorageFailed
  | UnexpectedSize
  | Thrown

fun message :: "error \<Rightarrow> string" where
  "message AlreadyExists = ''Another hypercore is stored here''"
| "message NotFound = ''No hypercore is stored here''"
| "message NotWritable = ''This feed is not writable. Did you create it?''"
| "message NoProofAvailable = ''No proof available for this index''"
| "message MissingRoots = ''Remote did not send tree roots''"
| "message MissingSignature = ''Remote did not include a signature''"
| "message InvalidSignature = ''Remote signature could not be verified''"
| "message ChecksumFailed = ''Remote checksum failed''"
| "message NotDownloaded = ''Block not downloaded''"
| "message SeekFailed = ''Unable to seek to this offset''"
| "message OutOfBounds = ''Out of bounds''"
| "message Cancelled = ''Download was cancelled''"
| "message StorageFailed = ''Not found''"
| "message UnexpectedSize = ''Unexpected data size''"
| "message Thrown = ''TypeError''"

text \<open>A proof as \<open>put\<close> receives and \<open>proof\<close> returns it.\<close>

record feed_proof =
  nodes :: "node list"
  signature :: "buffer option"

text \<open>
  Callbacks are named by numbers. An operation returns the calls it makes, in order: the
  callback and what it is called with (an error, nothing, a value, the index and offset
  of a seek, or a proof).
\<close>

type_synonym callback = nat

datatype 'v reply =
    Failed error
  | Done
  | Value 'v
  | Position nat nat
  | Proved feed_proof

type_synonym 'v events = "(callback \<times> 'v reply) list"

section \<open>Bitfields\<close>

text \<open>
  Modelled from the spec: \<open>lib/bitfield\<close> and \<open>lib/tree-index\<close> are not among the
  sources. \<open>set(i, true)\<close> sets bit \<open>i\<close>, growing the bitfield, and returns whether the
  bit changed.
\<close>

definition bf_set :: "bitfield \<Rightarrow> nat \<Rightarrow> bitfield" where
  "bf_set bits i = (bits @ replicate (Suc i - length bits) False)[i := True]"

lemma bf_get_set [simp]: "bf_get (bf_set bits i) j \<longleftrightarrow> j = i \<or> bf_get bits j"
  by (auto simp: bf_get_def bf_set_def nth_list_update nth_append)

lemma length_bf_set [simp]: "length (bf_set bits i) = max (length bits) (Suc i)"
  by (auto simp: bf_set_def)

lemma index_of_less_iff:
  "index_of d a < index_of d b \<longleftrightarrow> a < b"
proof -
  have "Suc (index_of d a) < Suc (index_of d b) \<longleftrightarrow> a < b"
    unfolding index_of_Suc by simp
  then show ?thesis by simp
qed

lemma parent_less_max: "parent i < max i (sibling i)"
proof -
  define d ofs where "d = depth i" and "ofs = offset i"
  have i: "i = index_of d ofs" by (simp add: d_def ofs_def)
  have p: "Suc (parent i) = (1 + 2 * (ofs div 2)) * 2 ^ Suc d"
    by (simp add: parent_def index_of_Suc d_def ofs_def)
  show ?thesis
  proof (cases "odd ofs")
    case True
    then have "(1 + 2 * (ofs div 2)) * 2 ^ Suc d = 2 * ofs * 2 ^ d"
      by (auto elim!: oddE)
    also have "\<dots> < (1 + 2 * ofs) * 2 ^ d" by simp
    also have "\<dots> = Suc i" by (simp add: i index_of_Suc)
    finally show ?thesis using p by simp
  next
    case False
    then have s: "Suc (sibling i) = (1 + 2 * (ofs + 1)) * 2 ^ d"
      by (simp add: sibling_def index_of_Suc d_def ofs_def)
    from False have "(1 + 2 * (ofs div 2)) * 2 ^ Suc d = (2 + 2 * ofs) * 2 ^ d"
      by (auto elim!: evenE)
    also have "\<dots> < (1 + 2 * (ofs + 1)) * 2 ^ d" by simp
    finally show ?thesis using p s by simp
  qed
qed

text \<open>
  Modelled from the spec: \<open>tree.get(i)\<close> of \<open>lib/tree-index\<close> says whether node \<open>i\<close> is
  stored (the tree bitfield has one bit per tree index indicating whether its node hash
  is stored). \<open>_append\<close> writes the new parents to storage and calls \<open>tree.set\<close> on
  the leaf only, so \<open>tree.set(i)\<close> sets bit \<open>i\<close> and then, as long as the sibling is
  set, the parent's bit.
\<close>

function tree_climb :: "bitfield \<Rightarrow> nat \<Rightarrow> bitfield" where
  "tree_climb bits i =
     (if bf_get bits (sibling i)
      then (if bf_get bits (parent i) then bits
            else tree_climb (bf_set bits (parent i)) (parent i))
      else bits)"
  by pat_completeness auto
termination
proof (relation "measure (\<lambda>(bits, i). max (length bits) (Suc i) - depth i)")
  show "wf (measure (\<lambda>(bits, i). max (length bits) (Suc i) - depth i))" by simp
next
  fix bits :: bitfield and i :: nat
  assume sib: "bf_get bits (sibling i)"
  then have len: "sibling i < length bits" by (rule bf_get_less)
  have "depth i = depth (sibling i)" by simp
  also have "\<dots> \<le> sibling i" by (rule depth_le)
  finally have d: "depth i < length bits" using len by simp
  from parent_less_max [of i] len
  have "Suc (parent i) \<le> max (length bits) (Suc i)" by auto
  with d show "((bf_set bits (parent i), parent i), bits, i)
      \<in> measure (\<lambda>(bits, i). max (length bits) (Suc i) - depth i)"
    by auto
qed

declare tree_climb.simps [simp del]

definition tree_set :: "bitfield \<Rightarrow> nat \<Rightarrow> bitfield" where
  "tree_set bits i = (if bf_get bits i then bits else tree_climb (bf_set bits i) i)"

section \<open>The storage binding\<close>

text \<open>
  Modelled from the spec: \<open>lib/storage\<close> is not among the sources. The stored state is
  the key, the secret key, the bitfield pages (the data bits and the tree bits), the tree
  file with one \<open>(hash, size)\<close> record per tree index, the data file (the blocks
  concatenated) and one signature record per leaf index. A read of an absent record fails;
  writes do not fail in this model.
\<close>

record pages =
  data_bits :: bitfield
  tree_bits :: bitfield

record storage =
  key_store :: "buffer option"
  secretKey_store :: "buffer option"
  bitfield_store :: pages
  tree_store :: "nat \<Rightarrow> (buffer \<times> nat) option"
  data_store :: buffer
  signatures_store :: "nat \<Rightarrow> buffer option"
  closed :: bool

definition pages_length :: "pages \<Rightarrow> nat" where
  "pages_length pg = length (data_bits pg) + length (tree_bits pg)"

definition pages_fill0 :: "pages \<Rightarrow> pages" where
  "pages_fill0 pg =
     \<lparr>data_bits = map (\<lambda>_. False) (data_bits pg), tree_bits = map (\<lambda>_. False) (tree_bits pg)\<rparr>"

definition getNode :: "storage \<Rightarrow> nat \<Rightarrow> error + node" where
  "getNode stg i =
     (case tree_store stg i of None \<Rightarrow> Inl StorageFailed | Some (h, s) \<Rightarrow> Inr (Node i h s))"

definition putNode :: "nat \<Rightarrow> node \<Rightarrow> storage \<Rightarrow> storage" where
  "putNode i n stg = stg\<lparr>tree_store := (tree_store stg)(i \<mapsto> (hash n, size_node n))\<rparr>"

definition getSignature :: "storage \<Rightarrow> nat \<Rightarrow> error + buffer" where
  "getSignature stg i =
     (case signatures_store stg i of None \<Rightarrow> Inl StorageFailed | Some sig \<Rightarrow> Inr sig)"

definition putSignature :: "nat \<Rightarrow> buffer \<Rightarrow> storage \<Rightarrow> storage" where
  "putSignature i sig stg = stg\<lparr>signatures_store := (signatures_store stg)(i \<mapsto> sig)\<rparr>"

definition putBitfield :: "pages \<Rightarrow> storage \<Rightarrow> storage" where
  "putBitfield pg stg = stg\<lparr>bitfield_store := pg\<rparr>"

text \<open>
  A random-access write of \<open>buf\<close> at byte \<open>ofs\<close> (zero-filling a gap), and a read of
  \<open>len\<close> bytes at \<open>ofs\<close>, which fails past the end of the file.
\<close>

definition write_at :: "buffer \<Rightarrow> nat \<Rightarrow> buffer \<Rightarrow> buffer" where
  "write_at file ofs buf =
     (let padded = file @ replicate (ofs - length file) (CHR 0x00)
      in take ofs padded @ buf @ drop (ofs + length buf) padded)"

definition read_at :: "buffer \<Rightarrow> nat \<Rightarrow> nat \<Rightarrow> error + buffer" where
  "read_at file ofs len =
     (if ofs + len \<le> length file then Inr (take len (drop ofs file)) else Inl StorageFailed)"

definition data_write :: "nat \<Rightarrow> buffer \<Rightarrow> storage \<Rightarrow> storage" where
  "data_write ofs buf stg = stg\<lparr>data_store := write_at (data_store stg) ofs buf\<rparr>"

text \<open>
  The nodes at a list of indices, each from the \<open>cached\<close> nodes when one of them has the
  index and from the tree file otherwise; an absent record fails the whole read.
\<close>

definition findNode :: "node list \<Rightarrow> nat \<Rightarrow> node option" where
  "findNode cached i = find (\<lambda>n. index n = i) cached"

definition lookupNode :: "storage \<Rightarrow> node list \<Rightarrow> nat \<Rightarrow> error + node" where
  "lookupNode stg cached i =
     (case findNode cached i of Some n \<Rightarrow> Inr n | None \<Rightarrow> getNode stg i)"

fun collect :: "(error + 'a) list \<Rightarrow> error + 'a list" where
  "collect [] = Inr []"
| "collect (r # rs) =
     (case collect rs of
        Inl e \<Rightarrow> Inl e
      | Inr xs \<Rightarrow> (case r of Inl e \<Rightarrow> Inl e | Inr x \<Rightarrow> Inr (x # xs)))"

text \<open>
  The byte offset and size of block \<open>i\<close>: the offset is the sum of the sizes stored in
  the full roots below leaf \<open>2i\<close> (the sizes accumulated at write time), the size is
  that of the leaf's node.
\<close>

definition dataOffset :: "storage \<Rightarrow> nat \<Rightarrow> node list \<Rightarrow> error + nat \<times> nat" where
  "dataOffset stg i cached =
     (case collect (map (lookupNode stg cached) (fullRoots (2 * i))) of
        Inl e \<Rightarrow> Inl e
      | Inr rs \<Rightarrow>
          (case lookupNode stg cached (2 * i) of
             Inl e \<Rightarrow> Inl e
           | Inr leaf \<Rightarrow> Inr (foldl addSize 0 rs, size_node leaf)))"

definition getData :: "storage \<Rightarrow> nat \<Rightarrow> error + buffer" where
  "getData stg i =
     (case dataOffset stg i [] of
        Inl e \<Rightarrow> Inl e
      | Inr (ofs, len) \<Rightarrow> read_at (data_store stg) ofs len)"

definition putData :: "nat \<Rightarrow> buffer \<Rightarrow> node list \<Rightarrow> storage \<Rightarrow> error + storage" where
  "putData i buf cached stg =
     (if buf = [] then Inr stg
      else case dataOffset stg i cached of
             Inl e \<Rightarrow> Inl e
           | Inr (ofs, len) \<Rightarrow>
               if len \<noteq> length buf then Inl UnexpectedSize else Inr (data_write ofs buf stg))"

section \<open>The Merkle generator\<close>

text \<open>
  Modelled from the spec: the generator of the \<open>merkle-tree-stream\<close> package, seeded
  with the current full roots. \<open>next(data)\<close> returns the new leaf node plus any freshly
  produced parent nodes: the leaf joins the roots, and while the last two roots have the
  same parent they are replaced by that parent.
\<close>

record generator =
  roots :: "node list"
  blocks :: nat

definition merkle :: "node list \<Rightarrow> generator" where
  "merkle rs =
     \<lparr>roots = rs, blocks = (if rs = [] then 0 else 1 + rightSpan (index (last rs)) div 2)\<rparr>"

function merge_roots :: "crypto \<Rightarrow> node list \<Rightarrow> node list \<Rightarrow> node list \<times> node list" where
  "merge_roots cr rs ns =
     (if length rs > 1 \<and> parent (index (last (butlast rs))) = parent (index (last rs))
      then let left = last (butlast rs); right = last rs;
               p = Node (parent (index left)) (hash_parent cr left right)
                     (size_node left + size_node right)
           in merge_roots cr (butlast (butlast rs) @ [p]) (ns @ [p])
      else (rs, ns))"
  by pat_completeness auto
termination
  by (relation "measure (\<lambda>(cr, rs, ns). length rs)") auto

declare merge_roots.simps [simp del]

definition merkle_next :: "crypto \<Rightarrow> generator \<Rightarrow> buffer \<Rightarrow> node list \<times> generator" where
  "merkle_next cr g buf =
     (let leaf = Node (2 * blocks g) (hash_data cr buf) (length buf);
          (rs, ns) = merge_roots cr (roots g @ [leaf]) [leaf]
      in (ns, \<lparr>roots = rs, blocks = Suc (blocks g)\<rparr>))"

section \<open>The feed\<close>

text \<open>
  The codec (\<open>codecs\<close> package): \<open>encode\<close> and \<open>decode\<close>. The binary codec decodes
  a buffer to itself, so \<open>get\<close>, which skips decoding for it, is modelled as always
  decoding.
\<close>

record 'v codec =
  encode :: "'v \<Rightarrow> buffer"
  decode :: "buffer \<Rightarrow> 'v"

definition binary :: "buffer codec" where
  "binary = \<lparr>encode = (\<lambda>v. v), decode = (\<lambda>b. b)\<rparr>"

text \<open>
  A pending read in \<open>_waiting\<close>, as \<open>get\<close> pushes it (\<open>bytes: 0, hash: false, index\<close>)
  or \<open>seek\<close> does (\<open>bytes, index: -1, start, end\<close>), and a selection of \<open>_selections\<close>.
  The callback of a selection is \<open>None\<close> for \<open>noop\<close>.
\<close>

record waiter =
  w_bytes :: nat
  w_hash :: bool
  w_index :: int
  w_start :: "int option"
  w_end :: "int option"
  w_callback :: callback

record selection =
  sel_index :: int
  sel_hash :: bool
  sel_start :: int
  sel_end :: int
  sel_linear :: bool
  sel_callback :: "callback option"

text \<open>
  The fields of \<open>this\<close>. \<open>bitfield\<close> holds the data bits and \<open>tree\<close> the tree bits
  (\<open>self.tree = treeIndex(self.bitfield.tree)\<close>); both are empty before \<open>_open\<close>.
  \<open>merkle\<close> is \<open>_merkle\<close>, \<open>None\<close> for \<open>null\<close>. Peers belong to the replication
  collaborator: the feed is modelled with no peer attached, and events emitted to
  listeners (\<open>ready\<close>, \<open>append\<close>, \<open>download\<close>) are not recorded.
\<close>

record 'v feed =
  live :: bool
  sparse :: bool
  length_feed :: nat
  byteLength :: nat
  key :: "buffer option"
  discoveryKey :: "buffer option"
  secretKey :: "buffer option"
  bitfield :: bitfield
  tree :: bitfield
  writable :: bool
  readable :: bool
  opened :: bool
  indexing :: bool
  createIfMissing :: bool
  overwrite :: bool
  merkle_gen :: "generator option"
  storage_of :: storage
  waiting :: "waiter list"
  selections :: "selection list"
  codec_of :: "'v codec"

text \<open>\<open>x || d\<close> on an optional number: \<open>d\<close> when \<open>x\<close> is undefined or 0.\<close>

definition js_or :: "int option \<Rightarrow> int \<Rightarrow> int" where
  "js_or x d = (case x of None \<Rightarrow> d | Some v \<Rightarrow> if v = 0 then d else v)"

subsection \<open>Selections: download and undownload\<close>

text \<open>
  The argument of \<open>download\<close> and \<open>undownload\<close>: a number, an object with optional
  \<open>start\<close> and \<open>end\<close> and the flags \<open>hash\<close> and \<open>linear\<close>, a selection that
  \<open>download\<close> returned, or nothing.
\<close>

datatype range =
    RangeNumber int
  | RangeObject "int option" "int option" bool bool
  | RangeSelection selection
  | NoRange

fun range_start :: "range \<Rightarrow> int" where
  "range_start (RangeNumber n) = js_or (Some n) 0"
| "range_start (RangeObject s e h l) = js_or s 0"
| "range_start (RangeSelection sel) = js_or (Some (sel_start sel)) 0"
| "range_start NoRange = 0"

fun range_end :: "range \<Rightarrow> int" where
  "range_end (RangeNumber n) = js_or (Some (n + 1)) (- 1)"
| "range_end (RangeObject s e h l) = js_or e (- 1)"
| "range_end (RangeSelection sel) = js_or (Some (sel_end sel)) (- 1)"
| "range_end NoRange = - 1"

fun range_hash :: "range \<Rightarrow> bool" where
  "range_hash (RangeObject s e h l) = h"
| "range_hash (RangeSelection sel) = sel_hash sel"
| "range_hash r = False"

fun range_linear :: "range \<Rightarrow> bool" where
  "range_linear (RangeObject s e h l) = l"
| "range_linear (RangeSelection sel) = sel_linear sel"
| "range_linear r = False"

text \<open>
  \<^verbatim>\<open>
  var sel = {_index: this._selections.length, hash: !!range.hash, iterator: null,
    start: range.start || 0, end: range.end || -1, linear: !!range.linear,
    callback: cb || noop}
  this._selections.push(sel)
  \<close>
\<close>

definition download :: "'v feed \<Rightarrow> range \<Rightarrow> callback option \<Rightarrow> selection \<times> 'v feed" where
  "download self rng cb =
     (let sel = \<lparr>sel_index = int (length (selections self)), sel_hash = range_hash rng,
                 sel_start = range_start rng, sel_end = range_end rng,
                 sel_linear = range_linear rng, sel_callback = cb\<rparr>
      in (sel, self\<lparr>selections := selections self @ [sel]\<rparr>))"

text \<open>
  Modelled from the spec: \<open>remove\<close> of the \<open>unordered-set\<close> package (cheap removal by
  swap-with-last): the item at its \<open>_index\<close> is replaced by the last one, which takes
  over the index.
\<close>

definition set_remove :: "selection list \<Rightarrow> selection \<Rightarrow> selection list" where
  "set_remove list item =
     (let i = nat (sel_index item)
      in if \<not> (sel_index item < int (length list) \<and> list ! i = item) then list
         else let lst = last list; rest = butlast list
              in if lst \<noteq> item then rest[i := lst\<lparr>sel_index := sel_index item\<rparr>] else rest)"

text \<open>The first selection with the given keys is spliced out.\<close>

fun splice_match :: "int \<Rightarrow> int \<Rightarrow> bool \<Rightarrow> bool \<Rightarrow> selection list \<Rightarrow> selection list" where
  "splice_match st en h l [] = []"
| "splice_match st en h l (x # xs) =
     (if sel_start x = st \<and> sel_end x = en \<and> sel_hash x = h \<and> sel_linear x = l then xs
      else x # splice_match st en h l xs)"

text \<open>
  \<^verbatim>\<open>
  if (range.callback && range._index > -1) {
    set.remove(this._selections, range)
    range.callback(new Error('Download was cancelled'))
    return
  }
  \<close>
  Only a selection has a callback and an \<open>_index\<close> (its callback is a function even when
  none was given); every other argument is matched by its keys.
\<close>

definition undownload :: "'v feed \<Rightarrow> range \<Rightarrow> 'v events \<times> 'v feed" where
  "undownload self rng =
     (case rng of
        RangeSelection sel \<Rightarrow>
          if sel_index sel > - 1
          then ((case sel_callback sel of None \<Rightarrow> [] | Some cb \<Rightarrow> [(cb, Failed Cancelled)]),
                self\<lparr>selections := set_remove (selections self) sel\<rparr>)
          else ([], self\<lparr>selections := splice_match (range_start rng) (range_end rng)
                      (range_hash rng) (range_linear rng) (selections self)\<rparr>)
      | _ \<Rightarrow> ([], self\<lparr>selections := splice_match (range_start rng) (range_end rng)
                      (range_hash rng) (range_linear rng) (selections self)\<rparr>))"

subsection \<open>The constructor\<close>

text \<open>
  The options of the constructor with their defaults applied: \<open>live\<close> and
  \<open>createIfMissing\<close> are true unless given as false.
\<close>

record 'v options =
  opt_live :: bool
  opt_sparse :: bool
  opt_indexing :: bool
  opt_createIfMissing :: bool
  opt_overwrite :: bool
  opt_valueEncoding :: "'v codec"

definition Feed :: "crypto \<Rightarrow> storage \<Rightarrow> buffer option \<Rightarrow> 'v options \<Rightarrow> 'v feed" where
  "Feed cr createStorage k opts =
     (let self = \<lparr>live = opt_live opts, sparse = opt_sparse opts, length_feed = 0,
                  byteLength = 0, key = k, discoveryKey = map_option (hash_discoveryKey cr) k,
                  secretKey = None, bitfield = [], tree = [], writable = False,
                  readable = True, opened = False, indexing = opt_indexing opts,
                  createIfMissing = opt_createIfMissing opts, overwrite = opt_overwrite opts,
                  merkle_gen = None, storage_of = createStorage, waiting = [],
                  selections = [], codec_of = opt_valueEncoding opts\<rparr>
      in if \<not> sparse self
         then snd (download self (RangeObject (Some 0) (Some (- 1)) False False) None)
         else self)"

subsection \<open>Open\<close>

text \<open>
  \<open>_roots(index, cb)\<close>: the stored nodes at \<open>fullRoots(2 * index)\<close>; any failed read
  fails the call.
\<close>

definition roots_of :: "storage \<Rightarrow> nat \<Rightarrow> error + node list" where
  "roots_of stg i = collect (map (getNode stg) (fullRoots (2 * i)))"

text \<open>
  \<open>_open\<close>, with the storage opened, in the steps of \<open>onopen\<close>. The result is the
  error passed to the callback, if any, and the feed as the call leaves it. First the
  state read from storage: without a stored key but with a stored bitfield, or with the
  option set, \<open>_overwrite\<close> holds, and then the bitfield is zeroed and the keys are
  dropped. The error of \<open>getSignature\<close> is ignored by \<open>onsignature\<close>: the signature
  is then absent.
\<close>

definition open_overwrite :: "'v feed \<Rightarrow> bool" where
  "open_overwrite self =
     (overwrite self \<or>
      (key_store (storage_of self) = None \<and> pages_length (bitfield_store (storage_of self)) \<noteq> 0))"

definition state_bitfield :: "'v feed \<Rightarrow> pages" where
  "state_bitfield self =
     (if open_overwrite self then pages_fill0 (bitfield_store (storage_of self))
      else bitfield_store (storage_of self))"

definition state_key :: "'v feed \<Rightarrow> buffer option" where
  "state_key self = (if open_overwrite self then None else key_store (storage_of self))"

definition state_secretKey :: "'v feed \<Rightarrow> buffer option" where
  "state_secretKey self = (if open_overwrite self then None else secretKey_store (storage_of self))"

text \<open>The bitfields and the length (up to the comparison of the keys).\<close>

definition open_bits :: "'v feed \<Rightarrow> 'v feed" where
  "open_bits self =
     self\<lparr>overwrite := open_overwrite self, bitfield := data_bits (state_bitfield self),
          tree := tree_bits (state_bitfield self),
          length_feed := (if 0 < open_len (tree_bits (state_bitfield self))
                          then open_length (tree_bits (state_bitfield self))
                          else length_feed self)\<rparr>"

text \<open>The stored keys are taken over, and \<open>onsignature\<close> sets \<open>live\<close>.\<close>

definition open_keys :: "buffer option \<Rightarrow> buffer option \<Rightarrow> 'v feed \<Rightarrow> 'v feed" where
  "open_keys k sk self =
     self\<lparr>key := (if k \<noteq> None then k else key self),
          secretKey := (if sk \<noteq> None then sk else secretKey self)\<rparr>"

definition open_live :: "storage \<Rightarrow> 'v feed \<Rightarrow> 'v feed" where
  "open_live state self =
     (if length_feed self = 0 then self
      else self\<lparr>live := (case getSignature state (length_feed self - 1) of
                           Inl e \<Rightarrow> False | Inr sg \<Rightarrow> True)\<rparr>)"

text \<open>The key pair, \<open>writable\<close> and the discovery key.\<close>

definition open_keyPair :: "crypto \<Rightarrow> 'v feed \<Rightarrow> 'v feed" where
  "open_keyPair cr self =
     (let self1 = (if key self = None \<and> live self
                   then self\<lparr>secretKey := Some (snd (keyPair cr)), key := Some (fst (keyPair cr))\<rparr>
                   else self)
      in self1\<lparr>writable := (secretKey self1 \<noteq> None \<or> key self1 = None),
               discoveryKey := map_option (hash_discoveryKey cr) (key self1)\<rparr>)"

text \<open>The writes of the key, the secret key and, on overwrite, the bitfield.\<close>

definition open_persist :: "pages \<Rightarrow> 'v feed \<Rightarrow> 'v feed" where
  "open_persist pg self =
     (let stg1 = (if key self \<noteq> None then (storage_of self)\<lparr>key_store := key self\<rparr>
                  else storage_of self);
          stg2 = (if secretKey self \<noteq> None then stg1\<lparr>secretKey_store := secretKey self\<rparr> else stg1);
          stg3 = (if overwrite self then putBitfield pg stg2 else stg2)
      in self\<lparr>storage_of := stg3\<rparr>)"

text \<open>\<open>onroots\<close>: the generator, the byte length and \<open>opened\<close>.\<close>

definition open_roots :: "'v feed \<Rightarrow> error option \<times> 'v feed" where
  "open_roots self =
     (case roots_of (storage_of self) (length_feed self) of
        Inl e \<Rightarrow> (Some e, self)
      | Inr rs \<Rightarrow>
          (None, self\<lparr>merkle_gen := Some (merkle rs), byteLength := foldl addSize 0 rs,
                       opened := True\<rparr>))"

definition open_feed :: "crypto \<Rightarrow> 'v feed \<Rightarrow> error option \<times> 'v feed" where
  "open_feed cr self =
     (let self1 = open_bits self
      in if state_key self \<noteq> None \<and> key self1 \<noteq> None \<and> state_key self \<noteq> key self1
         then (Some AlreadyExists, self1)
         else
           let self3 = open_live (storage_of self)
                         (open_keys (state_key self) (state_secretKey self) self1)
           in if key self3 = None \<and> \<not> createIfMissing self3 then (Some NotFound, self3)
              else open_roots (open_persist (state_bitfield self) (open_keyPair cr self3)))"

text \<open>
  \<open>_ready = thunky(open)\<close>: once \<open>_open\<close> has succeeded its result is kept; until then
  a call runs it (again).
\<close>

definition ready :: "crypto \<Rightarrow> 'v feed \<Rightarrow> error option \<times> 'v feed" where
  "ready cr self = (if opened self then (None, self) else open_feed cr self)"

subsection \<open>Get\<close>

text \<open>
  \<open>get(index, opts, cb)\<close>; \<open>wait\<close> is \<open>opts.wait !== false\<close>. The timeout of
  \<open>opts.timeout\<close> is real time and is not modelled.
\<close>

definition get :: "crypto \<Rightarrow> 'v feed \<Rightarrow> nat \<Rightarrow> bool \<Rightarrow> callback \<Rightarrow> 'v events \<times> 'v feed" where
  "get cr self0 i wait cb =
     (case ready cr self0 of
        (Some e, self) \<Rightarrow> ([(cb, Failed e)], self)
      | (None, self) \<Rightarrow>
          if \<not> bf_get (bitfield self) i
          then (if \<not> wait then ([(cb, Failed NotDownloaded)], self)
                else ([], self\<lparr>waiting := waiting self @
                        [\<lparr>w_bytes = 0, w_hash = False, w_index = int i, w_start = None,
                          w_end = None, w_callback = cb\<rparr>]\<rparr>))
          else ([(cb, case getData (storage_of self) i of
                        Inl e \<Rightarrow> Failed e
                      | Inr buf \<Rightarrow> Value (decode (codec_of self) buf))], self))"

subsection \<open>Seek\<close>

text \<open>
  The inner loop of \<open>onroot\<close> in \<open>_seek\<close>:
  \<^verbatim>\<open>
  while (!self.tree.get(left)) {
    if (isBlock(left)) return cb(null, nearestRoot, offset)
    left = flat.leftChild(left)
  }
  \<close>
  \<open>None\<close> is the return inside the loop.
\<close>

function find_left :: "bitfield \<Rightarrow> nat \<Rightarrow> nat option" where
  "find_left bits left =
     (if bf_get bits left then Some left
      else if isBlock left then None
      else find_left bits (leftChild left))"
  by pat_completeness auto
termination
  by (relation "measure (\<lambda>(bits, left). depth left)")
     (auto simp: isBlock_def depth_zero_iff [symmetric])

declare find_left.simps [simp del]

lemma find_left_depth: "find_left bits left = Some l \<Longrightarrow> depth l \<le> depth left"
proof (induction bits left rule: find_left.induct)
  case (1 bits left)
  show ?case
  proof (cases "bf_get bits left")
    case True
    with "1.prems" show ?thesis by (simp add: find_left.simps)
  next
    case False
    show ?thesis
    proof (cases "isBlock left")
      case True
      with False "1.prems" show ?thesis by (simp add: find_left.simps)
    next
      case nb: False
      with False "1.prems" have "find_left bits (leftChild left) = Some l"
        by (simp add: find_left.simps)
      from "1.IH" [OF False nb this] show ?thesis by simp
    qed
  qed
qed

lemma getNode_index: "getNode stg i = Inr n \<Longrightarrow> index n = i"
  by (auto simp: getNode_def Node_def split: option.splits)

text \<open>
  \<open>onroot\<close> and \<open>onleftchild\<close> of \<open>_seek\<close>: the result is the error, or the index and
  offset passed to the callback. The arguments are the storage, the tree bits, \<open>top\<close>,
  the remaining \<open>offset\<close> and \<open>nearestRoot\<close>.
\<close>

function onroot :: "storage \<Rightarrow> bitfield \<Rightarrow> nat \<Rightarrow> nat \<Rightarrow> nat \<Rightarrow> error + nat \<times> nat" where
  "onroot stg bits tp ofs nearestRoot =
     (if isBlock tp then Inr (tp, ofs)
      else case find_left bits (leftChild tp) of
             None \<Rightarrow> Inr (nearestRoot, ofs)
           | Some left \<Rightarrow>
               (case getNode stg left of
                  Inl e \<Rightarrow> Inl e
                | Inr n \<Rightarrow>
                    if size_node n > ofs then onroot stg bits (index n) ofs (index n)
                    else onroot stg bits (sibling (index n)) (ofs - size_node n) nearestRoot))"
  by pat_completeness auto
termination
proof (relation "measure (\<lambda>(stg, bits, tp, ofs, nearestRoot). depth tp)")
  show "wf (measure (\<lambda>(stg, bits, tp, ofs, nearestRoot). depth tp))" by simp
next
  fix stg :: storage and bits :: bitfield and tp ofs nearestRoot left :: nat and n :: node
  assume a: "\<not> isBlock tp" "find_left bits (leftChild tp) = Some left" "getNode stg left = Inr n"
  from a(1) have "0 < depth tp" by (simp add: isBlock_def depth_zero_iff [symmetric])
  moreover from find_left_depth [OF a(2)] have "depth left \<le> depth tp - 1" by simp
  moreover from getNode_index [OF a(3)] have "index n = left" .
  ultimately have d: "depth (index n) < depth tp" by simp
  then show "((stg, bits, index n, ofs, index n), stg, bits, tp, ofs, nearestRoot)
      \<in> measure (\<lambda>(stg, bits, tp, ofs, nearestRoot). depth tp)" by simp
  from d show "((stg, bits, sibling (index n), ofs - size_node n, nearestRoot), stg, bits, tp, ofs,
       nearestRoot) \<in> measure (\<lambda>(stg, bits, tp, ofs, nearestRoot). depth tp)" by simp
qed

declare onroot.simps [simp del]

text \<open>
  \<open>loop\<close> of \<open>_seek\<close> over the remaining roots:
  \<^verbatim>\<open>
  if (node) {
    if (node.size > offset) { nearestRoot = node.index; return onroot(node.index) }
    offset -= node.size
  }
  if (!roots.length) return cb(new Error('Out of bounds'))
  self._storage.getNode(roots.shift(), loop)
  \<close>
\<close>

fun seek_loop :: "storage \<Rightarrow> bitfield \<Rightarrow> nat list \<Rightarrow> nat \<Rightarrow> error + nat \<times> nat" where
  "seek_loop stg bits [] ofs = Inl OutOfBounds"
| "seek_loop stg bits (r # rs) ofs =
     (case getNode stg r of
        Inl e \<Rightarrow> Inl e
      | Inr n \<Rightarrow>
          if size_node n > ofs then onroot stg bits (index n) ofs (index n)
          else seek_loop stg bits rs (ofs - size_node n))"

definition seek_tree :: "'v feed \<Rightarrow> nat \<Rightarrow> error + nat \<times> nat" where
  "seek_tree self ofs =
     (if ofs = 0 then Inr (0, 0)
      else seek_loop (storage_of self) (tree self) (fullRoots (length_feed self * 2)) ofs)"

text \<open>
  The options of \<open>seek\<close>: \<open>wait\<close> is \<open>opts.wait !== false\<close>, \<open>hash\<close> is
  \<open>opts.hash !== false\<close>, \<open>start\<close> and \<open>end\<close> are as given.
\<close>

record seek_opts =
  so_wait :: bool
  so_hash :: bool
  so_start :: "int option"
  so_end :: "int option"

definition seek :: "crypto \<Rightarrow> 'v feed \<Rightarrow> nat \<Rightarrow> seek_opts \<Rightarrow> callback \<Rightarrow> 'v events \<times> 'v feed" where
  "seek cr self0 bytes opts cb =
     (case ready cr self0 of
        (Some e, self) \<Rightarrow> ([(cb, Failed e)], self)
      | (None, self) \<Rightarrow>
          let r = seek_tree self bytes
          in case r of
               Inr (i, ofs) \<Rightarrow>
                 if isBlock i then ([(cb, Position (i div 2) ofs)], self)
                 else if \<not> so_wait opts then ([(cb, Failed SeekFailed)], self)
                 else
                   let left = int (leftSpan i div 2);
                       right = int (rightSpan i div 2 + 1);
                       start0 = js_or (so_start opts) 0;
                       end0 = js_or (so_end opts) (- 1);
                       start1 = (if left > start0 then left else start0);
                       end1 = (if right < end0 \<or> end0 = - 1 then right else end0)
                   in if end1 > - 1 \<and> end1 \<le> start1 then ([(cb, Failed SeekFailed)], self)
                      else ([], self\<lparr>waiting := waiting self @
                              [\<lparr>w_bytes = bytes, w_hash = so_hash opts, w_index = - 1,
                                w_start = Some start1, w_end = Some end1, w_callback = cb\<rparr>]\<rparr>)
             | Inl e \<Rightarrow>
                 if \<not> so_wait opts then ([(cb, Failed e)], self)
                 else
                   let start0 = js_or (so_start opts) 0;
                       end0 = js_or (so_end opts) (- 1)
                   in if end0 > - 1 \<and> end0 \<le> start0 then ([(cb, Failed SeekFailed)], self)
                      else ([], self\<lparr>waiting := waiting self @
                              [\<lparr>w_bytes = bytes, w_hash = so_hash opts, w_index = - 1,
                                w_start = Some start0, w_end = Some end0, w_callback = cb\<rparr>]\<rparr>))"

subsection \<open>Waiters and the bitfield sync\<close>

text \<open>
  Modelled from the spec: \<open>remove(arr, i)\<close> of the \<open>unordered-array-remove\<close> package
  (removal by swap-with-last).
\<close>

definition array_remove :: "'a list \<Rightarrow> nat \<Rightarrow> 'a list" where
  "array_remove arr i =
     (if i \<ge> length arr then arr
      else let lst = last arr; rest = butlast arr
           in if i < length rest then rest[i := lst] else rest)"

text \<open>
  \<open>_pollWaiting\<close>:
  \<^verbatim>\<open>
  var len = this._waiting.length
  for (var i = 0; i < len; i++) {
    var next = this._waiting[i]
    if (!next.bytes && !this.bitfield.get(next.index)) continue
    remove(this._waiting, i--)
    len--
    if (next.bytes) this.seek(next.bytes, next, next.callback)
    else this.get(next.index, next.callback)
  }
  \<close>
  \<open>seek\<close> may push a waiter, at an index that the loop does not reach. The test
  \<open>i < length (waiting self)\<close> holds whenever \<open>i < len\<close> does; it keeps the list access
  in range.
\<close>

function poll_loop :: "crypto \<Rightarrow> 'v feed \<Rightarrow> nat \<Rightarrow> nat \<Rightarrow> 'v events \<Rightarrow> 'v events \<times> 'v feed" where
  "poll_loop cr self i len evs =
     (if i < len \<and> i < length (waiting self)
      then let nxt = waiting self ! i
           in if w_bytes nxt = 0 \<and> \<not> (0 \<le> w_index nxt \<and> bf_get (bitfield self) (nat (w_index nxt)))
              then poll_loop cr self (i + 1) len evs
              else let self1 = self\<lparr>waiting := array_remove (waiting self) i\<rparr>;
                       r = (if w_bytes nxt \<noteq> 0
                            then seek cr self1 (w_bytes nxt)
                                   \<lparr>so_wait = True, so_hash = w_hash nxt, so_start = w_start nxt,
                                    so_end = w_end nxt\<rparr> (w_callback nxt)
                            else get cr self1 (nat (w_index nxt)) True (w_callback nxt))
                   in poll_loop cr (snd r) i (len - 1) (evs @ fst r)
      else (evs, self))"
  by pat_completeness auto
termination
  by (relation "measure (\<lambda>(cr, self, i, len, evs). len - i)") auto

declare poll_loop.simps [simp del]

definition pollWaiting :: "crypto \<Rightarrow> 'v feed \<Rightarrow> 'v events \<times> 'v feed" where
  "pollWaiting cr self = poll_loop cr self 0 (length (waiting self)) []"

text \<open>
  \<open>_sync\<close>, that is \<open>_syncBitfield\<close>: the updated bitfield pages are written to
  storage and the waiters are polled. The callback is called when the page writes
  complete (at once when there is none), which is before the storage reads of the polled
  waiters complete: its call comes first. Writing the bits as they are in memory is the
  same as writing the updated pages.
\<close>

definition sync :: "crypto \<Rightarrow> 'v feed \<Rightarrow> callback \<Rightarrow> 'v events \<times> 'v feed" where
  "sync cr self cb =
     (let self1 = self\<lparr>storage_of :=
                   putBitfield \<lparr>data_bits = bitfield self, tree_bits = tree self\<rparr> (storage_of self)\<rparr>;
          r = pollWaiting cr self1
      in ((cb, Done) # fst r, snd r))"

subsection \<open>Append\<close>

text \<open>
  The state of one \<open>_append\<close> call: the feed, the counter \<open>pending\<close>, \<open>offset\<close>, the
  number of storage writes issued whose callbacks (all \<open>done\<close>) are still to run, whether
  an exception ended the loop, and the callback calls made so far.
\<close>

record 'v append_state =
  as_feed :: "'v feed"
  as_pending :: int
  as_offset :: nat
  as_outstanding :: nat
  as_thrown :: bool
  as_events :: "'v events"

text \<open>
  The tail of \<open>done\<close>, once \<open>pending\<close> is 0:
  \<^verbatim>\<open>
  self.byteLength += offset
  for (var i = 0; i < batch.length; i++) {
    self.bitfield.set(self.length, true)
    self.tree.set(2 * self.length++)
  }
  self._sync(null, cb)
  \<close>
\<close>

primrec set_bits :: "nat \<Rightarrow> 'v feed \<Rightarrow> 'v feed" where
  "set_bits 0 self = self"
| "set_bits (Suc n) self =
     set_bits n (self\<lparr>bitfield := bf_set (bitfield self) (length_feed self),
                      tree := tree_set (tree self) (2 * length_feed self),
                      length_feed := Suc (length_feed self)\<rparr>)"

definition append_complete :: "crypto \<Rightarrow> nat \<Rightarrow> callback \<Rightarrow> 'v append_state \<Rightarrow> 'v append_state" where
  "append_complete cr n cb st =
     (let self = as_feed st;
          self1 = set_bits n (self\<lparr>byteLength := byteLength self + as_offset st\<rparr>);
          r = sync cr self1 cb
      in st\<lparr>as_feed := snd r, as_events := as_events st @ fst r\<rparr>)"

text \<open>\<open>done\<close>: \<^verbatim>\<open>if (--pending) return\<close>, then the tail above. No write fails here.\<close>

definition append_done :: "crypto \<Rightarrow> nat \<Rightarrow> callback \<Rightarrow> 'v append_state \<Rightarrow> 'v append_state" where
  "append_done cr n cb st =
     (let st1 = st\<lparr>as_pending := as_pending st - 1\<rparr>
      in if as_pending st1 \<noteq> 0 then st1 else append_complete cr n cb st1)"

text \<open>
  The loop over the batch; \<open>n\<close> is \<open>batch.length\<close> and \<open>i\<close> the loop index:
  \<^verbatim>\<open>
  var data = this._codec.encode(batch[i])
  var nodes = this._merkle.next(data)
  if (this._indexing) done(null)
  else this._storage.data.write(this.byteLength + offset, data, done)
  if (this.live) {
    var sig = signatures.sign(hash.tree(this._merkle.roots), this.secretKey)
    this._storage.putSignature(this.length + i, sig, done)
  }
  pending += nodes.length
  offset += data.length
  for (var j = 0; j < nodes.length; j++) this._storage.putNode(nodes[j].index, nodes[j], done)
  \<close>
  With \<open>_indexing\<close> the call \<open>done(null)\<close> runs at once, the storage callbacks run after
  the loop. Signing without a secret key, and \<open>next\<close> on a missing generator, raise an
  exception, which ends the loop. \<open>append_step\<close> is one round of the loop.
\<close>

definition put_nodes :: "node list \<Rightarrow> storage \<Rightarrow> storage" where
  "put_nodes ns stg = foldl (\<lambda>stg nd. putNode (index nd) nd stg) stg ns"

definition append_step ::
  "crypto \<Rightarrow> nat \<Rightarrow> callback \<Rightarrow> nat \<Rightarrow> 'v \<Rightarrow> 'v append_state \<Rightarrow> 'v append_state" where
  "append_step cr n cb i v st =
     (let self = as_feed st; buf = encode (codec_of self) v
      in case merkle_gen self of
           None \<Rightarrow> st\<lparr>as_thrown := True\<rparr>
         | Some g \<Rightarrow>
             let r = merkle_next cr g buf;
                 st1 = st\<lparr>as_feed := self\<lparr>merkle_gen := Some (snd r)\<rparr>\<rparr>;
                 st2 = (if indexing self then append_done cr n cb st1
                        else st1\<lparr>as_feed := (as_feed st1)\<lparr>storage_of :=
                                     data_write (byteLength self + as_offset st1) buf
                                       (storage_of self)\<rparr>,
                                  as_outstanding := as_outstanding st1 + 1\<rparr>);
                 self2 = as_feed st2
             in if live self2 \<and> secretKey self2 = None then st2\<lparr>as_thrown := True\<rparr>
                else
                  let st3 = (if live self2
                             then st2\<lparr>as_feed := self2\<lparr>storage_of :=
                                        putSignature (length_feed self2 + i)
                                          (sign cr (hash_tree cr (roots (snd r)))
                                             (the (secretKey self2)))
                                          (storage_of self2)\<rparr>,
                                      as_outstanding := as_outstanding st2 + 1\<rparr>
                             else st2);
                      self3 = as_feed st3
                  in st3\<lparr>as_pending := as_pending st3 + int (length (fst r)),
                         as_offset := as_offset st3 + length buf,
                         as_feed := self3\<lparr>storage_of := put_nodes (fst r) (storage_of self3)\<rparr>,
                         as_outstanding := as_outstanding st3 + length (fst r)\<rparr>)"

fun append_loop ::
  "crypto \<Rightarrow> nat \<Rightarrow> callback \<Rightarrow> nat \<Rightarrow> 'v list \<Rightarrow> 'v append_state \<Rightarrow> 'v append_state" where
  "append_loop cr n cb i [] st = st"
| "append_loop cr n cb i (v # vs) st =
     (if as_thrown st then st else append_loop cr n cb (i + 1) vs (append_step cr n cb i v st))"

text \<open>The storage callbacks that run after the loop, each a call of \<open>done\<close>.\<close>

primrec async_done :: "crypto \<Rightarrow> nat \<Rightarrow> callback \<Rightarrow> nat \<Rightarrow> 'v append_state \<Rightarrow> 'v append_state" where
  "async_done cr n cb 0 st = st"
| "async_done cr n cb (Suc k) st = async_done cr n cb k (append_done cr n cb st)"

text \<open>
  \<open>_append(batch, cb)\<close>, which \<open>append\<close> and \<open>flush\<close> reach through the batcher. An
  exception is recorded as \<open>Failed Thrown\<close>.
\<close>

definition append_feed :: "crypto \<Rightarrow> 'v feed \<Rightarrow> 'v list \<Rightarrow> callback \<Rightarrow> 'v events \<times> 'v feed" where
  "append_feed cr self0 batch cb =
     (case ready cr self0 of
        (Some e, self) \<Rightarrow> ([(cb, Failed e)], self)
      | (None, self) \<Rightarrow>
          if \<not> writable self then ([(cb, Failed NotWritable)], self)
          else
            let pending = (if live self then 2 * length batch else length batch)
            in if pending = 0 then ([(cb, Done)], self)
               else
                 let st = append_loop cr (length batch) cb 0 batch
                            \<lparr>as_feed = self, as_pending = int pending, as_offset = 0,
                             as_outstanding = 0, as_thrown = False, as_events = []\<rparr>;
                     st' = async_done cr (length batch) cb (as_outstanding st) st
                 in (as_events st' @ (if as_thrown st then [(cb, Failed Thrown)] else []),
                     as_feed st'))"

definition flush :: "crypto \<Rightarrow> 'v feed \<Rightarrow> callback \<Rightarrow> 'v events \<times> 'v feed" where
  "flush cr self cb = append_feed cr self [] cb"

subsection \<open>Put\<close>

text \<open>
  The planning loop of \<open>_putBuffer\<close>, over the tree bits and \<open>proof.nodes\<close>:
  \<^verbatim>\<open>
  while (true) {
    if (this.tree.get(next)) { trusted = next; break }
    var sib = flat.sibling(next)
    next = flat.parent(next)
    if (i < proof.nodes.length && proof.nodes[i].index === sib) { i++; continue }
    if (!this.tree.get(sib)) break
    missing.push(sib)
  }
  \<close>
  The result is \<open>trusted\<close> (\<open>None\<close> for \<open>-1\<close>), \<open>missing\<close> and \<open>next\<close>.
\<close>

function plan_loop ::
  "bitfield \<Rightarrow> node list \<Rightarrow> nat \<Rightarrow> nat \<Rightarrow> nat list \<Rightarrow> nat option \<times> nat list \<times> nat" where
  "plan_loop bits pn nxt i missing =
     (if bf_get bits nxt then (Some nxt, missing, nxt)
      else if i < length pn \<and> index (pn ! i) = sibling nxt
      then plan_loop bits pn (parent nxt) (i + 1) missing
      else if \<not> bf_get bits (sibling nxt) then (None, missing, parent nxt)
      else plan_loop bits pn (parent nxt) i (missing @ [sibling nxt]))"
  by pat_completeness auto
termination
proof (relation "measure (\<lambda>(bits, pn, nxt, i, missing). (length bits - depth nxt) + (length pn - i))")
  show "wf (measure (\<lambda>(bits, pn, nxt, i, missing). (length bits - depth nxt) + (length pn - i)))"
    by simp
next
  fix bits :: bitfield and pn :: "node list" and nxt i :: nat and missing :: "nat list"
  assume "i < length pn \<and> index (pn ! i) = sibling nxt"
  then show "((bits, pn, parent nxt, i + 1, missing), bits, pn, nxt, i, missing)
      \<in> measure (\<lambda>(bits, pn, nxt, i, missing). (length bits - depth nxt) + (length pn - i))"
    by auto
next
  fix bits :: bitfield and pn :: "node list" and nxt i :: nat and missing :: "nat list"
  assume "\<not> \<not> bf_get bits (sibling nxt)"
  then have "sibling nxt < length bits" by (auto dest: bf_get_less)
  moreover have "depth nxt \<le> sibling nxt" using depth_le [of "sibling nxt"] by simp
  ultimately have "depth nxt < length bits" by simp
  then show "((bits, pn, parent nxt, i, missing @ [sibling nxt]), bits, pn, nxt, i, missing)
      \<in> measure (\<lambda>(bits, pn, nxt, i, missing). (length bits - depth nxt) + (length pn - i))"
    by auto
qed

declare plan_loop.simps [simp del]

text \<open>
  The loop of \<open>_verifyAndWrite\<close>. It ends with the visited nodes when the computed node
  equals the trusted one (\<open>Anchored\<close>), or with \<open>top\<close>, the proof nodes left and the
  visited nodes when no further parent can be made (\<open>Unanchored\<close>).
  \<^verbatim>\<open>
  while (true) {
    var node = null
    var next = flat.sibling(top.index)
    if (remoteNodes.length && remoteNodes[0].index === next) {
      node = remoteNodes.shift()
      visited.push(node)
    } else if (localNodes.length && localNodes[0].index === next) {
      node = localNodes.shift()
    } else {
      this._verifyRootsAndWrite(index, data, top, proof, visited, from, cb)
      return
    }
    visited.push(top)
    top = new storage.Node(flat.parent(top.index), hash.parent(top, node), top.size + node.size)
    if (verifyNode(trustedNode, top)) {
      this._write(index, data, visited, null, from, cb)
      return
    }
  }
  \<close>
\<close>

datatype climb = Anchored "node list" | Unanchored node "node list" "node list"

definition make_parent :: "crypto \<Rightarrow> node \<Rightarrow> node \<Rightarrow> node" where
  "make_parent cr tp nd =
     Node (parent (index tp)) (hash_parent cr tp nd) (size_node tp + size_node nd)"

function verify_loop ::
  "crypto \<Rightarrow> node option \<Rightarrow> node \<Rightarrow> node list \<Rightarrow> node list \<Rightarrow> node list \<Rightarrow> climb" where
  "verify_loop cr trustedNode tp remoteNodes localNodes visited =
     (if remoteNodes \<noteq> [] \<and> index (hd remoteNodes) = sibling (index tp)
      then (if verifyNode trustedNode (make_parent cr tp (hd remoteNodes))
            then Anchored (visited @ [hd remoteNodes] @ [tp])
            else verify_loop cr trustedNode (make_parent cr tp (hd remoteNodes))
                   (tl remoteNodes) localNodes (visited @ [hd remoteNodes] @ [tp]))
      else if localNodes \<noteq> [] \<and> index (hd localNodes) = sibling (index tp)
      then (if verifyNode trustedNode (make_parent cr tp (hd localNodes))
            then Anchored (visited @ [tp])
            else verify_loop cr trustedNode (make_parent cr tp (hd localNodes))
                   remoteNodes (tl localNodes) (visited @ [tp]))
      else Unanchored tp remoteNodes visited)"
  by pat_completeness auto
termination
  by (relation "measure (\<lambda>(cr, trustedNode, tp, remoteNodes, localNodes, visited).
        length remoteNodes + length localNodes)") auto

declare verify_loop.simps [simp del]

text \<open>
  The loop of \<open>_verifyRootsAndWrite\<close> over \<open>indexes\<close>: each root is \<open>top\<close>, the next
  proof node, a stored node, or missing. The result is what \<open>onnode\<close> is called with for
  each index, the proof nodes left and \<open>nodes\<close>.
\<close>

fun collect_roots ::
  "storage \<Rightarrow> bitfield \<Rightarrow> node \<Rightarrow> nat list \<Rightarrow> node list \<Rightarrow> node list \<Rightarrow>
     (error + node) list \<times> node list \<times> node list" where
  "collect_roots stg bits tp [] remoteNodes ns = ([], remoteNodes, ns)"
| "collect_roots stg bits tp (ix # ixs) remoteNodes ns =
     (if ix = index tp
      then let r = collect_roots stg bits tp ixs remoteNodes (ns @ [tp])
           in (Inr tp # fst r, snd r)
      else if remoteNodes \<noteq> [] \<and> ix = index (hd remoteNodes)
      then let r = collect_roots stg bits tp ixs (tl remoteNodes) (ns @ [hd remoteNodes])
           in (Inr (hd remoteNodes) # fst r, snd r)
      else if bf_get bits ix
      then let r = collect_roots stg bits tp ixs remoteNodes ns
           in (getNode stg ix # fst r, snd r)
      else let r = collect_roots stg bits tp ixs remoteNodes ns
           in (Inl MissingRoots # fst r, snd r))"

text \<open>
  The value of \<open>error\<close> when \<open>verify\<close> runs: the storage reads complete after the loop,
  so a failed read overrides a missing root.
\<close>

definition roots_error :: "(error + node) list \<Rightarrow> error option" where
  "roots_error rs =
     (if Inl StorageFailed \<in> set rs then Some StorageFailed
      else if Inl MissingRoots \<in> set rs then Some MissingRoots
      else None)"

definition roots_nodes :: "(error + node) list \<Rightarrow> node list" where
  "roots_nodes rs = concat (map (\<lambda>r. case r of Inl e \<Rightarrow> [] | Inr n \<Rightarrow> [n]) rs)"

text \<open>
  \<open>_writeDone\<close> and \<open>_write\<close> (\<open>write_feed\<close>). The node, data and signature writes run side by side:
  when \<open>putData\<close> fails, the nodes and the signature are written all the same, and the
  bits are not set.
\<close>

definition writeDone ::
  "crypto \<Rightarrow> 'v feed \<Rightarrow> nat \<Rightarrow> buffer option \<Rightarrow> node list \<Rightarrow> callback \<Rightarrow> 'v events \<times> 'v feed" where
  "writeDone cr self i buf ns cb =
     (let t1 = foldl tree_set (tree self) (map index ns);
          t2 = tree_set t1 (2 * i);
          b = (if buf \<noteq> None then bf_set (bitfield self) i else bitfield self)
      in sync cr (self\<lparr>tree := t2, bitfield := b\<rparr>) cb)"

definition write_feed ::
  "crypto \<Rightarrow> 'v feed \<Rightarrow> nat \<Rightarrow> buffer option \<Rightarrow> node list \<Rightarrow> (nat \<times> buffer) option \<Rightarrow> callback \<Rightarrow>
     'v events \<times> 'v feed" where
  "write_feed cr self i buf ns sig cb =
     (let stg1 = put_nodes ns (storage_of self);
          with_sig = (\<lambda>stg. case sig of None \<Rightarrow> stg | Some (k, sg) \<Rightarrow> putSignature k sg stg)
      in case (case buf of None \<Rightarrow> Inr stg1 | Some d \<Rightarrow> putData i d ns stg1) of
           Inl e \<Rightarrow> ([(cb, Failed e)], self\<lparr>storage_of := with_sig stg1\<rparr>)
         | Inr stg2 \<Rightarrow> writeDone cr (self\<lparr>storage_of := with_sig stg2\<rparr>) i buf ns cb)"

text \<open>
  \<open>_verifyRootsAndWrite\<close>; \<open>remoteNodes\<close> is \<open>proof.nodes\<close> as the loop of
  \<open>_verifyAndWrite\<close> left it, \<open>sig\<close> is \<open>proof.signature\<close>. A signature is checked
  against the feed's key; with no key the check fails.
\<close>

definition verifiedBy_of :: "node \<Rightarrow> node list \<Rightarrow> nat" where
  "verifiedBy_of tp remoteNodes =
     (let lastNode = (if remoteNodes \<noteq> [] then index (last remoteNodes) else index tp)
      in max (rightSpan (index tp)) (rightSpan lastNode) + 2)"

definition gather_roots ::
  "'v feed \<Rightarrow> node \<Rightarrow> node list \<Rightarrow> node list \<Rightarrow> (error + node) list \<times> node list \<times> node list" where
  "gather_roots self tp remoteNodes visited =
     collect_roots (storage_of self) (tree self) tp (fullRoots (verifiedBy_of tp remoteNodes))
       remoteNodes visited"

text \<open>\<open>verify\<close> of \<open>_verifyRootsAndWrite\<close>, once the roots are there.\<close>

definition verify_roots ::
  "crypto \<Rightarrow> 'v feed \<Rightarrow> nat \<Rightarrow> buffer option \<Rightarrow> nat \<Rightarrow> node list \<Rightarrow> buffer option \<Rightarrow> node list \<Rightarrow>
     callback \<Rightarrow> 'v events \<times> 'v feed" where
  "verify_roots cr self i buf verifiedBy rts sig ns cb =
     (let checksum = hash_tree cr rts
      in if length_feed self \<noteq> 0 \<and> live self \<and> sig = None
         then ([(cb, Failed MissingSignature)], self)
         else if sig \<noteq> None \<and>
                 \<not> (case key self of None \<Rightarrow> False | Some k \<Rightarrow> verify cr checksum (the sig) k)
         then ([(cb, Failed InvalidSignature)], self)
         else if sig = None \<and> Some checksum \<noteq> key self
         then ([(cb, Failed ChecksumFailed)], self)
         else
           let signature' = map_option (\<lambda>sg. (verifiedBy div 2 - 1, sg)) sig;
               self1 = self\<lparr>live := (signature' \<noteq> None)\<rparr>;
               len = verifiedBy div 2;
               self2 = (if len > length_feed self1
                        then self1\<lparr>length_feed := len, byteLength := foldl addSize 0 rts\<rparr>
                        else self1)
           in write_feed cr self2 i buf ns signature' cb)"

definition verifyRootsAndWrite ::
  "crypto \<Rightarrow> 'v feed \<Rightarrow> nat \<Rightarrow> buffer option \<Rightarrow> node \<Rightarrow> node list \<Rightarrow> buffer option \<Rightarrow> node list \<Rightarrow>
     callback \<Rightarrow> 'v events \<times> 'v feed" where
  "verifyRootsAndWrite cr self i buf tp remoteNodes sig visited cb =
     (let r = gather_roots self tp remoteNodes visited
      in case roots_error (fst r) of
           Some e \<Rightarrow> ([(cb, Failed e)], self)
         | None \<Rightarrow>
             verify_roots cr self i buf (verifiedBy_of tp remoteNodes) (roots_nodes (fst r)) sig
               (snd (snd r)) cb)"

text \<open>
  \<open>_verifyAndWrite\<close>; \<open>data\<close> is \<open>None\<close> when only the hash is put, and \<open>top\<close> then
  is the first proof node (an exception when there is none). \<open>climb_of\<close> is the check
  against the trusted node followed by the loop; both ways of reaching the trusted node
  end in the same call of \<open>_write\<close>.
\<close>

definition first_top :: "crypto \<Rightarrow> nat \<Rightarrow> buffer option \<Rightarrow> feed_proof \<Rightarrow> node" where
  "first_top cr i buf prf =
     (case buf of Some d \<Rightarrow> Node (2 * i) (hash_data cr d) (length d) | None \<Rightarrow> hd (nodes prf))"

definition first_remote :: "buffer option \<Rightarrow> feed_proof \<Rightarrow> node list" where
  "first_remote buf prf = (case buf of Some d \<Rightarrow> nodes prf | None \<Rightarrow> tl (nodes prf))"

definition climb_of ::
  "crypto \<Rightarrow> nat \<Rightarrow> buffer option \<Rightarrow> feed_proof \<Rightarrow> node list \<Rightarrow> node option \<Rightarrow> climb" where
  "climb_of cr i buf prf localNodes trustedNode =
     (if verifyNode trustedNode (first_top cr i buf prf) then Anchored []
      else verify_loop cr trustedNode (first_top cr i buf prf) (first_remote buf prf)
             localNodes [])"

definition verifyAndWrite ::
  "crypto \<Rightarrow> 'v feed \<Rightarrow> nat \<Rightarrow> buffer option \<Rightarrow> feed_proof \<Rightarrow> node list \<Rightarrow> node option \<Rightarrow> callback \<Rightarrow>
     'v events \<times> 'v feed" where
  "verifyAndWrite cr self i buf prf localNodes trustedNode cb =
     (if buf = None \<and> nodes prf = [] then ([(cb, Failed Thrown)], self)
      else case climb_of cr i buf prf localNodes trustedNode of
             Anchored visited \<Rightarrow> write_feed cr self i buf visited None cb
           | Unanchored tp remoteNodes visited \<Rightarrow>
               verifyRootsAndWrite cr self i buf tp remoteNodes (signature prf) visited cb)"

text \<open>
  \<open>_putBuffer\<close>: the plan, then the trusted node and the missing nodes are read from
  storage (\<open>load_nodes\<close>); a failed read fails the put.
\<close>

definition trusted_of :: "'v feed \<Rightarrow> nat \<Rightarrow> feed_proof \<Rightarrow> nat option" where
  "trusted_of self i prf =
     (let plan = plan_loop (tree self) (nodes prf) (2 * i) 0 []
      in if fst plan = None \<and> bf_get (tree self) (snd (snd plan)) then Some (snd (snd plan))
         else fst plan)"

definition missing_of :: "'v feed \<Rightarrow> nat \<Rightarrow> feed_proof \<Rightarrow> nat list" where
  "missing_of self i prf = fst (snd (plan_loop (tree self) (nodes prf) (2 * i) 0 []))"

definition load_nodes :: "'v feed \<Rightarrow> nat \<Rightarrow> feed_proof \<Rightarrow> error + node list \<times> node option" where
  "load_nodes self i prf =
     (case collect (map (getNode (storage_of self)) (missing_of self i prf)) of
        Inl e \<Rightarrow> Inl e
      | Inr missingNodes \<Rightarrow>
          (case trusted_of self i prf of
             None \<Rightarrow> Inr (missingNodes, None)
           | Some t \<Rightarrow>
               (case getNode (storage_of self) t of
                  Inl e \<Rightarrow> Inl e
                | Inr trustedNode \<Rightarrow> Inr (missingNodes, Some trustedNode))))"

definition putBuffer ::
  "crypto \<Rightarrow> 'v feed \<Rightarrow> nat \<Rightarrow> buffer option \<Rightarrow> feed_proof \<Rightarrow> callback \<Rightarrow> 'v events \<times> 'v feed" where
  "putBuffer cr self i buf prf cb =
     (case load_nodes self i prf of
        Inl e \<Rightarrow> ([(cb, Failed e)], self)
      | Inr (missingNodes, trustedNode) \<Rightarrow>
          verifyAndWrite cr self i buf prf missingNodes trustedNode cb)"

definition put ::
  "crypto \<Rightarrow> 'v feed \<Rightarrow> nat \<Rightarrow> 'v \<Rightarrow> feed_proof \<Rightarrow> callback \<Rightarrow> 'v events \<times> 'v feed" where
  "put cr self0 i v prf cb =
     (case ready cr self0 of
        (Some e, self) \<Rightarrow> ([(cb, Failed e)], self)
      | (None, self) \<Rightarrow> putBuffer cr self i (Some (encode (codec_of self) v)) prf cb)"

subsection \<open>Finalize and close\<close>

text \<open>
  \<^verbatim>\<open>
  Feed.prototype.finalize = function (cb) {
    if (!this.key) {
      this.key = hash.tree(this._merkle.roots)
      this.discoveryKey = hash.discoveryKey(this.key)
    }
    this._storage.key.write(0, this.key, cb)
  }
  \<close>
  Without a key and before \<open>_open\<close> has set \<open>_merkle\<close>, reading \<open>this._merkle.roots\<close>
  raises an exception.
\<close>

definition finalize :: "crypto \<Rightarrow> 'v feed \<Rightarrow> callback \<Rightarrow> 'v events \<times> 'v feed" where
  "finalize cr self cb =
     (if key self = None \<and> merkle_gen self = None then ([(cb, Failed Thrown)], self)
      else
        let self1 = (if key self = None
                     then let k = hash_tree cr (roots (the (merkle_gen self)))
                          in self\<lparr>key := Some k, discoveryKey := Some (hash_discoveryKey cr k)\<rparr>
                     else self)
        in ([(cb, Done)], self1\<lparr>storage_of := (storage_of self1)\<lparr>key_store := key self1\<rparr>\<rparr>))"

text \<open>
  \<^verbatim>\<open>
  Feed.prototype.close = function (cb) {
    var self = this
    this._ready(function () {
      self.writable = false
      self.readable = false
      self._storage.close(cb)
    })
  }
  \<close>
\<close>

definition close :: "crypto \<Rightarrow> 'v feed \<Rightarrow> callback \<Rightarrow> 'v events \<times> 'v feed" where
  "close cr self0 cb =
     (let self = snd (ready cr self0)
      in ([(cb, Done)],
          self\<lparr>writable := False, readable := False,
               storage_of := (storage_of self)\<lparr>closed := True\<rparr>\<rparr>))"

section \<open>Example values\<close>

text \<open>
  A toy instance of the hash and signature parameters, an empty store and the default
  options, for the concrete evaluations below. The toy signature of a message under a
  key is the message tagged with the key, and the public key equals the secret key.
\<close>

definition toy_crypto :: crypto where
  "toy_crypto = \<lparr>H_leaf = (\<lambda>d. ''L'' @ d), H_parent = (\<lambda>s l r. ''P'' @ l @ r),
          H_roots = (\<lambda>ns. ''R'' @ concat (map hash ns)), H_discovery = (\<lambda>k. ''D'' @ k),
          sign = (\<lambda>m sk. ''S'' @ sk @ m), verify = (\<lambda>m sg pk. sg = ''S'' @ pk @ m),
          keyPair = (''K'', ''K'')\<rparr>"

definition empty_storage :: storage where
  "empty_storage = \<lparr>key_store = None, secretKey_store = None,
     bitfield_store = \<lparr>data_bits = [], tree_bits = []\<rparr>, tree_store = (\<lambda>_. None),
     data_store = [], signatures_store = (\<lambda>_. None), closed = False\<rparr>"

definition default_options :: "buffer options" where
  "default_options = \<lparr>opt_live = True, opt_sparse = False, opt_indexing = False,
     opt_createIfMissing = True, opt_overwrite = False, opt_valueEncoding = binary\<rparr>"

text \<open>A feed created on the empty store with the default options, and opened.\<close>

definition fresh_feed :: "buffer feed" where
  "fresh_feed = snd (open_feed toy_crypto (Feed toy_crypto empty_storage None default_options))"

section \<open>Properties of open\<close>

lemma trim_loop_all_unset: "(\<And>i. \<not> bf_get bits i) \<Longrightarrow> trim_loop bits n = 0"
  by (induction n) auto

lemma open_len_all_unset: "(\<And>i. \<not> bf_get bits i) \<Longrightarrow> open_len bits = 0"
  by (simp add: open_len_def trimLength_def trim_loop_all_unset)

lemma fullRoots_0 [simp]: "fullRoots 0 = []"
  by (simp add: fullRoots_def fullRoots_loop.simps)

lemma roots_of_0 [simp]: "roots_of stg 0 = Inr []"
  by (simp add: roots_of_def)

lemma state_key_no_key: "key_store (storage_of self) = None \<Longrightarrow> state_key self = None"
  by (simp add: state_key_def)

lemma state_tree_no_key:
  "key_store (storage_of self) = None \<Longrightarrow> \<not> bf_get (tree_bits (state_bitfield self)) i"
  by (auto simp: state_bitfield_def open_overwrite_def pages_fill0_def pages_length_def bf_get_def)

lemma open_bits_fields [simp]:
  "key (open_bits self) = key self"
  "secretKey (open_bits self) = secretKey self"
  "live (open_bits self) = live self"
  "createIfMissing (open_bits self) = createIfMissing self"
  "overwrite (open_bits self) = open_overwrite self"
  "storage_of (open_bits self) = storage_of self"
  by (simp_all add: open_bits_def)

lemma open_bits_length_no_key:
  "key_store (storage_of self) = None \<Longrightarrow> length_feed (open_bits self) = length_feed self"
  using open_len_all_unset [of "tree_bits (state_bitfield self)"] state_tree_no_key [of self]
  by (simp add: open_bits_def)

lemma open_keys_fields [simp]:
  "key (open_keys k sk self) = (if k \<noteq> None then k else key self)"
  "secretKey (open_keys k sk self) = (if sk \<noteq> None then sk else secretKey self)"
  "live (open_keys k sk self) = live self"
  "createIfMissing (open_keys k sk self) = createIfMissing self"
  "overwrite (open_keys k sk self) = overwrite self"
  "storage_of (open_keys k sk self) = storage_of self"
  "length_feed (open_keys k sk self) = length_feed self"
  by (simp_all add: open_keys_def)

lemma open_live_fields [simp]:
  "key (open_live state self) = key self"
  "secretKey (open_live state self) = secretKey self"
  "createIfMissing (open_live state self) = createIfMissing self"
  "overwrite (open_live state self) = overwrite self"
  "storage_of (open_live state self) = storage_of self"
  "length_feed (open_live state self) = length_feed self"
  "length_feed self = 0 \<Longrightarrow> live (open_live state self) = live self"
  by (simp_all add: open_live_def)

lemma open_keyPair_fields [simp]:
  "key (open_keyPair cr self) = (if key self = None \<and> live self then Some (fst (keyPair cr)) else key self)"
  "secretKey (open_keyPair cr self) =
     (if key self = None \<and> live self then Some (snd (keyPair cr)) else secretKey self)"
  "writable (open_keyPair cr self) =
     (if key self = None \<and> live self then True else secretKey self \<noteq> None \<or> key self = None)"
  "overwrite (open_keyPair cr self) = overwrite self"
  "storage_of (open_keyPair cr self) = storage_of self"
  "length_feed (open_keyPair cr self) = length_feed self"
  "live (open_keyPair cr self) = live self"
  by (simp_all add: open_keyPair_def Let_def)

lemma open_persist_fields [simp]:
  "key (open_persist pg self) = key self"
  "secretKey (open_persist pg self) = secretKey self"
  "writable (open_persist pg self) = writable self"
  "length_feed (open_persist pg self) = length_feed self"
  "live (open_persist pg self) = live self"
  by (simp_all add: open_persist_def Let_def)

lemma open_roots_length_0:
  "length_feed self = 0 \<Longrightarrow>
   open_roots self = (None, self\<lparr>merkle_gen := Some (merkle []), byteLength := 0, opened := True\<rparr>)"
  by (simp add: open_roots_def)

lemma open_NotFound:
  assumes "key_store (storage_of self) = None" "key self = None" "\<not> createIfMissing self"
  shows "fst (open_feed cr self) = Some NotFound"
  using assms by (simp add: open_feed_def Let_def state_key_no_key)

lemma open_create:
  assumes "key_store (storage_of self) = None" "length_feed self = 0" "key self = None"
    "createIfMissing self"
  shows "fst (open_feed cr self) = None \<and> writable (snd (open_feed cr self)) \<and>
         opened (snd (open_feed cr self)) \<and>
         (live self \<longrightarrow> key (snd (open_feed cr self)) = Some (fst (keyPair cr)) \<and>
                       secretKey (snd (open_feed cr self)) = Some (snd (keyPair cr))) \<and>
         (\<not> live self \<longrightarrow> key (snd (open_feed cr self)) = None)"
  using assms
  by (simp add: open_feed_def Let_def state_key_no_key open_bits_length_no_key open_roots_length_0)

lemma open_with_key:
  assumes "key_store (storage_of self) = None" "length_feed self = 0" "key self = Some k"
  shows "fst (open_feed cr self) = None \<and> key (snd (open_feed cr self)) = Some k \<and>
         opened (snd (open_feed cr self)) \<and>
         (writable (snd (open_feed cr self)) \<longleftrightarrow> state_secretKey self \<noteq> None \<or> secretKey self \<noteq> None)"
  using assms
  by (simp add: open_feed_def Let_def state_key_no_key open_bits_length_no_key open_roots_length_0)

lemma open_with_key_secret:
  assumes "key_store (storage_of self) = None" "length_feed self = 0" "key self = Some k"
    "secretKey self = None"
  shows "secretKey (snd (open_feed cr self)) =
           (if overwrite self \<or> pages_length (bitfield_store (storage_of self)) \<noteq> 0 then None
            else secretKey_store (storage_of self))"
  using assms
  by (simp add: open_feed_def Let_def state_key_no_key open_bits_length_no_key open_roots_length_0
      state_secretKey_def open_overwrite_def)

lemma open_AlreadyExists:
  assumes "key_store (storage_of self) = Some k1" "key self = Some k2" "k1 \<noteq> k2" "\<not> overwrite self"
  shows "fst (open_feed cr self) = Some AlreadyExists"
  using assms by (simp add: open_feed_def Let_def state_key_def open_overwrite_def)



lemma download_fields [simp]:
  "key (snd (download self rng cb)) = key self"
  "secretKey (snd (download self rng cb)) = secretKey self"
  "live (snd (download self rng cb)) = live self"
  "length_feed (snd (download self rng cb)) = length_feed self"
  "byteLength (snd (download self rng cb)) = byteLength self"
  "createIfMissing (snd (download self rng cb)) = createIfMissing self"
  "overwrite (snd (download self rng cb)) = overwrite self"
  "storage_of (snd (download self rng cb)) = storage_of self"
  "opened (snd (download self rng cb)) = opened self"
  by (simp_all add: download_def Let_def)

lemma Feed_fields [simp]:
  "key (Feed cr stg k opts) = k"
  "secretKey (Feed cr stg k opts) = None"
  "live (Feed cr stg k opts) = opt_live opts"
  "length_feed (Feed cr stg k opts) = 0"
  "createIfMissing (Feed cr stg k opts) = opt_createIfMissing opts"
  "overwrite (Feed cr stg k opts) = opt_overwrite opts"
  "storage_of (Feed cr stg k opts) = stg"
  "opened (Feed cr stg k opts) = False"
  by (simp_all add: Feed_def Let_def)


text \<open>
  Claim C10, as amended. On a store holding no key, with no key given to the constructor:
  without \<open>createIfMissing\<close> open fails with ``No hypercore is stored here''; with it
  open succeeds and the feed is writable, and a key pair is generated exactly when the
  feed is live (without one the key stays absent). With a key given to the constructor
  open succeeds with that key, whatever \<open>createIfMissing\<close> says, and no key pair is
  generated: the secret key is the stored one when \<open>overwrite\<close> is neither set nor
  forced by a stored bitfield, and absent otherwise, and the feed is writable exactly
  when it then has a secret key. When a stored key and the constructor's key differ, and
  the \<open>overwrite\<close> option is not set, open fails with ``Another hypercore is stored
  here''.
\<close>

theorem open_key_creation:
  "(key_store stg = None \<longrightarrow>
      (\<not> opt_createIfMissing opts \<longrightarrow>
         fst (open_feed cr (Feed cr stg None opts)) = Some NotFound) \<and>
      (opt_createIfMissing opts \<longrightarrow>
         fst (open_feed cr (Feed cr stg None opts)) = None \<and>
         writable (snd (open_feed cr (Feed cr stg None opts))) \<and>
         (opt_live opts \<longrightarrow>
            key (snd (open_feed cr (Feed cr stg None opts))) = Some (fst (keyPair cr)) \<and>
            secretKey (snd (open_feed cr (Feed cr stg None opts))) = Some (snd (keyPair cr))) \<and>
         (\<not> opt_live opts \<longrightarrow> key (snd (open_feed cr (Feed cr stg None opts))) = None)) \<and>
      fst (open_feed cr (Feed cr stg (Some k) opts)) = None \<and>
      key (snd (open_feed cr (Feed cr stg (Some k) opts))) = Some k \<and>
      secretKey (snd (open_feed cr (Feed cr stg (Some k) opts))) =
        (if opt_overwrite opts \<or> pages_length (bitfield_store stg) \<noteq> 0 then None
         else secretKey_store stg) \<and>
      (writable (snd (open_feed cr (Feed cr stg (Some k) opts))) \<longleftrightarrow>
         \<not> (opt_overwrite opts \<or> pages_length (bitfield_store stg) \<noteq> 0) \<and>
         secretKey_store stg \<noteq> None)) \<and>
   (key_store stg = Some k1 \<and> k1 \<noteq> k2 \<and> \<not> opt_overwrite opts \<longrightarrow>
      fst (open_feed cr (Feed cr stg (Some k2) opts)) = Some AlreadyExists) \<and>
   message NotFound = ''No hypercore is stored here'' \<and>
   message AlreadyExists = ''Another hypercore is stored here''"
  using open_NotFound [of "Feed cr stg None opts" cr]
    open_create [of "Feed cr stg None opts" cr]
    open_with_key [of "Feed cr stg (Some k) opts" k cr]
    open_with_key_secret [of "Feed cr stg (Some k) opts" k cr]
    open_AlreadyExists [of "Feed cr stg (Some k2) opts" k1 k2 cr]
  by (simp add: state_secretKey_def open_overwrite_def)

text \<open>
  Witness: the empty store with the default options (a key pair is generated), and a
  store holding the key \<open>a\<close> opened with the key \<open>b\<close>.
\<close>

theorem open_key_creation_witness:
  "key_store empty_storage = None \<and> opt_createIfMissing default_options \<and>
   opt_live default_options \<and>
   fst (open_feed toy_crypto (Feed toy_crypto empty_storage None default_options)) = None \<and>
   writable (snd (open_feed toy_crypto (Feed toy_crypto empty_storage None default_options))) \<and>
   key (snd (open_feed toy_crypto (Feed toy_crypto empty_storage None default_options)))
     = Some ''K'' \<and>
   secretKey (snd (open_feed toy_crypto (Feed toy_crypto empty_storage (Some ''x'') default_options)))
     = None \<and>
   \<not> writable (snd (open_feed toy_crypto (Feed toy_crypto empty_storage (Some ''x'') default_options))) \<and>
   key_store (empty_storage\<lparr>key_store := Some ''a''\<rparr>) = Some ''a'' \<and>
   \<not> opt_overwrite default_options \<and>
   fst (open_feed toy_crypto
          (Feed toy_crypto (empty_storage\<lparr>key_store := Some ''a''\<rparr>) (Some ''b'') default_options))
     = Some AlreadyExists"
proof -
  have a: "key_store empty_storage = None" "opt_createIfMissing default_options"
    "opt_live default_options" "\<not> opt_overwrite default_options"
    "key_store (empty_storage\<lparr>key_store := Some ''a''\<rparr>) = Some ''a''"
    "fst (keyPair toy_crypto) = ''K''"
    "pages_length (bitfield_store empty_storage) = 0" "secretKey_store empty_storage = None"
    by (simp_all add: empty_storage_def default_options_def toy_crypto_def pages_length_def)
  from open_key_creation [of empty_storage default_options toy_crypto "''x''" "''a''" "''b''"]
    open_key_creation [of "empty_storage\<lparr>key_store := Some ''a''\<rparr>" default_options toy_crypto
      "''x''" "''a''" "''b''"] a
  show ?thesis by simp
qed

text \<open>
  Counterexample to C10 as stated. The empty store holds no key and \<open>createIfMissing\<close>
  is set, yet with a key given to the constructor no key pair is generated and the feed
  is not writable; with \<open>live\<close> false no key pair is generated either; with
  \<open>createIfMissing\<close> false and a key given, open does not fail; and with \<open>overwrite\<close>
  set, differing keys do not fail the open.
\<close>

theorem open_key_creation_counterexample:
  "key_store empty_storage = None \<and> opt_createIfMissing default_options \<and>
   fst (open_feed toy_crypto (Feed toy_crypto empty_storage (Some ''remote'') default_options))
     = None \<and>
   \<not> writable (snd (open_feed toy_crypto
        (Feed toy_crypto empty_storage (Some ''remote'') default_options))) \<and>
   secretKey (snd (open_feed toy_crypto
        (Feed toy_crypto empty_storage (Some ''remote'') default_options))) = None \<and>
   key (snd (open_feed toy_crypto
        (Feed toy_crypto empty_storage None (default_options\<lparr>opt_live := False\<rparr>)))) = None \<and>
   fst (open_feed toy_crypto (Feed toy_crypto empty_storage (Some ''remote'')
        (default_options\<lparr>opt_createIfMissing := False\<rparr>))) = None \<and>
   fst (open_feed toy_crypto
          (Feed toy_crypto (empty_storage\<lparr>key_store := Some ''a''\<rparr>) (Some ''b'')
             (default_options\<lparr>opt_overwrite := True\<rparr>))) = None"
  by code_simp

section \<open>Properties of finalize and close\<close>

lemma ready_opened [simp]: "opened self \<Longrightarrow> ready cr self = (None, self)"
  by (simp add: ready_def)

text \<open>
  Claim C8, as amended. For a feed that has its generator (an opened feed): when the
  feed has no key, finalize sets the key to \<open>H_roots\<close> of the generator's roots, sets the
  discovery key to the hash of the new key, and writes the key to storage; when the feed
  has a key already, finalize keeps the key and the discovery key and writes the key
  again. Either way the callback is called without an error and \<open>live\<close> is unchanged.
\<close>

theorem finalize_sets_missing_key:
  "merkle_gen self = Some g \<longrightarrow>
     fst (finalize cr self cb) = [(cb, Done)] \<and>
     live (snd (finalize cr self cb)) = live self \<and>
     key_store (storage_of (snd (finalize cr self cb))) = key (snd (finalize cr self cb)) \<and>
     (key self = None \<longrightarrow>
        key (snd (finalize cr self cb)) = Some (hash_tree cr (roots g)) \<and>
        discoveryKey (snd (finalize cr self cb))
          = Some (hash_discoveryKey cr (hash_tree cr (roots g)))) \<and>
     (key self \<noteq> None \<longrightarrow>
        key (snd (finalize cr self cb)) = key self \<and>
        discoveryKey (snd (finalize cr self cb)) = discoveryKey self)"
  by (simp add: finalize_def Let_def)

text \<open>
  Witness: a feed opened with \<open>live\<close> false on the empty store has no key; finalize
  gives it the hash of its (empty) root set.
\<close>

theorem finalize_sets_missing_key_witness:
  "merkle_gen (snd (open_feed toy_crypto
      (Feed toy_crypto empty_storage None (default_options\<lparr>opt_live := False\<rparr>))))
     = Some \<lparr>roots = [], blocks = 0\<rparr> \<and>
   key (snd (open_feed toy_crypto
      (Feed toy_crypto empty_storage None (default_options\<lparr>opt_live := False\<rparr>)))) = None \<and>
   key (snd (finalize toy_crypto (snd (open_feed toy_crypto
      (Feed toy_crypto empty_storage None (default_options\<lparr>opt_live := False\<rparr>)))) 0))
     = Some ''R''"
proof -
  let ?f = "snd (open_feed toy_crypto
      (Feed toy_crypto empty_storage None (default_options\<lparr>opt_live := False\<rparr>)))"
  have g: "merkle_gen ?f = Some \<lparr>roots = [], blocks = 0\<rparr>" by code_simp
  have k: "key ?f = None" by code_simp
  have h: "hash_tree toy_crypto (roots \<lparr>roots = [], blocks = 0\<rparr>) = ''R''"
    by (simp add: hash_tree_def toy_crypto_def)
  from finalize_sets_missing_key [of ?f "\<lparr>roots = [], blocks = 0\<rparr>" toy_crypto 0] g k h
  show ?thesis by simp
qed

text \<open>
  Counterexample to C8 as stated: the feed created with the default options is live and
  has the generated key \<open>K\<close>; finalize leaves that key, which is not \<open>H_roots\<close> of the
  current roots.
\<close>

theorem finalize_counterexample:
  "key fresh_feed = Some ''K'' \<and>
   merkle_gen fresh_feed = Some \<lparr>roots = [], blocks = 0\<rparr> \<and>
   hash_tree toy_crypto [] = ''R'' \<and>
   key (snd (finalize toy_crypto fresh_feed 0)) = Some ''K'' \<and>
   key (snd (finalize toy_crypto fresh_feed 0)) \<noteq> Some (hash_tree toy_crypto [])"
  by code_simp

text \<open>
  Claim C9, as amended. After close on an opened feed the callback has been called, the
  feed is neither readable nor writable, and an append fails with ``This feed is not
  writable. Did you create it?'' and changes nothing. The waiters stay queued: close
  calls no callback but its own.
\<close>

theorem close_not_writable:
  "opened self \<longrightarrow>
     fst (close cr self cb) = [(cb, Done)] \<and>
     \<not> readable (snd (close cr self cb)) \<and>
     \<not> writable (snd (close cr self cb)) \<and>
     waiting (snd (close cr self cb)) = waiting self \<and>
     append_feed cr (snd (close cr self cb)) batch cb'
       = ([(cb', Failed NotWritable)], snd (close cr self cb)) \<and>
     message NotWritable = ''This feed is not writable. Did you create it?''"
  by (simp add: close_def append_feed_def Let_def)

theorem close_not_writable_witness:
  "opened fresh_feed \<and> writable fresh_feed \<and>
   \<not> writable (snd (close toy_crypto fresh_feed 1)) \<and>
   fst (append_feed toy_crypto (snd (close toy_crypto fresh_feed 1)) [''x''] 2)
     = [(2, Failed NotWritable)]"
proof -
  have o: "opened fresh_feed" "writable fresh_feed" by code_simp+
  from close_not_writable [of fresh_feed toy_crypto 1 "[''x'']" 2] o show ?thesis by simp
qed

text \<open>
  Counterexample to C9 as stated: a \<open>get\<close> of the absent block 0 queues a waiter with
  callback 7; close calls only its own callback 1, and the waiter is still queued.
\<close>

theorem close_counterexample:
  "fst (get toy_crypto fresh_feed 0 True 7) = [] \<and>
   map w_callback (waiting (snd (get toy_crypto fresh_feed 0 True 7))) = [7] \<and>
   fst (close toy_crypto (snd (get toy_crypto fresh_feed 0 True 7)) 1) = [(1, Done)] \<and>
   (7, Failed Cancelled) \<notin> set (fst (close toy_crypto (snd (get toy_crypto fresh_feed 0 True 7)) 1)) \<and>
   map w_callback (waiting (snd (close toy_crypto (snd (get toy_crypto fresh_feed 0 True 7)) 1)))
     = [7]"
  by code_simp

section \<open>Properties of put\<close>

lemma ex_self: "\<exists>w. self = self\<lparr>waiting := w\<rparr>"
  by (rule exI [of _ "waiting self"]) simp

lemma ex_upd: "\<exists>w'. self\<lparr>waiting := w\<rparr> = self\<lparr>waiting := w'\<rparr>"
  by blast

lemma get_waiting: "opened self \<Longrightarrow> \<exists>w. snd (get cr self i wait cb) = self\<lparr>waiting := w\<rparr>"
  by (simp add: get_def ex_self ex_upd)

lemma seek_waiting: "opened self \<Longrightarrow> \<exists>w. snd (seek cr self bytes opts cb) = self\<lparr>waiting := w\<rparr>"
proof -
  assume o: "opened self"
  show ?thesis
  proof (cases "seek_tree self bytes")
    case (Inl e)
    with o show ?thesis by (simp add: seek_def Let_def ex_self ex_upd)
  next
    case (Inr p)
    obtain i ofs where "p = (i, ofs)" by (cases p)
    with Inr o show ?thesis by (simp add: seek_def Let_def ex_self ex_upd)
  qed
qed


lemma poll_loop_waiting:
  "opened self \<Longrightarrow> \<exists>w. snd (poll_loop cr self i len evs) = self\<lparr>waiting := w\<rparr>"
proof (induction cr self i len evs rule: poll_loop.induct)
  case (1 cr self i len evs)
  show ?case
  proof (cases "i < len \<and> i < length (waiting self)")
    case False
    then have "poll_loop cr self i len evs = (evs, self)"
      by (subst poll_loop.simps) auto
    then show ?thesis by (simp add: ex_self)
  next
    case True
    define nxt where "nxt = waiting self ! i"
    show ?thesis
    proof (cases "w_bytes nxt = 0 \<and> \<not> (0 \<le> w_index nxt \<and> bf_get (bitfield self) (nat (w_index nxt)))")
      case skip: True
      with True have "poll_loop cr self i len evs = poll_loop cr self (i + 1) len evs"
        by (subst poll_loop.simps) (simp add: nxt_def Let_def)
      with "1.IH"(1) [OF True nxt_def skip "1.prems"] show ?thesis by simp
    next
      case take: False
      define self1 where "self1 = self\<lparr>waiting := array_remove (waiting self) i\<rparr>"
      define r where "r = (if w_bytes nxt \<noteq> 0
                            then seek cr self1 (w_bytes nxt)
                                   \<lparr>so_wait = True, so_hash = w_hash nxt, so_start = w_start nxt,
                                    so_end = w_end nxt\<rparr> (w_callback nxt)
                            else get cr self1 (nat (w_index nxt)) True (w_callback nxt))"
      from True take have eq: "poll_loop cr self i len evs = poll_loop cr (snd r) i (len - 1) (evs @ fst r)"
        by (subst poll_loop.simps) (auto simp: nxt_def Let_def self1_def r_def)
      have o1: "opened self1" using "1.prems" by (simp add: self1_def)
      have "\<exists>w. snd r = self1\<lparr>waiting := w\<rparr>"
      proof (cases "w_bytes nxt \<noteq> 0")
        case True
        with seek_waiting [OF o1] show ?thesis by (simp add: r_def)
      next
        case False
        with get_waiting [OF o1] show ?thesis by (simp add: r_def)
      qed
      then obtain w where w: "snd r = self1\<lparr>waiting := w\<rparr>" by blast
      then have o2: "opened (snd r)" using o1 by simp
      from "1.IH"(2) [OF True nxt_def take self1_def r_def o2]
      obtain w' where "snd (poll_loop cr (snd r) i (len - 1) (evs @ fst r)) = (snd r)\<lparr>waiting := w'\<rparr>"
        by blast
      with w eq have "snd (poll_loop cr self i len evs) = self\<lparr>waiting := w'\<rparr>"
        by (simp add: self1_def)
      then show ?thesis by blast
    qed
  qed
qed

lemma sync_result:
  "opened self \<Longrightarrow> \<exists>w evs. sync cr self cb =
     ((cb, Done) # evs,
      self\<lparr>storage_of := putBitfield \<lparr>data_bits = bitfield self, tree_bits = tree self\<rparr> (storage_of self),
           waiting := w\<rparr>)"
proof -
  assume o: "opened self"
  define self1 where "self1 = self\<lparr>storage_of :=
     putBitfield \<lparr>data_bits = bitfield self, tree_bits = tree self\<rparr> (storage_of self)\<rparr>"
  have "opened self1" using o by (simp add: self1_def)
  from poll_loop_waiting [OF this, of cr 0 "length (waiting self1)" "[]"]
  obtain w where "snd (pollWaiting cr self1) = self1\<lparr>waiting := w\<rparr>"
    by (auto simp: pollWaiting_def)
  then have "sync cr self cb = ((cb, Done) # fst (pollWaiting cr self1), self1\<lparr>waiting := w\<rparr>)"
    by (simp add: sync_def Let_def self1_def)
  then show ?thesis unfolding self1_def by blast
qed


lemma collect_error: "collect rs = Inl e \<Longrightarrow> Inl e \<in> set rs"
  by (induction rs arbitrary: e) (auto split: sum.splits)

lemma getNode_error: "getNode stg i = Inl e \<Longrightarrow> e = StorageFailed"
  by (auto simp: getNode_def split: option.splits)

lemma lookupNode_error: "lookupNode stg cached i = Inl e \<Longrightarrow> e = StorageFailed"
  by (auto simp: lookupNode_def split: option.splits dest: getNode_error)

lemma dataOffset_error: "dataOffset stg i cached = Inl e \<Longrightarrow> e = StorageFailed"
proof -
  assume a: "dataOffset stg i cached = Inl e"
  show ?thesis
  proof (cases "collect (map (lookupNode stg cached) (fullRoots (2 * i)))")
    case (Inl e')
    with a have "e' = e" by (simp add: dataOffset_def)
    with collect_error [OF Inl] obtain x where "lookupNode stg cached x = Inl e" by auto
    then show ?thesis by (rule lookupNode_error)
  next
    case (Inr rs)
    with a have "lookupNode stg cached (2 * i) = Inl e"
      by (simp add: dataOffset_def split: sum.splits)
    then show ?thesis by (rule lookupNode_error)
  qed
qed

lemma putData_error: "putData i d ns stg = Inl e \<Longrightarrow> e = StorageFailed \<or> e = UnexpectedSize"
  by (auto simp: putData_def split: if_splits sum.splits prod.splits dest: dataOffset_error)

text \<open>The tree bits and the data bits as \<open>_writeDone\<close> leaves them.\<close>

definition written_tree :: "bitfield \<Rightarrow> nat \<Rightarrow> node list \<Rightarrow> bitfield" where
  "written_tree t i ns = tree_set (foldl tree_set t (map index ns)) (2 * i)"

definition written_bits :: "bitfield \<Rightarrow> nat \<Rightarrow> buffer option \<Rightarrow> bitfield" where
  "written_bits b i buf = (if buf \<noteq> None then bf_set b i else b)"

lemma writeDone_result:
  assumes "opened self"
  shows "\<exists>w evs. writeDone cr self i buf ns cb =
     ((cb, Done) # evs,
      self\<lparr>tree := written_tree (tree self) i ns,
           bitfield := written_bits (bitfield self) i buf,
           storage_of := putBitfield
             \<lparr>data_bits = written_bits (bitfield self) i buf,
              tree_bits = written_tree (tree self) i ns\<rparr> (storage_of self),
           waiting := w\<rparr>)"
proof -
  define self1 where "self1 = self\<lparr>tree := written_tree (tree self) i ns,
           bitfield := written_bits (bitfield self) i buf\<rparr>"
  have o: "opened self1" using assms by (simp add: self1_def)
  have wd: "writeDone cr self i buf ns cb = sync cr self1 cb"
    unfolding writeDone_def Let_def self1_def written_tree_def written_bits_def by (rule refl)
  from sync_result [OF o, of cr cb] obtain w evs where
    "sync cr self1 cb = ((cb, Done) # evs,
      self1\<lparr>storage_of := putBitfield \<lparr>data_bits = bitfield self1, tree_bits = tree self1\<rparr> (storage_of self1),
           waiting := w\<rparr>)" by blast
  with wd have "writeDone cr self i buf ns cb = ((cb, Done) # evs,
      self\<lparr>tree := written_tree (tree self) i ns,
           bitfield := written_bits (bitfield self) i buf,
           storage_of := putBitfield
             \<lparr>data_bits = written_bits (bitfield self) i buf,
              tree_bits = written_tree (tree self) i ns\<rparr> (storage_of self),
           waiting := w\<rparr>)"
    by (simp add: self1_def)
  then show ?thesis by blast
qed

lemma write_feed_cases:
  assumes "opened self"
  shows "(\<exists>e stg. write_feed cr self i buf ns sig cb = ([(cb, Failed e)], self\<lparr>storage_of := stg\<rparr>) \<and>
            (e = StorageFailed \<or> e = UnexpectedSize)) \<or>
         (\<exists>evs stg w. write_feed cr self i buf ns sig cb =
            ((cb, Done) # evs,
             self\<lparr>tree := written_tree (tree self) i ns,
                  bitfield := written_bits (bitfield self) i buf,
                  storage_of := stg, waiting := w\<rparr>))"
proof -
  define stg1 where "stg1 = put_nodes ns (storage_of self)"
  define with_sig where
    "with_sig = (\<lambda>stg. case sig of None \<Rightarrow> stg | Some (k, sg) \<Rightarrow> putSignature k sg stg)"
  define r where "r = (case buf of None \<Rightarrow> Inr stg1 | Some d \<Rightarrow> putData i d ns stg1)"
  have unf: "write_feed cr self i buf ns sig cb =
      (case r of Inl e \<Rightarrow> ([(cb, Failed e)], self\<lparr>storage_of := with_sig stg1\<rparr>)
       | Inr stg2 \<Rightarrow> writeDone cr (self\<lparr>storage_of := with_sig stg2\<rparr>) i buf ns cb)"
    unfolding write_feed_def Let_def r_def stg1_def with_sig_def by (rule refl)
  show ?thesis
  proof (cases r)
    case (Inl e)
    with unf have "write_feed cr self i buf ns sig cb = ([(cb, Failed e)], self\<lparr>storage_of := with_sig stg1\<rparr>)"
      by simp
    moreover from Inl have "e = StorageFailed \<or> e = UnexpectedSize"
      by (auto simp: r_def split: option.splits dest: putData_error)
    ultimately show ?thesis by blast
  next
    case (Inr stg2)
    with unf have w: "write_feed cr self i buf ns sig cb
        = writeDone cr (self\<lparr>storage_of := with_sig stg2\<rparr>) i buf ns cb"
      by simp
    have "opened (self\<lparr>storage_of := with_sig stg2\<rparr>)" using assms by simp
    from writeDone_result [OF this, of cr i buf ns cb] obtain w' evs where
      "writeDone cr (self\<lparr>storage_of := with_sig stg2\<rparr>) i buf ns cb =
         ((cb, Done) # evs,
          self\<lparr>tree := written_tree (tree self) i ns,
               bitfield := written_bits (bitfield self) i buf,
               storage_of := putBitfield
                 \<lparr>data_bits = written_bits (bitfield self) i buf,
                  tree_bits = written_tree (tree self) i ns\<rparr> (with_sig stg2),
               waiting := w'\<rparr>)"
      by auto
    with w have "write_feed cr self i buf ns sig cb =
         ((cb, Done) # evs,
          self\<lparr>tree := written_tree (tree self) i ns,
               bitfield := written_bits (bitfield self) i buf,
               storage_of := putBitfield
                 \<lparr>data_bits = written_bits (bitfield self) i buf,
                  tree_bits = written_tree (tree self) i ns\<rparr> (with_sig stg2),
               waiting := w'\<rparr>)"
      by simp
    then show ?thesis by - (rule disjI2, (rule exI)+, assumption)
  qed
qed


lemma write_feed_failed:
  assumes "opened self" "fst (write_feed cr self i buf ns sig cb) = [(cb, Failed e)]"
  shows "e = StorageFailed \<or> e = UnexpectedSize"
  using write_feed_cases [OF assms(1), of cr i buf ns sig cb] assms(2) by auto

text \<open>
  The checks of \<open>verify\<close> in \<open>_verifyRootsAndWrite\<close> as one condition, and the feed
  as \<open>verify\<close> leaves it before \<open>_write\<close>.
\<close>

definition roots_accepted :: "crypto \<Rightarrow> 'v feed \<Rightarrow> node list \<Rightarrow> buffer option \<Rightarrow> bool" where
  "roots_accepted cr self rts sig =
     (\<not> (length_feed self \<noteq> 0 \<and> live self \<and> sig = None) \<and>
      \<not> (sig \<noteq> None \<and>
         \<not> (case key self of None \<Rightarrow> False | Some k \<Rightarrow> verify cr (hash_tree cr rts) (the sig) k)) \<and>
      \<not> (sig = None \<and> Some (hash_tree cr rts) \<noteq> key self))"

definition roots_applied :: "'v feed \<Rightarrow> nat \<Rightarrow> node list \<Rightarrow> buffer option \<Rightarrow> 'v feed" where
  "roots_applied self verifiedBy rts sig =
     (if verifiedBy div 2 > length_feed self
      then self\<lparr>live := (sig \<noteq> None), length_feed := verifiedBy div 2,
                byteLength := foldl addSize 0 rts\<rparr>
      else self\<lparr>live := (sig \<noteq> None)\<rparr>)"

lemma verify_roots_rejected:
  "\<not> roots_accepted cr self rts sig \<Longrightarrow>
   \<exists>e. verify_roots cr self i buf verifiedBy rts sig ns cb = ([(cb, Failed e)], self) \<and>
       (e = MissingSignature \<or> e = InvalidSignature \<or> e = ChecksumFailed)"
  by (auto simp: roots_accepted_def verify_roots_def Let_def)

lemma verify_roots_accepted:
  "roots_accepted cr self rts sig \<Longrightarrow>
   verify_roots cr self i buf verifiedBy rts sig ns cb =
     write_feed cr (roots_applied self verifiedBy rts sig) i buf ns
       (map_option (\<lambda>sg. (verifiedBy div 2 - 1, sg)) sig) cb"
  by (auto simp: roots_accepted_def verify_roots_def roots_applied_def Let_def)

lemma verify_roots_missing_signature:
  "length_feed self \<noteq> 0 \<Longrightarrow> live self \<Longrightarrow>
   verify_roots cr self i buf verifiedBy rts None ns cb = ([(cb, Failed MissingSignature)], self)"
  by (simp add: verify_roots_def Let_def)

lemma roots_applied_opened [simp]: "opened (roots_applied self vb rts sig) = opened self"
  by (simp add: roots_applied_def)

lemma verify_roots_failed:
  assumes "opened self" "fst (verify_roots cr self i buf vb rts sig ns cb) = [(cb, Failed e)]"
    "e \<noteq> StorageFailed" "e \<noteq> UnexpectedSize"
  shows "snd (verify_roots cr self i buf vb rts sig ns cb) = self"
proof (cases "roots_accepted cr self rts sig")
  case False
  from verify_roots_rejected [OF this, of i buf vb ns cb] show ?thesis by auto
next
  case True
  have o: "opened (roots_applied self vb rts sig)" using assms(1) by simp
  from assms(2) have "fst (write_feed cr (roots_applied self vb rts sig) i buf ns
       (map_option (\<lambda>sg. (vb div 2 - 1, sg)) sig) cb) = [(cb, Failed e)]"
    by (simp only: verify_roots_accepted [OF True])
  from write_feed_failed [OF o this] assms(3,4) show ?thesis by simp
qed

lemma verifyRootsAndWrite_failed:
  assumes "opened self"
    "fst (verifyRootsAndWrite cr self i buf tp rem sig vis cb) = [(cb, Failed e)]"
    "e \<noteq> StorageFailed" "e \<noteq> UnexpectedSize"
  shows "snd (verifyRootsAndWrite cr self i buf tp rem sig vis cb) = self"
proof (cases "roots_error (fst (gather_roots self tp rem vis))")
  case (Some e')
  then show ?thesis by (simp add: verifyRootsAndWrite_def Let_def)
next
  case None
  with verify_roots_failed [OF assms(1) _ assms(3,4)] assms(2) show ?thesis
    by (simp add: verifyRootsAndWrite_def Let_def)
qed

lemma verifyAndWrite_failed:
  assumes "opened self"
    "fst (verifyAndWrite cr self i buf prf ln tn cb) = [(cb, Failed e)]"
    "e \<noteq> StorageFailed" "e \<noteq> UnexpectedSize"
  shows "snd (verifyAndWrite cr self i buf prf ln tn cb) = self"
proof (cases "buf = None \<and> nodes prf = []")
  case True
  then show ?thesis by (simp add: verifyAndWrite_def)
next
  case False
  then have eq: "verifyAndWrite cr self i buf prf ln tn cb =
      (case climb_of cr i buf prf ln tn of
         Anchored visited \<Rightarrow> write_feed cr self i buf visited None cb
       | Unanchored tp remoteNodes visited \<Rightarrow>
           verifyRootsAndWrite cr self i buf tp remoteNodes (signature prf) visited cb)"
    unfolding verifyAndWrite_def by (rule if_not_P)
  show ?thesis
  proof (cases "climb_of cr i buf prf ln tn")
    case (Anchored vis)
    with eq assms(2) have "fst (write_feed cr self i buf vis None cb) = [(cb, Failed e)]"
      by simp
    from write_feed_failed [OF assms(1) this] assms(3,4) show ?thesis by simp
  next
    case (Unanchored tp rem vis)
    with eq assms(2) verifyRootsAndWrite_failed [OF assms(1) _ assms(3,4)]
    show ?thesis by simp
  qed
qed

lemma put_failed_unchanged:
  assumes "opened self" "fst (put cr self i v prf cb) = [(cb, Failed e)]"
    "e \<noteq> StorageFailed" "e \<noteq> UnexpectedSize"
  shows "snd (put cr self i v prf cb) = self"
proof (cases "load_nodes self i prf")
  case (Inl e')
  with assms(1) show ?thesis by (simp add: put_def putBuffer_def)
next
  case (Inr p)
  obtain ln tn where p: "p = (ln, tn)" by (cases p)
  with Inr assms(1,2) verifyAndWrite_failed [OF assms(1) _ assms(3,4)]
  show ?thesis by (simp add: put_def putBuffer_def)
qed

text \<open>
  A put extends to the root boundary when the nodes of the plan are read, no computed
  node equals the trusted node, and every full root at \<open>verifiedBy\<close> is there: it is
  \<open>top\<close>, a proof node or a stored node.
\<close>

definition extends_to_roots :: "crypto \<Rightarrow> 'v feed \<Rightarrow> nat \<Rightarrow> buffer \<Rightarrow> feed_proof \<Rightarrow> bool" where
  "extends_to_roots cr self i d prf =
     (case load_nodes self i prf of
        Inl e \<Rightarrow> False
      | Inr (missingNodes, trustedNode) \<Rightarrow>
          (case climb_of cr i (Some d) prf missingNodes trustedNode of
             Anchored visited \<Rightarrow> False
           | Unanchored tp remoteNodes visited \<Rightarrow>
               roots_error (fst (gather_roots self tp remoteNodes visited)) = None))"

lemma put_missing_signature:
  assumes "opened self" "live self" "0 < length_feed self" "signature prf = None"
    "extends_to_roots cr self i (encode (codec_of self) v) prf"
  shows "put cr self i v prf cb = ([(cb, Failed MissingSignature)], self)"
proof -
  from assms(5) obtain ln tn tp rem vis where
    l: "load_nodes self i prf = Inr (ln, tn)" and
    c: "climb_of cr i (Some (encode (codec_of self) v)) prf ln tn = Unanchored tp rem vis" and
    r: "roots_error (fst (gather_roots self tp rem vis)) = None"
    by (auto simp: extends_to_roots_def split: sum.splits prod.splits climb.splits)
  from assms(2,3) have "verify_roots cr self i (Some (encode (codec_of self) v)) (verifiedBy_of tp rem)
      (roots_nodes (fst (gather_roots self tp rem vis))) None (snd (snd (gather_roots self tp rem vis))) cb
      = ([(cb, Failed MissingSignature)], self)"
    by (simp add: verify_roots_missing_signature)
  with assms(1,4) l c r show ?thesis
    by (simp add: put_def putBuffer_def verifyAndWrite_def verifyRootsAndWrite_def Let_def)
qed


text \<open>
  The feed after \<open>append(["hello", "world"])\<close> on the fresh feed, and a proof for a
  third block that carries the root of the first two and no signature.
\<close>

definition two_blocks :: "buffer feed" where
  "two_blocks = snd (append_feed toy_crypto fresh_feed [''hello'', ''world''] 1)"

definition unsigned_proof :: feed_proof where
  "unsigned_proof = \<lparr>nodes = [Node 1 ''x'' 10], signature = None\<rparr>"

text \<open>
  Claim C7. On an opened live feed with length > 0, a put whose proof extends to the
  root boundary and carries no signature calls back with ``Remote did not include a
  signature'' and leaves the whole feed as it was: length, byteLength, the bitfields and
  the storage. More generally a put that fails with a verification error (missing roots,
  missing or invalid signature, failed checksum) changes nothing.
\<close>

theorem missing_signature_rejected:
  "(opened self \<and> live self \<and> 0 < length_feed self \<and> signature pf = None \<and>
    extends_to_roots cr self i (encode (codec_of self) v) pf \<longrightarrow>
      put cr self i v pf cb = ([(cb, Failed MissingSignature)], self)) \<and>
   (opened self \<and> fst (put cr self i v pf cb) = [(cb, Failed e)] \<and>
    (e = MissingSignature \<or> e = MissingRoots \<or> e = InvalidSignature \<or> e = ChecksumFailed) \<longrightarrow>
      snd (put cr self i v pf cb) = self) \<and>
   message MissingSignature = ''Remote did not include a signature''"
  using put_missing_signature [of self pf cr i v cb] put_failed_unchanged [of self cr i v pf cb e]
  by auto

theorem missing_signature_rejected_witness:
  "opened two_blocks \<and> live two_blocks \<and> length_feed two_blocks = 2 \<and>
   signature unsigned_proof = None \<and>
   extends_to_roots toy_crypto two_blocks 2 (encode (codec_of two_blocks) ''!'') unsigned_proof \<and>
   fst (put toy_crypto two_blocks 2 ''!'' unsigned_proof 3) = [(3, Failed MissingSignature)] \<and>
   length_feed (snd (put toy_crypto two_blocks 2 ''!'' unsigned_proof 3)) = 2 \<and>
   byteLength (snd (put toy_crypto two_blocks 2 ''!'' unsigned_proof 3)) = 10"
proof -
  have h: "opened two_blocks" "live two_blocks" "length_feed two_blocks = 2"
    "byteLength two_blocks = 10" "signature unsigned_proof = None"
    "extends_to_roots toy_crypto two_blocks 2 (encode (codec_of two_blocks) ''!'') unsigned_proof"
    by code_simp+
  from missing_signature_rejected [of two_blocks unsigned_proof toy_crypto 2 "''!''" 3 MissingSignature] h
  show ?thesis by simp
qed


section \<open>Properties of the flat tree and of the Merkle roots\<close>

lemma sibling_index_of: "sibling (index_of d ofs) = index_of d (if odd ofs then ofs - 1 else ofs + 1)"
  by (simp add: sibling_def)

lemma parent_index_of: "parent (index_of d ofs) = index_of (Suc d) (ofs div 2)"
  by (simp add: parent_def)

lemma index_of_0: "index_of 0 ofs = 2 * ofs"
  by (simp add: index_of_def)

lemma rightSpan_index_of: "rightSpan (index_of d ofs) = (ofs + 1) * 2 ^ (d + 1) - 2"
  by (cases "d = 0") (simp_all add: rightSpan_def index_of_0)

lemma leftSpan_index_of: "leftSpan (index_of d ofs) = ofs * 2 ^ (d + 1)"
  by (cases "d = 0") (simp_all add: leftSpan_def index_of_0)

lemma sibling_sibling [simp]: "sibling (sibling i) = i"
proof -
  have "sibling (sibling (index_of (depth i) (offset i))) = index_of (depth i) (offset i)"
    unfolding sibling_index_of by (auto elim: oddE)
  then show ?thesis by simp
qed

lemma parent_sibling [simp]: "parent (sibling i) = parent i"
proof -
  have "parent (sibling (index_of (depth i) (offset i))) = parent (index_of (depth i) (offset i))"
    unfolding sibling_index_of parent_index_of by (auto elim!: oddE)
  then show ?thesis by simp
qed

lemma parent_eq_iff: "parent x = parent y \<longleftrightarrow> y = x \<or> y = sibling x"
proof
  assume "y = x \<or> y = sibling x"
  then show "parent x = parent y" by auto
next
  assume p: "parent x = parent y"
  define d a b where "d = depth x" and "a = offset x" and "b = offset y"
  from p have "depth (parent x) = depth (parent y)" by simp
  then have dy: "depth y = d" by (simp add: d_def)
  from p have "offset (parent x) = offset (parent y)" by simp
  then have ab: "a div 2 = b div 2" by (simp add: a_def b_def)
  have x: "x = index_of d a" by (simp add: d_def a_def)
  have y: "y = index_of d b" using dy by (simp add: b_def [symmetric] flip: dy) (metis index_of_depth_offset b_def dy)
  from ab have "b = a \<or> b = (if odd a then a - 1 else a + 1)" by presburger
  then show "y = x \<or> y = sibling x"
    unfolding x y sibling_index_of by auto
qed

lemma rightSpan_parent: "rightSpan (parent i) = max (rightSpan i) (rightSpan (sibling i))"
proof -
  define d a where "d = depth i" and "a = offset i"
  have i: "i = index_of d a" by (simp add: d_def a_def)
  show ?thesis
  proof (cases "odd a")
    case True
    then obtain k where k: "a = 2 * k + 1" by (auto elim: oddE)
    show ?thesis unfolding i sibling_index_of parent_index_of rightSpan_index_of
      by (simp add: k algebra_simps)
  next
    case False
    then obtain k where k: "a = 2 * k" by (auto elim: evenE)
    show ?thesis unfolding i sibling_index_of parent_index_of rightSpan_index_of
      by (simp add: k algebra_simps)
  qed
qed

lemma rightSpan_even: "even (rightSpan i)"
proof -
  have "even (rightSpan (index_of (depth i) (offset i)))"
    unfolding rightSpan_index_of by simp
  then show ?thesis by simp
qed


lemma factor_loop_pow:
  "2 ^ j \<le> n \<Longrightarrow> \<exists>k. factor_loop n (2 ^ j) = 2 ^ k \<and> 2 ^ k \<le> n \<and> n < 2 * 2 ^ k"
proof (induction "n - 2 ^ j" arbitrary: j rule: less_induct)
  case less
  show ?case
  proof (cases "2 ^ j * 2 \<le> n")
    case True
    then have eq: "factor_loop n (2 ^ j) = factor_loop n (2 ^ Suc j)"
      by (subst factor_loop.simps) (simp add: mult.commute)
    define p :: nat where "p = 2 ^ j"
    have "0 < p" by (simp add: p_def)
    moreover from True have "p * 2 \<le> n" by (simp add: p_def)
    ultimately have "n - 2 * p < n - p" by linarith
    then have "n - 2 ^ Suc j < n - 2 ^ j" by (simp add: p_def)
    from less.hyps [OF this] True show ?thesis unfolding eq by (simp add: mult.commute)
  next
    case False
    then have "factor_loop n (2 ^ j) = 2 ^ j" by (subst factor_loop.simps) simp
    with False less.prems show ?thesis by (intro exI [of _ j]) (simp add: mult.commute)
  qed
qed

lemma pow_between_unique:
  assumes "(2::nat) ^ k \<le> n" "n < 2 * 2 ^ k" "2 ^ k' \<le> n" "n < 2 * 2 ^ k'"
  shows "k = k'"
proof (rule ccontr)
  assume "k \<noteq> k'"
  then consider "k < k'" | "k' < k" by linarith
  then show False
  proof cases
    case 1
    then have "(2::nat) ^ Suc k \<le> 2 ^ k'" by (intro power_increasing) auto
    with assms show False by simp
  next
    case 2
    then have "(2::nat) ^ Suc k' \<le> 2 ^ k" by (intro power_increasing) auto
    with assms show False by simp
  qed
qed

lemma factor_loop_eq:
  assumes "2 ^ k \<le> n" "n < 2 * 2 ^ k"
  shows "factor_loop n 1 = 2 ^ k"
proof -
  from assms(1) have "2 ^ 0 \<le> n" by (metis One_nat_def Suc_leI le_trans power_0 zero_less_numeral zero_less_power)
  from factor_loop_pow [OF this] obtain k' where
    k': "factor_loop n 1 = 2 ^ k'" "2 ^ k' \<le> n" "n < 2 * 2 ^ k'" by auto
  from pow_between_unique [OF assms k'(2,3)] k'(1) show ?thesis by simp
qed

lemma fullRoots_loop_step:
  "n \<noteq> 0 \<Longrightarrow> fullRoots_loop n ofs =
     (ofs + factor_loop n 1 - 1) # fullRoots_loop (n - factor_loop n 1) (ofs + 2 * factor_loop n 1)"
  by (subst fullRoots_loop.simps) (simp add: Let_def)

lemma fullRoots_loop_0 [simp]: "fullRoots_loop 0 ofs = []"
  by (simp add: fullRoots_loop.simps)

lemma fullRoots_loop_bounds:
  "x \<in> set (fullRoots_loop n ofs) \<Longrightarrow> ofs \<le> x \<and> x + 2 \<le> ofs + 2 * n"
proof (induction n ofs rule: fullRoots_loop.induct)
  case (1 n ofs)
  show ?case
  proof (cases "n = 0")
    case True
    with "1.prems" show ?thesis by simp
  next
    case False
    define f where "f = factor_loop n 1"
    from False factor_loop_bounds [of 1 n] have f: "0 < f" "f \<le> n" by (auto simp: f_def)
    from False have unf: "fullRoots_loop n ofs = (ofs + f - 1) # fullRoots_loop (n - f) (ofs + 2 * f)"
      unfolding f_def by (rule fullRoots_loop_step)
    from "1.prems" unf consider "x = ofs + f - 1" | "x \<in> set (fullRoots_loop (n - f) (ofs + 2 * f))"
      by auto
    then show ?thesis
    proof cases
      case 1
      with f show ?thesis by auto
    next
      case 2
      from "1.IH" [OF False f_def 2] f show ?thesis by auto
    qed
  qed
qed

lemma fullRoots_bound: "x \<in> set (fullRoots (2 * n)) \<Longrightarrow> x + 2 \<le> 2 * n"
  using fullRoots_loop_bounds [of x n 0] by (simp add: fullRoots_def)

lemma fullRoots_loop_append:
  "2 ^ Suc d dvd m \<Longrightarrow>
   fullRoots_loop (m + 2 ^ d) ofs = fullRoots_loop m ofs @ [ofs + 2 * m + 2 ^ d - 1]"
proof (induction m ofs rule: fullRoots_loop.induct)
  case (1 m ofs)
  show ?case
  proof (cases "m = 0")
    case True
    have "factor_loop (2 ^ d) 1 = 2 ^ d" by (rule factor_loop_eq) simp_all
    moreover have "fullRoots_loop (2 ^ d) ofs = (ofs + factor_loop (2 ^ d) 1 - 1) #
        fullRoots_loop (2 ^ d - factor_loop (2 ^ d) 1) (ofs + 2 * factor_loop (2 ^ d) 1)"
      by (rule fullRoots_loop_step) simp
    ultimately have "fullRoots_loop (2 ^ d) ofs = [ofs + 2 ^ d - 1]" by simp
    with True show ?thesis by simp
  next
    case False
    define f where "f = factor_loop m 1"
    from False have "2 ^ 0 \<le> m" by simp
    from factor_loop_pow [OF this] obtain k where
      k: "f = 2 ^ k" "2 ^ k \<le> m" "m < 2 * 2 ^ k" by (auto simp: f_def)
    from "1.prems" False have m_ge: "2 ^ Suc d \<le> m" by (auto dest: dvd_imp_le)
    have kd: "d < k"
    proof (rule ccontr)
      assume "\<not> d < k"
      then have "(2::nat) ^ k \<le> 2 ^ d" by (intro power_increasing) auto
      with k(3) m_ge show False by simp
    qed
    then have fdvd: "2 ^ Suc d dvd f" unfolding k(1) by (intro le_imp_power_dvd) simp
    have fdvd2: "2 ^ Suc d dvd 2 * f" using fdvd by (rule dvd_mult)
    have rest: "2 ^ Suc d dvd (m - f)" using "1.prems" fdvd by (rule dvd_diff_nat)
    have "m + 2 ^ d < 2 * f"
    proof -
      obtain a where a: "m = 2 ^ Suc d * a" using "1.prems" by (auto elim: dvdE)
      obtain b where b: "2 * f = 2 ^ Suc d * b" using fdvd2 by (auto elim: dvdE)
      from k(1,3) have "m < 2 * f" by simp
      then have "a < b" unfolding a b by simp
      then have "Suc a \<le> b" by simp
      then have "2 ^ Suc d * Suc a \<le> 2 ^ Suc d * b" by (rule mult_le_mono2)
      then have "m + 2 ^ Suc d \<le> 2 * f" by (simp add: a b)
      moreover have "(2::nat) ^ d < 2 ^ Suc d" by simp
      ultimately show ?thesis by linarith
    qed
    moreover have "f \<le> m + 2 ^ d" using k by simp
    ultimately have f': "factor_loop (m + 2 ^ d) 1 = f"
      unfolding k(1) by (intro factor_loop_eq) simp_all
    have "m + 2 ^ d \<noteq> 0" by simp
    from fullRoots_loop_step [OF this, of ofs]
    have unf1: "fullRoots_loop (m + 2 ^ d) ofs
        = (ofs + f - 1) # fullRoots_loop (m + 2 ^ d - f) (ofs + 2 * f)"
      unfolding f' .
    have unf2: "fullRoots_loop m ofs = (ofs + f - 1) # fullRoots_loop (m - f) (ofs + 2 * f)"
      using False unfolding f_def by (rule fullRoots_loop_step)
    have fm: "f \<le> m" using k by simp
    then have e1: "m + 2 ^ d - f = (m - f) + 2 ^ d" by simp
    from fm have e2: "ofs + 2 * f + 2 * (m - f) + 2 ^ d - 1 = ofs + 2 * m + 2 ^ d - 1" by simp
    from "1.IH" [OF False f_def rest]
    have ih: "fullRoots_loop (m + 2 ^ d - f) (ofs + 2 * f)
        = fullRoots_loop (m - f) (ofs + 2 * f) @ [ofs + 2 * m + 2 ^ d - 1]"
      unfolding e1 e2 .
    show ?thesis by (simp only: unf1 unf2 ih append_Cons)
  qed
qed

lemma fullRoots_append:
  "fullRoots (2 * ((2 * a) * 2 ^ d + 2 ^ d)) = fullRoots (2 * ((2 * a) * 2 ^ d)) @ [index_of d (2 * a)]"
proof -
  have "2 ^ Suc d dvd (2 * a) * 2 ^ d" by simp
  from fullRoots_loop_append [OF this, of 0]
  show ?thesis by (simp add: fullRoots_def index_of_def algebra_simps)
qed


lemma index_of_ge: "2 * (ofs * 2 ^ d) \<le> index_of d ofs"
proof -
  define p :: nat where "p = 2 ^ d"
  have "0 < p" by (simp add: p_def)
  then have "2 * (ofs * p) \<le> p + 2 * ofs * p - Suc 0" by simp
  then show ?thesis by (simp add: index_of_def p_def algebra_simps)
qed

lemma foldl_addSize_append:
  "foldl addSize a (xs @ ys) = foldl addSize a xs + foldl addSize 0 ys"
proof (induction ys arbitrary: a xs rule: rev_induct)
  case Nil
  then show ?case by simp
next
  case (snoc y ys)
  have "foldl addSize a (xs @ ys @ [y]) = foldl addSize a (xs @ ys) + size_node y"
    by (simp add: addSize_def)
  with snoc [of a xs] show ?case by (simp add: addSize_def)
qed

lemma merge_roots_stop:
  "\<not> (length rs > 1 \<and> parent (index (last (butlast rs))) = parent (index (last rs))) \<Longrightarrow>
   merge_roots cr rs ns = (rs, ns)"
  by (subst merge_roots.simps) auto

lemma merge_roots_step:
  "parent (index l) = parent (index r) \<Longrightarrow>
   merge_roots cr (rs @ [l, r]) ns =
     merge_roots cr (rs @ [Node (parent (index l)) (hash_parent cr l r) (size_node l + size_node r)])
       (ns @ [Node (parent (index l)) (hash_parent cr l r) (size_node l + size_node r)])"
  by (subst merge_roots.simps) (simp add: Let_def butlast_append)

lemma index_Node [simp]: "index (Node i h s) = i" "hash (Node i h s) = h" "size_node (Node i h s) = s"
  by (simp_all add: Node_def)

lemma merge_roots_full:
  assumes "map index rs = fullRoots (2 * (ofs * 2 ^ d))" "index nd = index_of d ofs"
  shows "\<exists>pre suf new.
      rs = pre @ suf \<and>
      merge_roots cr (rs @ [nd]) ns = (pre @ [last (nd # new)], ns @ new) \<and>
      map index (pre @ [last (nd # new)]) = fullRoots (2 * ((ofs + 1) * 2 ^ d)) \<and>
      (\<forall>x \<in> set new. rightSpan (index x) = rightSpan (index nd)) \<and>
      size_node (last (nd # new)) = foldl addSize 0 suf + size_node nd \<and>
      (\<forall>y \<in> set pre. \<forall>x \<in> set (nd # new). index y < index x) \<and>
      (\<forall>x \<in> set new. odd (index x))"
  using assms
proof (induction ofs arbitrary: d rs nd ns rule: less_induct)
  case (less ofs)
  have below: "index y < index nd" if "y \<in> set rs" for y
  proof -
    from that have "index y \<in> set (fullRoots (2 * (ofs * 2 ^ d)))"
      using less.prems(1) by (metis image_eqI set_map)
    from fullRoots_bound [OF this] index_of_ge [of ofs d] less.prems(2) show ?thesis by simp
  qed
  show ?case
  proof (cases "even ofs")
    case True
    then obtain a where a: "ofs = 2 * a" by (auto elim: evenE)
    have stop: "\<not> (length (rs @ [nd]) > 1 \<and>
        parent (index (last (butlast (rs @ [nd])))) = parent (index (last (rs @ [nd]))))"
    proof
      assume c: "length (rs @ [nd]) > 1 \<and>
        parent (index (last (butlast (rs @ [nd])))) = parent (index (last (rs @ [nd])))"
      then have ne: "rs \<noteq> []" by auto
      from c have "parent (index nd) = parent (index (last rs))" by simp
      then have alt: "index (last rs) = index nd \<or> index (last rs) = sibling (index nd)"
        by (simp add: parent_eq_iff)
      from ne have "index (last rs) \<in> set (map index rs)" by (simp add: last_in_set)
      with less.prems(1) have "index (last rs) \<in> set (fullRoots (2 * (ofs * 2 ^ d)))" by simp
      from fullRoots_bound [OF this] have b: "index (last rs) + 2 \<le> 2 * (ofs * 2 ^ d)" .
      from alt show False
      proof
        assume "index (last rs) = index nd"
        with b index_of_ge [of ofs d] less.prems(2) show False by simp
      next
        assume "index (last rs) = sibling (index nd)"
        then have "index (last rs) = index_of d (ofs + 1)"
          using True by (simp add: less.prems(2) sibling_index_of)
        with b index_of_ge [of "ofs + 1" d] show False by (simp add: algebra_simps)
      qed
    qed
    have m: "merge_roots cr (rs @ [nd]) ns = (rs @ [nd], ns)"
      by (rule merge_roots_stop [OF stop])
    have "map index (rs @ [nd]) = fullRoots (2 * ((ofs + 1) * 2 ^ d))"
      using fullRoots_append [of a d] less.prems by (simp add: a algebra_simps)
    with m below show ?thesis
      by (intro exI [of _ rs] exI [of _ "[]"]) simp
  next
    case False
    then obtain a where a: "ofs = 2 * a + 1" by (auto elim: oddE)
    have "map index rs = fullRoots (2 * ((2 * a) * 2 ^ d)) @ [index_of d (2 * a)]"
      using fullRoots_append [of a d] less.prems(1) by (simp add: a algebra_simps)
    then obtain rs0 l where rs: "rs = rs0 @ [l]"
      and rs0: "map index rs0 = fullRoots (2 * ((2 * a) * 2 ^ d))"
      and l: "index l = index_of d (2 * a)"
      by (cases rs rule: rev_cases) auto
    define p where "p = Node (parent (index l)) (hash_parent cr l nd) (size_node l + size_node nd)"
    have pl: "parent (index l) = index_of (Suc d) a" by (simp add: l parent_index_of)
    have pn: "parent (index nd) = index_of (Suc d) a"
      by (simp add: less.prems(2) a parent_index_of)
    have step: "merge_roots cr (rs @ [nd]) ns = merge_roots cr (rs0 @ [p]) (ns @ [p])"
      using merge_roots_step [of l nd cr rs0 ns] pl pn by (simp add: rs p_def)
    have ip: "index p = index_of (Suc d) a" by (simp add: p_def pl)
    have rs0': "map index rs0 = fullRoots (2 * (a * 2 ^ Suc d))"
      using rs0 by (simp add: algebra_simps)
    have "a < ofs" by (simp add: a)
    from less.IH [OF this rs0' ip, of "ns @ [p]"] obtain pre suf new where
      ih: "rs0 = pre @ suf"
        "merge_roots cr (rs0 @ [p]) (ns @ [p]) = (pre @ [last (p # new)], (ns @ [p]) @ new)"
        "map index (pre @ [last (p # new)]) = fullRoots (2 * ((a + 1) * 2 ^ Suc d))"
        "\<forall>x \<in> set new. rightSpan (index x) = rightSpan (index p)"
        "size_node (last (p # new)) = foldl addSize 0 suf + size_node p"
        "\<forall>y \<in> set pre. \<forall>x \<in> set (p # new). index y < index x"
        "\<forall>x \<in> set new. odd (index x)"
      by blast
    have rsp: "rightSpan (index p) = rightSpan (index nd)"
      by (simp add: ip less.prems(2) a rightSpan_index_of algebra_simps)
    have e1: "rs = pre @ (suf @ [l])" by (simp add: rs ih(1))
    have e2: "merge_roots cr (rs @ [nd]) ns = (pre @ [last (nd # p # new)], ns @ (p # new))"
      using step ih(2) by simp
    have e3: "map index (pre @ [last (nd # p # new)]) = fullRoots (2 * ((ofs + 1) * 2 ^ d))"
      using ih(3) by (simp add: a algebra_simps)
    have e4: "\<forall>x \<in> set (p # new). rightSpan (index x) = rightSpan (index nd)"
      using ih(4) rsp by simp
    have e5: "size_node (last (nd # p # new)) = foldl addSize 0 (suf @ [l]) + size_node nd"
      using ih(5) by (simp add: foldl_addSize_append addSize_def p_def)
    have e6: "\<forall>y \<in> set pre. \<forall>x \<in> set (nd # p # new). index y < index x"
      using ih(6) below by (simp add: e1)
    have e7: "\<forall>x \<in> set (p # new). odd (index x)"
      using ih(7) by (simp add: ip)
    from e1 e2 e3 e4 e5 e6 e7 show ?thesis by blast
  qed
qed


section \<open>Properties of append\<close>

lemma merge_roots_nodes_prefix: "\<exists>new. snd (merge_roots cr rs ns) = ns @ new"
proof (induction cr rs ns rule: merge_roots.induct)
  case (1 cr rs ns)
  show ?case
  proof (cases "length rs > 1 \<and> parent (index (last (butlast rs))) = parent (index (last rs))")
    case False
    then have "merge_roots cr rs ns = (rs, ns)" by (subst merge_roots.simps) auto
    then show ?thesis by simp
  next
    case True
    define p where "p = Node (parent (index (last (butlast rs)))) (hash_parent cr (last (butlast rs)) (last rs))
                     (size_node (last (butlast rs)) + size_node (last rs))"
    from True have eq: "merge_roots cr rs ns = merge_roots cr (butlast (butlast rs) @ [p]) (ns @ [p])"
      by (subst merge_roots.simps) (simp add: Let_def p_def)
    from "1.IH" [OF True refl refl p_def] obtain new where
      "snd (merge_roots cr (butlast (butlast rs) @ [p]) (ns @ [p])) = (ns @ [p]) @ new" by blast
    with eq show ?thesis by simp
  qed
qed

definition new_leaf :: "crypto \<Rightarrow> generator \<Rightarrow> buffer \<Rightarrow> node" where
  "new_leaf cr g buf = Node (2 * blocks g) (hash_data cr buf) (length buf)"

lemma merkle_next_eq:
  "fst (merkle_next cr g buf) = snd (merge_roots cr (roots g @ [new_leaf cr g buf]) [new_leaf cr g buf])"
  "snd (merkle_next cr g buf) =
     \<lparr>roots = fst (merge_roots cr (roots g @ [new_leaf cr g buf]) [new_leaf cr g buf]),
      blocks = Suc (blocks g)\<rparr>"
  by (simp_all add: merkle_next_def new_leaf_def Let_def split: prod.splits)

lemma merkle_next_nonempty: "fst (merkle_next cr g buf) \<noteq> []"
  using merge_roots_nodes_prefix [of cr "roots g @ [new_leaf cr g buf]" "[new_leaf cr g buf]"]
  by (auto simp: merkle_next_eq)

text \<open>The storage after one round of the loop of \<open>_append\<close>.\<close>

definition append_item :: "crypto \<Rightarrow> nat \<Rightarrow> nat \<Rightarrow> 'v \<Rightarrow> 'v feed \<Rightarrow> 'v feed" where
  "append_item cr ofs i v self =
     (let buf = encode (codec_of self) v;
          r = merkle_next cr (the (merkle_gen self)) buf;
          stg1 = (if indexing self then storage_of self
                  else data_write (byteLength self + ofs) buf (storage_of self));
          stg2 = (if live self
                  then putSignature (length_feed self + i)
                         (sign cr (hash_tree cr (roots (snd r))) (the (secretKey self))) stg1
                  else stg1)
      in self\<lparr>merkle_gen := Some (snd r), storage_of := put_nodes (fst r) stg2\<rparr>)"

fun append_items :: "crypto \<Rightarrow> nat \<Rightarrow> nat \<Rightarrow> 'v list \<Rightarrow> 'v feed \<Rightarrow> 'v feed" where
  "append_items cr ofs i [] self = self"
| "append_items cr ofs i (v # vs) self =
     append_items cr (ofs + length (encode (codec_of self) v)) (i + 1) vs (append_item cr ofs i v self)"

definition item_writes :: "crypto \<Rightarrow> 'v \<Rightarrow> 'v feed \<Rightarrow> nat" where
  "item_writes cr v self =
     (if indexing self then 0 else 1) + (if live self then 1 else 0) +
     length (fst (merkle_next cr (the (merkle_gen self)) (encode (codec_of self) v)))"

lemma append_item_fields [simp]:
  "live (append_item cr ofs i v self) = live self"
  "secretKey (append_item cr ofs i v self) = secretKey self"
  "indexing (append_item cr ofs i v self) = indexing self"
  "codec_of (append_item cr ofs i v self) = codec_of self"
  "length_feed (append_item cr ofs i v self) = length_feed self"
  "byteLength (append_item cr ofs i v self) = byteLength self"
  "opened (append_item cr ofs i v self) = opened self"
  "writable (append_item cr ofs i v self) = writable self"
  "bitfield (append_item cr ofs i v self) = bitfield self"
  "tree (append_item cr ofs i v self) = tree self"
  "waiting (append_item cr ofs i v self) = waiting self"
  "key (append_item cr ofs i v self) = key self"
  "merkle_gen (append_item cr ofs i v self) \<noteq> None"
  by (simp_all add: append_item_def Let_def)

lemma append_step_normal:
  assumes "merkle_gen (as_feed st) \<noteq> None"
    "live (as_feed st) \<longrightarrow> secretKey (as_feed st) \<noteq> None"
    "indexing (as_feed st) \<longrightarrow> as_pending st \<noteq> 1"
  shows "append_step cr n cb i v st =
     st\<lparr>as_feed := append_item cr (as_offset st) i v (as_feed st),
        as_pending := as_pending st - (if indexing (as_feed st) then 1 else 0)
                       + int (length (fst (merkle_next cr (the (merkle_gen (as_feed st)))
                                (encode (codec_of (as_feed st)) v)))),
        as_offset := as_offset st + length (encode (codec_of (as_feed st)) v),
        as_outstanding := as_outstanding st + item_writes cr v (as_feed st)\<rparr>"
proof -
  from assms(1) obtain g where g: "merkle_gen (as_feed st) = Some g" by auto
  show ?thesis
  proof (cases "indexing (as_feed st)")
    case True
    with assms(3) have d: "\<And>x. append_done cr n cb (st\<lparr>as_feed := x\<rparr>) = st\<lparr>as_feed := x, as_pending := as_pending st - 1\<rparr>"
      by (simp add: append_done_def Let_def)
    show ?thesis
      using True assms(2) g
      by (cases "live (as_feed st)")
         (auto simp: append_step_def Let_def d append_item_def item_writes_def)
  next
    case False
    show ?thesis
      using False assms(2) g
      by (cases "live (as_feed st)")
         (auto simp: append_step_def Let_def append_item_def item_writes_def)
  qed
qed


definition encoded_size :: "'v feed \<Rightarrow> 'v list \<Rightarrow> nat" where
  "encoded_size self vs = sum_list (map (\<lambda>v. length (encode (codec_of self) v)) vs)"

lemma encoded_size_simps [simp]:
  "encoded_size self [] = 0"
  "encoded_size self (v # vs) = length (encode (codec_of self) v) + encoded_size self vs"
  "encoded_size (append_item cr ofs i v self) vs = encoded_size self vs"
  by (simp_all add: encoded_size_def)

lemma append_items_fields [simp]:
  "live (append_items cr ofs i vs self) = live self"
  "secretKey (append_items cr ofs i vs self) = secretKey self"
  "indexing (append_items cr ofs i vs self) = indexing self"
  "codec_of (append_items cr ofs i vs self) = codec_of self"
  "length_feed (append_items cr ofs i vs self) = length_feed self"
  "byteLength (append_items cr ofs i vs self) = byteLength self"
  "opened (append_items cr ofs i vs self) = opened self"
  "writable (append_items cr ofs i vs self) = writable self"
  "bitfield (append_items cr ofs i vs self) = bitfield self"
  "tree (append_items cr ofs i vs self) = tree self"
  "waiting (append_items cr ofs i vs self) = waiting self"
  "key (append_items cr ofs i vs self) = key self"
  by (induction vs arbitrary: ofs i self; simp)+

lemma item_writes_pos: "0 < item_writes cr v self"
  using merkle_next_nonempty [of cr "the (merkle_gen self)" "encode (codec_of self) v"]
  by (simp add: item_writes_def)

lemma append_loop_normal:
  assumes "\<not> as_thrown st" "merkle_gen (as_feed st) \<noteq> None"
    "live (as_feed st) \<longrightarrow> secretKey (as_feed st) \<noteq> None"
    "as_pending st = int (as_outstanding st) + int ((if live (as_feed st) then 2 else 1) * length vs)"
    "indexing (as_feed st) \<and> \<not> live (as_feed st) \<longrightarrow> 0 < as_outstanding st \<or> length vs \<noteq> 1"
  shows "as_feed (append_loop cr n cb i vs st) = append_items cr (as_offset st) i vs (as_feed st) \<and>
         as_offset (append_loop cr n cb i vs st) = as_offset st + encoded_size (as_feed st) vs \<and>
         \<not> as_thrown (append_loop cr n cb i vs st) \<and>
         as_events (append_loop cr n cb i vs st) = as_events st \<and>
         as_pending (append_loop cr n cb i vs st) = int (as_outstanding (append_loop cr n cb i vs st)) \<and>
         (vs \<noteq> [] \<longrightarrow> 0 < as_outstanding (append_loop cr n cb i vs st))"
  using assms
proof (induction vs arbitrary: st i)
  case Nil
  then show ?case by simp
next
  case (Cons v vs)
  define self where "self = as_feed st"
  define st' where "st' = append_step cr n cb i v st"
  have p1: "indexing (as_feed st) \<longrightarrow> as_pending st \<noteq> 1"
  proof (cases "live (as_feed st)")
    case True
    with Cons.prems(4) show ?thesis by simp
  next
    case False
    show ?thesis
    proof
      assume ix: "indexing (as_feed st)"
      with False Cons.prems(5) have "0 < as_outstanding st \<or> vs \<noteq> []" by auto
      then have "0 < as_outstanding st + length vs" by auto
      then have "int (as_outstanding st) + int (Suc (length vs)) \<noteq> 1" by linarith
      with False Cons.prems(4) show "as_pending st \<noteq> 1" by simp
    qed
  qed
  note step = append_step_normal [OF Cons.prems(2,3) p1, of cr n cb i v]
  have f: "as_feed st' = append_item cr (as_offset st) i v self"
    and o: "as_offset st' = as_offset st + length (encode (codec_of self) v)"
    and t: "\<not> as_thrown st'" and e: "as_events st' = as_events st"
    and out: "as_outstanding st' = as_outstanding st + item_writes cr v self"
    and pen: "as_pending st' = as_pending st - (if indexing self then 1 else 0)
                       + int (length (fst (merkle_next cr (the (merkle_gen self))
                                (encode (codec_of self) v))))"
    using Cons.prems(1) by (simp_all add: st'_def step self_def)
  have a2: "merkle_gen (as_feed st') \<noteq> None" by (simp add: f)
  have a3: "live (as_feed st') \<longrightarrow> secretKey (as_feed st') \<noteq> None"
    using Cons.prems(3) by (simp add: f self_def)
  have a4: "as_pending st' = int (as_outstanding st')
      + int ((if live (as_feed st') then 2 else 1) * length vs)"
    using Cons.prems(4)
    by (simp add: pen out f self_def item_writes_def algebra_simps split: if_splits)
  have a5: "indexing (as_feed st') \<and> \<not> live (as_feed st') \<longrightarrow> 0 < as_outstanding st' \<or> length vs \<noteq> 1"
    using item_writes_pos [of cr v self] by (simp add: out)
  from Cons.IH [OF t a2 a3 a4 a5, of "i + 1"]
  have ih: "as_feed (append_loop cr n cb (i + 1) vs st') = append_items cr (as_offset st') (i + 1) vs (as_feed st')"
    "as_offset (append_loop cr n cb (i + 1) vs st') = as_offset st' + encoded_size (as_feed st') vs"
    "\<not> as_thrown (append_loop cr n cb (i + 1) vs st')"
    "as_events (append_loop cr n cb (i + 1) vs st') = as_events st'"
    "as_pending (append_loop cr n cb (i + 1) vs st') = int (as_outstanding (append_loop cr n cb (i + 1) vs st'))"
    "vs \<noteq> [] \<longrightarrow> 0 < as_outstanding (append_loop cr n cb (i + 1) vs st')"
    by simp_all
  have unf: "append_loop cr n cb i (v # vs) st = append_loop cr n cb (i + 1) vs st'"
    using Cons.prems(1) by (simp add: st'_def)
  have pos: "0 < as_outstanding (append_loop cr n cb (i + 1) vs st')"
  proof (cases vs)
    case Nil
    with item_writes_pos [of cr v self] show ?thesis by (simp add: out)
  next
    case (Cons a list)
    with ih(6) show ?thesis by simp
  qed
  show ?case
    unfolding unf using ih pos by (simp add: f o e self_def)
qed

lemma async_done_complete:
  "as_pending st = int k \<Longrightarrow> 0 < k \<Longrightarrow>
   async_done cr n cb k st = append_complete cr n cb (st\<lparr>as_pending := 0\<rparr>)"
proof (induction k arbitrary: st)
  case 0
  then show ?case by simp
next
  case (Suc k)
  show ?case
  proof (cases "k = 0")
    case True
    with Suc.prems show ?thesis by (simp add: append_done_def Let_def)
  next
    case False
    with Suc.prems have d: "append_done cr n cb st = st\<lparr>as_pending := int k\<rparr>"
      by (simp add: append_done_def Let_def)
    from False Suc.IH [of "st\<lparr>as_pending := int k\<rparr>"] show ?thesis by (simp add: d)
  qed
qed

text \<open>The feed when the last \<open>done\<close> of an append has set the lengths and the bits.\<close>

definition appended :: "crypto \<Rightarrow> 'v feed \<Rightarrow> 'v list \<Rightarrow> 'v feed" where
  "appended cr self batch =
     set_bits (length batch)
       ((append_items cr 0 0 batch self)\<lparr>byteLength := byteLength self + encoded_size self batch\<rparr>)"

text \<open>
  The one case in which \<open>done\<close> reaches 0 inside the loop: \<open>_indexing\<close> on a feed that
  is not live, with a batch of one value.
\<close>

definition early_done :: "'v feed \<Rightarrow> 'v list \<Rightarrow> bool" where
  "early_done self batch = (indexing self \<and> \<not> live self \<and> length batch = 1)"

lemma append_feed_normal:
  assumes "opened self" "writable self" "merkle_gen self \<noteq> None"
    "live self \<longrightarrow> secretKey self \<noteq> None" "batch \<noteq> []" "\<not> early_done self batch"
  shows "append_feed cr self batch cb = sync cr (appended cr self batch) cb"
proof -
  define st0 where "st0 = \<lparr>as_feed = self,
     as_pending = int (if live self then 2 * length batch else length batch), as_offset = 0,
     as_outstanding = 0, as_thrown = False, as_events = []\<rparr>"
  define st where "st = append_loop cr (length batch) cb 0 batch st0"
  have h1: "\<not> as_thrown st0" and h2: "merkle_gen (as_feed st0) \<noteq> None"
    and h3: "live (as_feed st0) \<longrightarrow> secretKey (as_feed st0) \<noteq> None"
    and h4: "as_pending st0 = int (as_outstanding st0)
               + int ((if live (as_feed st0) then 2 else 1) * length batch)"
    and h5: "indexing (as_feed st0) \<and> \<not> live (as_feed st0) \<longrightarrow>
               0 < as_outstanding st0 \<or> length batch \<noteq> 1"
    using assms(3,4,6) by (auto simp: st0_def early_done_def)
  have "as_feed st = append_items cr 0 0 batch self \<and>
         as_offset st = encoded_size self batch \<and>
         \<not> as_thrown st \<and> as_events st = [] \<and>
         as_pending st = int (as_outstanding st) \<and> (batch \<noteq> [] \<longrightarrow> 0 < as_outstanding st)"
    using append_loop_normal [OF h1 h2 h3 h4 h5, of cr "length batch" cb 0]
    by (simp add: st0_def st_def)
  with assms(5) have l: "as_feed st = append_items cr 0 0 batch self"
    "as_offset st = encoded_size self batch" "\<not> as_thrown st" "as_events st = []"
    "as_pending st = int (as_outstanding st)" "0 < as_outstanding st" by simp_all
  from async_done_complete [OF l(5,6), of cr "length batch" cb]
  have a: "async_done cr (length batch) cb (as_outstanding st) st
      = append_complete cr (length batch) cb (st\<lparr>as_pending := 0\<rparr>)" .
  have c: "append_complete cr (length batch) cb (st\<lparr>as_pending := 0\<rparr>)
      = st\<lparr>as_pending := 0, as_feed := snd (sync cr (appended cr self batch) cb),
           as_events := fst (sync cr (appended cr self batch) cb)\<rparr>"
    by (simp add: append_complete_def Let_def l appended_def)
  have "append_feed cr self batch cb =
      (as_events (async_done cr (length batch) cb (as_outstanding st) st)
         @ (if as_thrown st then [(cb, Failed Thrown)] else []),
       as_feed (async_done cr (length batch) cb (as_outstanding st) st))"
    using assms(1,2,5) unfolding st_def st0_def
    by (simp add: append_feed_def Let_def)
  then show ?thesis by (simp add: a c l)
qed


section \<open>Monotonicity of the lengths\<close>

lemma set_bits_fields [simp]:
  "length_feed (set_bits n self) = length_feed self + n"
  "byteLength (set_bits n self) = byteLength self"
  "opened (set_bits n self) = opened self"
  "live (set_bits n self) = live self"
  "key (set_bits n self) = key self"
  "secretKey (set_bits n self) = secretKey self"
  "merkle_gen (set_bits n self) = merkle_gen self"
  "storage_of (set_bits n self) = storage_of self"
  "codec_of (set_bits n self) = codec_of self"
  "indexing (set_bits n self) = indexing self"
  "writable (set_bits n self) = writable self"
  by (induction n arbitrary: self) simp_all

lemma sync_lengths:
  assumes "opened self"
  shows "opened (snd (sync cr self cb)) \<and> length_feed (snd (sync cr self cb)) = length_feed self \<and>
         byteLength (snd (sync cr self cb)) = byteLength self"
  using sync_result [OF assms, of cr cb] assms by auto

definition no_less :: "'v feed \<Rightarrow> 'v feed \<Rightarrow> bool" where
  "no_less a b = (opened b \<and> length_feed a \<le> length_feed b \<and> byteLength a \<le> byteLength b)"

lemma no_less_refl: "opened a \<Longrightarrow> no_less a a"
  by (simp add: no_less_def)

lemma no_less_trans: "no_less a b \<Longrightarrow> no_less b c \<Longrightarrow> no_less a c"
  by (auto simp: no_less_def)

lemma append_complete_no_less:
  assumes "opened (as_feed st)"
  shows "no_less (as_feed st) (as_feed (append_complete cr n cb st))"
proof -
  define self1 where
    "self1 = set_bits n ((as_feed st)\<lparr>byteLength := byteLength (as_feed st) + as_offset st\<rparr>)"
  have o: "opened self1" using assms by (simp add: self1_def)
  have "as_feed (append_complete cr n cb st) = snd (sync cr self1 cb)"
    by (simp add: append_complete_def Let_def self1_def)
  with sync_lengths [OF o, of cr cb] show ?thesis
    by (simp add: no_less_def self1_def)
qed

lemma append_done_no_less:
  assumes "opened (as_feed st)"
  shows "no_less (as_feed st) (as_feed (append_done cr n cb st))"
proof (cases "as_pending st - 1 \<noteq> 0")
  case True
  then show ?thesis using assms by (simp add: append_done_def Let_def no_less_def)
next
  case False
  then have "append_done cr n cb st = append_complete cr n cb (st\<lparr>as_pending := as_pending st - 1\<rparr>)"
    by (simp add: append_done_def Let_def)
  with append_complete_no_less [of "st\<lparr>as_pending := as_pending st - 1\<rparr>" cr n cb] assms
  show ?thesis by simp
qed

lemma append_step_no_less:
  assumes "opened (as_feed st)"
  shows "no_less (as_feed st) (as_feed (append_step cr n cb i v st))"
proof (cases "merkle_gen (as_feed st)")
  case None
  then show ?thesis using assms by (simp add: append_step_def Let_def no_less_def)
next
  case (Some g)
  define self where "self = as_feed st"
  define buf where "buf = encode (codec_of self) v"
  define r where "r = merkle_next cr g buf"
  define st1 where "st1 = st\<lparr>as_feed := self\<lparr>merkle_gen := Some (snd r)\<rparr>\<rparr>"
  define st2 where "st2 = (if indexing self then append_done cr n cb st1
                        else st1\<lparr>as_feed := (as_feed st1)\<lparr>storage_of :=
                                     data_write (byteLength self + as_offset st1) buf
                                       (storage_of self)\<rparr>,
                                  as_outstanding := as_outstanding st1 + 1\<rparr>)"
  have o1: "opened (as_feed st1)" using assms by (simp add: st1_def self_def)
  have n1: "no_less self (as_feed st1)" using assms by (simp add: st1_def self_def no_less_def)
  have n2: "no_less (as_feed st1) (as_feed st2)"
    using append_done_no_less [OF o1, of cr n cb] o1 by (simp add: st2_def no_less_def)
  have n12: "no_less self (as_feed st2)" by (rule no_less_trans [OF n1 n2])
  have "no_less (as_feed st2) (as_feed (append_step cr n cb i v st))"
    using n12 Some unfolding append_step_def
    apply (simp only: option.case Let_def)
    apply (fold self_def)
    apply (fold buf_def)
    apply (fold r_def)
    apply (fold st1_def)
    apply (fold st2_def)
    apply (simp add: no_less_def)
    done
  with n12 show ?thesis unfolding self_def by (rule no_less_trans)
qed

lemma append_loop_no_less:
  "opened (as_feed st) \<Longrightarrow> no_less (as_feed st) (as_feed (append_loop cr n cb i vs st))"
proof (induction vs arbitrary: i st)
  case Nil
  then show ?case by (simp add: no_less_def)
next
  case (Cons v vs)
  show ?case
  proof (cases "as_thrown st")
    case True
    with Cons.prems show ?thesis by (simp add: no_less_def)
  next
    case False
    have a: "no_less (as_feed st) (as_feed (append_step cr n cb i v st))"
      by (rule append_step_no_less [OF Cons.prems])
    then have "opened (as_feed (append_step cr n cb i v st))" by (simp add: no_less_def)
    from Cons.IH [OF this, of "i + 1"] a False show ?thesis
      by (auto intro: no_less_trans)
  qed
qed

lemma async_done_no_less:
  "opened (as_feed st) \<Longrightarrow> no_less (as_feed st) (as_feed (async_done cr n cb k st))"
proof (induction k arbitrary: st)
  case 0
  then show ?case by (simp add: no_less_def)
next
  case (Suc k)
  have a: "no_less (as_feed st) (as_feed (append_done cr n cb st))"
    by (rule append_done_no_less [OF Suc.prems])
  then have "opened (as_feed (append_done cr n cb st))" by (simp add: no_less_def)
  from Suc.IH [OF this] a show ?case by (auto intro: no_less_trans)
qed

lemma append_feed_no_less:
  assumes "opened self"
  shows "no_less self (snd (append_feed cr self batch cb))"
proof -
  define st0 where "st0 = \<lparr>as_feed = self,
     as_pending = int (if live self then 2 * length batch else length batch), as_offset = 0,
     as_outstanding = 0, as_thrown = False, as_events = []\<rparr>"
  define st where "st = append_loop cr (length batch) cb 0 batch st0"
  have o: "opened (as_feed st0)" using assms by (simp add: st0_def)
  have a: "no_less self (as_feed st)"
    using append_loop_no_less [OF o, of cr "length batch" cb 0 batch] by (simp add: st_def st0_def)
  then have "opened (as_feed st)" by (simp add: no_less_def)
  from async_done_no_less [OF this, of cr "length batch" cb "as_outstanding st"] a
  have b: "no_less self (as_feed (async_done cr (length batch) cb (as_outstanding st) st))"
    by (auto intro: no_less_trans)
  show ?thesis
  proof (cases "\<not> writable self \<or> (if live self then 2 * length batch else length batch) = 0")
    case True
    then show ?thesis using assms by (auto simp: append_feed_def Let_def no_less_def)
  next
    case False
    then have "snd (append_feed cr self batch cb)
       = as_feed (async_done cr (length batch) cb (as_outstanding st) st)"
      using assms unfolding st_def st0_def by (simp add: append_feed_def Let_def)
    with b show ?thesis by simp
  qed
qed

text \<open>
  The span that a put checks against the signature or the key, with the roots there:
  \<open>verifiedBy\<close> and \<open>roots\<close> of \<open>_verifyRootsAndWrite\<close> when \<open>verify\<close> passes its
  checks; \<open>None\<close> when the put ends before that, by an error or at a trusted node.
\<close>

definition put_span :: "crypto \<Rightarrow> 'v feed \<Rightarrow> nat \<Rightarrow> 'v \<Rightarrow> feed_proof \<Rightarrow> (nat \<times> node list) option" where
  "put_span cr self i v pf =
     (case load_nodes self i pf of
        Inl e \<Rightarrow> None
      | Inr (missingNodes, trustedNode) \<Rightarrow>
          (case climb_of cr i (Some (encode (codec_of self) v)) pf missingNodes trustedNode of
             Anchored visited \<Rightarrow> None
           | Unanchored tp remoteNodes visited \<Rightarrow>
               let r = fst (gather_roots self tp remoteNodes visited)
               in if roots_error r = None \<and> roots_accepted cr self (roots_nodes r) (signature pf)
                  then Some (verifiedBy_of tp remoteNodes, roots_nodes r) else None))"

lemma write_feed_lengths:
  assumes "opened self"
  shows "length_feed (snd (write_feed cr self i buf ns sig cb)) = length_feed self \<and>
         byteLength (snd (write_feed cr self i buf ns sig cb)) = byteLength self"
  using write_feed_cases [OF assms, of cr i buf ns sig cb] by auto

lemma verify_roots_lengths:
  assumes "opened self"
  shows "length_feed (snd (verify_roots cr self i buf vb rts sig ns cb)) =
           (if roots_accepted cr self rts sig then max (length_feed self) (vb div 2)
            else length_feed self) \<and>
         byteLength (snd (verify_roots cr self i buf vb rts sig ns cb)) =
           (if roots_accepted cr self rts sig \<and> length_feed self < vb div 2
            then foldl addSize 0 rts else byteLength self)"
proof (cases "roots_accepted cr self rts sig")
  case False
  from verify_roots_rejected [OF this, of i buf vb ns cb] False show ?thesis by auto
next
  case True
  have o: "opened (roots_applied self vb rts sig)" using assms by simp
  from write_feed_lengths [OF o, of cr i buf ns "map_option (\<lambda>sg. (vb div 2 - 1, sg)) sig" cb] True
  show ?thesis
    by (simp add: verify_roots_accepted [OF True] roots_applied_def)
qed

lemma put_lengths:
  assumes "opened self"
  shows "length_feed (snd (put cr self i v pf cb)) =
           (case put_span cr self i v pf of
              None \<Rightarrow> length_feed self
            | Some (vb, rts) \<Rightarrow> max (length_feed self) (vb div 2)) \<and>
         byteLength (snd (put cr self i v pf cb)) =
           (case put_span cr self i v pf of
              None \<Rightarrow> byteLength self
            | Some (vb, rts) \<Rightarrow>
                if length_feed self < vb div 2 then foldl addSize 0 rts else byteLength self)"
proof (cases "load_nodes self i pf")
  case (Inl e)
  with assms show ?thesis by (simp add: put_def putBuffer_def put_span_def)
next
  case (Inr p)
  obtain ln tn where p: "p = (ln, tn)" by (cases p)
  define d where "d = encode (codec_of self) v"
  have pe: "put cr self i v pf cb = verifyAndWrite cr self i (Some d) pf ln tn cb"
    using assms Inr p by (simp add: put_def putBuffer_def d_def)
  show ?thesis
  proof (cases "climb_of cr i (Some d) pf ln tn")
    case (Anchored vis)
    then have "put cr self i v pf cb = write_feed cr self i (Some d) vis None cb"
      by (simp add: pe verifyAndWrite_def)
    moreover have "put_span cr self i v pf = None"
      using Inr p Anchored by (simp add: put_span_def d_def)
    ultimately show ?thesis using write_feed_lengths [OF assms, of cr i "Some d" vis None cb]
      by simp
  next
    case (Unanchored tp rem vis)
    define r where "r = fst (gather_roots self tp rem vis)"
    have ve: "put cr self i v pf cb = verifyRootsAndWrite cr self i (Some d) tp rem (signature pf) vis cb"
      using Unanchored by (simp add: pe verifyAndWrite_def)
    have se: "put_span cr self i v pf =
        (if roots_error r = None \<and> roots_accepted cr self (roots_nodes r) (signature pf)
         then Some (verifiedBy_of tp rem, roots_nodes r) else None)"
      using Inr p Unanchored by (simp add: put_span_def d_def r_def Let_def)
    show ?thesis
    proof (cases "roots_error r")
      case (Some e)
      then show ?thesis by (simp add: ve se verifyRootsAndWrite_def Let_def r_def)
    next
      case None
      then have "put cr self i v pf cb = verify_roots cr self i (Some d) (verifiedBy_of tp rem)
          (roots_nodes r) (signature pf) (snd (snd (gather_roots self tp rem vis))) cb"
        by (simp add: ve verifyRootsAndWrite_def Let_def r_def)
      with verify_roots_lengths [OF assms, of cr i "Some d" "verifiedBy_of tp rem" "roots_nodes r"
          "signature pf" "snd (snd (gather_roots self tp rem vis))" cb] None
      show ?thesis by (simp add: se)
    qed
  qed
qed

lemma finalize_lengths:
  "length_feed (snd (finalize cr self cb)) = length_feed self \<and>
   byteLength (snd (finalize cr self cb)) = byteLength self"
  by (simp add: finalize_def Let_def)

lemma download_lengths:
  "length_feed (snd (download self rng cbo)) = length_feed self \<and>
   byteLength (snd (download self rng cbo)) = byteLength self"
  by (simp add: download_def Let_def)

lemma undownload_lengths:
  "length_feed (snd (undownload self rng)) = length_feed self \<and>
   byteLength (snd (undownload self rng)) = byteLength self"
  by (simp add: undownload_def split: range.splits)

lemma get_lengths:
  assumes "opened self"
  shows "length_feed (snd (get cr self i wait cb)) = length_feed self \<and>
   byteLength (snd (get cr self i wait cb)) = byteLength self"
  using get_waiting [OF assms, of cr i wait cb] by auto

lemma seek_lengths:
  assumes "opened self"
  shows "length_feed (snd (seek cr self bytes opts cb)) = length_feed self \<and>
   byteLength (snd (seek cr self bytes opts cb)) = byteLength self"
  using seek_waiting [OF assms, of cr bytes opts cb] by auto

lemma flush_lengths:
  assumes "opened self"
  shows "length_feed (snd (flush cr self cb)) = length_feed self \<and>
   byteLength (snd (flush cr self cb)) = byteLength self"
  using assms by (simp add: flush_def append_feed_def)

lemma append_feed_lengths:
  assumes "opened self" "writable self" "merkle_gen self \<noteq> None"
    "live self \<longrightarrow> secretKey self \<noteq> None" "\<not> early_done self batch"
  shows "length_feed (snd (append_feed cr self batch cb)) = length_feed self + length batch \<and>
         byteLength (snd (append_feed cr self batch cb)) = byteLength self + encoded_size self batch"
proof (cases "batch = []")
  case True
  with assms(1,2) show ?thesis by (simp add: append_feed_def)
next
  case False
  have o: "opened (appended cr self batch)" using assms(1) by (simp add: appended_def)
  from sync_lengths [OF o, of cr cb] show ?thesis
    by (simp add: append_feed_normal [OF assms(1-4) False assms(5)] appended_def)
qed

text \<open>
  A reader of the toy key that has put a first block of ten bytes, and a proof for a
  second block that is signed with the key but belongs to another tree, in which the
  first block has two bytes. And a signed proof that extends the feed of two blocks by
  a third.
\<close>

definition reader_feed :: "buffer feed" where
  "reader_feed =
     snd (open_feed toy_crypto (Feed toy_crypto empty_storage (Some ''K'') default_options))"

definition first_put :: "buffer feed" where
  "first_put = snd (put toy_crypto reader_feed 0 ''aaaaaaaaaa''
      \<lparr>nodes = [], signature = Some (sign toy_crypto
         (hash_tree toy_crypto [Node 0 (hash_data toy_crypto ''aaaaaaaaaa'') 10]) ''K'')\<rparr> 1)"

definition fork_proof :: feed_proof where
  "fork_proof = \<lparr>nodes = [Node 0 ''x'' 2],
     signature = Some (sign toy_crypto (hash_tree toy_crypto
        [Node 1 (hash_parent toy_crypto (Node 0 ''x'' 2) (Node 2 (hash_data toy_crypto ''b'') 1)) 3])
        ''K'')\<rparr>"

definition signed_proof :: feed_proof where
  "signed_proof = \<lparr>nodes = [Node 1 ''PLhelloLworld'' 10],
     signature = Some (sign toy_crypto (hash_tree toy_crypto
        [Node 1 ''PLhelloLworld'' 10, Node 4 (hash_data toy_crypto ''!'') 1]) ''K'')\<rparr>"

text \<open>
  Claim C6, amended. On an opened feed no operation decreases \<open>length\<close>, and none but a
  put that extends the length decreases \<open>byteLength\<close>: get, seek, download, undownload,
  finalize and flush leave both as they are; an append never decreases either, and on a
  writable feed it adds the batch size to \<open>length\<close> and the total encoded byte count to
  \<open>byteLength\<close> (the batch of one value on a non-live indexing feed is left aside); a put
  changes them only when \<open>verify\<close> accepts the roots and \<open>verifiedBy / 2\<close> exceeds the
  length, and then sets \<open>length\<close> to \<open>verifiedBy / 2\<close> and \<open>byteLength\<close> to the sum of the
  sizes of the verified roots.
\<close>

theorem lengths_monotone:
  assumes "opened self"
  shows
    "length_feed self \<le> length_feed (snd (append_feed cr self batch cb)) \<and>
     byteLength self \<le> byteLength (snd (append_feed cr self batch cb)) \<and>
     (writable self \<and> merkle_gen self \<noteq> None \<and> (live self \<longrightarrow> secretKey self \<noteq> None) \<and>
      \<not> early_done self batch \<longrightarrow>
        length_feed (snd (append_feed cr self batch cb)) = length_feed self + length batch \<and>
        byteLength (snd (append_feed cr self batch cb)) = byteLength self + encoded_size self batch) \<and>
     length_feed self \<le> length_feed (snd (put cr self i v pf cb)) \<and>
     length_feed (snd (put cr self i v pf cb)) =
       (case put_span cr self i v pf of
          None \<Rightarrow> length_feed self
        | Some (vb, rts) \<Rightarrow> max (length_feed self) (vb div 2)) \<and>
     byteLength (snd (put cr self i v pf cb)) =
       (case put_span cr self i v pf of
          None \<Rightarrow> byteLength self
        | Some (vb, rts) \<Rightarrow>
            if length_feed self < vb div 2 then foldl addSize 0 rts else byteLength self) \<and>
     length_feed (snd (get cr self i wait cb)) = length_feed self \<and>
     byteLength (snd (get cr self i wait cb)) = byteLength self \<and>
     length_feed (snd (seek cr self bytes opts cb)) = length_feed self \<and>
     byteLength (snd (seek cr self bytes opts cb)) = byteLength self \<and>
     length_feed (snd (download self rng cbo)) = length_feed self \<and>
     byteLength (snd (download self rng cbo)) = byteLength self \<and>
     length_feed (snd (undownload self rng)) = length_feed self \<and>
     byteLength (snd (undownload self rng)) = byteLength self \<and>
     length_feed (snd (finalize cr self cb)) = length_feed self \<and>
     byteLength (snd (finalize cr self cb)) = byteLength self \<and>
     length_feed (snd (flush cr self cb)) = length_feed self \<and>
     byteLength (snd (flush cr self cb)) = byteLength self"
proof -
  have a: "length_feed self \<le> length_feed (snd (append_feed cr self batch cb)) \<and>
     byteLength self \<le> byteLength (snd (append_feed cr self batch cb))"
    using append_feed_no_less [OF assms, of cr batch cb] by (simp add: no_less_def)
  have b: "writable self \<and> merkle_gen self \<noteq> None \<and> (live self \<longrightarrow> secretKey self \<noteq> None) \<and>
      \<not> early_done self batch \<longrightarrow>
        length_feed (snd (append_feed cr self batch cb)) = length_feed self + length batch \<and>
        byteLength (snd (append_feed cr self batch cb)) = byteLength self + encoded_size self batch"
    using append_feed_lengths [OF assms, of batch cr cb] by blast
  note p = put_lengths [OF assms, of cr i v pf cb]
  have pm: "length_feed self \<le> length_feed (snd (put cr self i v pf cb))"
    using p by (cases "put_span cr self i v pf") auto
  show ?thesis
    using a b p pm get_lengths [OF assms, of cr i wait cb] seek_lengths [OF assms, of cr bytes opts cb]
      download_lengths [of self rng cbo] undownload_lengths [of self rng]
      finalize_lengths [of cr self cb] flush_lengths [OF assms, of cr cb]
    by (simp only:) 
qed

theorem lengths_monotone_witness:
  "opened two_blocks \<and> writable two_blocks \<and> merkle_gen two_blocks \<noteq> None \<and>
   secretKey two_blocks \<noteq> None \<and> \<not> early_done two_blocks [''!''] \<and>
   length_feed two_blocks = 2 \<and> byteLength two_blocks = 10 \<and>
   length_feed (snd (append_feed toy_crypto two_blocks [''!''] 3)) = 3 \<and>
   byteLength (snd (append_feed toy_crypto two_blocks [''!''] 3)) = 11 \<and>
   put_span toy_crypto two_blocks 2 ''!'' signed_proof =
     Some (6, [Node 1 ''PLhelloLworld'' 10, Node 4 ''L!'' 1]) \<and>
   length_feed (snd (put toy_crypto two_blocks 2 ''!'' signed_proof 3)) = 3 \<and>
   byteLength (snd (put toy_crypto two_blocks 2 ''!'' signed_proof 3)) = 11 \<and>
   length_feed (snd (finalize toy_crypto two_blocks 3)) = 2"
proof -
  have h: "opened two_blocks" "writable two_blocks" "merkle_gen two_blocks \<noteq> None"
    "secretKey two_blocks \<noteq> None" "\<not> early_done two_blocks [''!'']"
    "length_feed two_blocks = 2" "byteLength two_blocks = 10"
    "encoded_size two_blocks [''!''] = 1"
    "put_span toy_crypto two_blocks 2 ''!'' signed_proof =
       Some (6, [Node 1 ''PLhelloLworld'' 10, Node 4 ''L!'' 1])"
    by code_simp+
  from lengths_monotone [OF h(1), of toy_crypto "[''!'']" 3 2 "''!''" signed_proof] h
  show ?thesis by (simp add: addSize_def)
qed

theorem byteLength_counterexample:
  "opened first_put \<and> byteLength first_put = 10 \<and>
   fst (put toy_crypto first_put 1 ''b'' fork_proof 2) = [(2, Done)] \<and>
   byteLength (snd (put toy_crypto first_put 1 ''b'' fork_proof 2)) = 3 \<and>
   \<not> byteLength first_put \<le> byteLength (snd (put toy_crypto first_put 1 ''b'' fork_proof 2))"
  by code_simp


section \<open>Signatures written by append\<close>

text \<open>
  The generator after the leaves of a list of buffers, and what \<open>_append\<close> relies on:
  the generator holds the full roots at its block count, and they are the stored nodes
  (\<open>_roots\<close> would read them back).
\<close>

fun gen_after :: "crypto \<Rightarrow> generator \<Rightarrow> buffer list \<Rightarrow> generator" where
  "gen_after cr g [] = g"
| "gen_after cr g (buf # bufs) = gen_after cr (snd (merkle_next cr g buf)) bufs"

definition gen_ok :: "storage \<Rightarrow> generator \<Rightarrow> bool" where
  "gen_ok stg g = (map index (roots g) = fullRoots (2 * blocks g) \<and>
                   roots_of stg (blocks g) = Inr (roots g))"

definition in_step :: "'v feed \<Rightarrow> bool" where
  "in_step self =
     (case merkle_gen self of
        None \<Rightarrow> False
      | Some g \<Rightarrow> blocks g = length_feed self \<and> gen_ok (storage_of self) g)"

lemma collect_Inr_iff: "collect rs = Inr xs \<longleftrightarrow> rs = map Inr xs"
proof (induction rs arbitrary: xs)
  case Nil
  then show ?case by auto
next
  case (Cons r rs)
  show ?case
  proof (cases "collect rs")
    case (Inl e)
    with Cons.IH show ?thesis by (cases xs) auto
  next
    case (Inr ys)
    with Cons.IH [of ys] have rs: "rs = map Inr ys" by simp
    show ?thesis
    proof (cases r)
      case (Inl e)
      with Inr show ?thesis by (cases xs) auto
    next
      case r: (Inr x)
      with Inr rs show ?thesis by (cases xs) (auto simp: inj_map_eq_map [OF inj_Inr])
    qed
  qed
qed

lemma node_eta [simp]: "Node (index x) (hash x) (size_node x) = x"
  by (simp add: Node_def)

lemma roots_of_iff:
  "roots_of stg n = Inr rs \<longleftrightarrow>
     map index rs = fullRoots (2 * n) \<and> (\<forall>x \<in> set rs. getNode stg (index x) = Inr x)"
proof
  assume "roots_of stg n = Inr rs"
  then have m: "map (getNode stg) (fullRoots (2 * n)) = map Inr rs"
    by (simp add: roots_of_def collect_Inr_iff)
  then have len: "length (fullRoots (2 * n)) = length rs" by (metis length_map)
  have nth: "getNode stg (fullRoots (2 * n) ! k) = Inr (rs ! k)" if "k < length rs" for k
    using m that len by (metis nth_map)
  have "map index rs = fullRoots (2 * n)"
    using len nth by (auto simp: list_eq_iff_nth_eq dest: getNode_index)
  moreover have "\<forall>x \<in> set rs. getNode stg (index x) = Inr x"
  proof
    fix x assume "x \<in> set rs"
    then obtain k where k: "k < length rs" "rs ! k = x" by (auto simp: in_set_conv_nth)
    from nth [OF k(1)] getNode_index [OF nth [OF k(1)]] k(2) show "getNode stg (index x) = Inr x"
      by simp
  qed
  ultimately show "map index rs = fullRoots (2 * n) \<and> (\<forall>x \<in> set rs. getNode stg (index x) = Inr x)"
    by simp
next
  assume a: "map index rs = fullRoots (2 * n) \<and> (\<forall>x \<in> set rs. getNode stg (index x) = Inr x)"
  then have e: "fullRoots (2 * n) = map index rs" by simp
  from a have "\<forall>x \<in> set rs. getNode stg (index x) = Inr x" by (rule conjunct2)
  then have "map (getNode stg) (map index rs) = map Inr rs" by simp
  then show "roots_of stg n = Inr rs"
    unfolding roots_of_def collect_Inr_iff e .
qed

lemma tree_store_simps [simp]:
  "tree_store (putSignature k sg stg) = tree_store stg"
  "tree_store (data_write ofs buf stg) = tree_store stg"
  "tree_store (putBitfield pg stg) = tree_store stg"
  by (simp_all add: putSignature_def data_write_def putBitfield_def)

lemma signatures_store_simps [simp]:
  "signatures_store (putNode i nd stg) = signatures_store stg"
  "signatures_store (data_write ofs buf stg) = signatures_store stg"
  "signatures_store (putBitfield pg stg) = signatures_store stg"
  "signatures_store (putSignature k sg stg) = (signatures_store stg)(k \<mapsto> sg)"
  by (simp_all add: putSignature_def data_write_def putBitfield_def putNode_def)

lemma signatures_store_put_nodes [simp]:
  "signatures_store (put_nodes ns stg) = signatures_store stg"
  unfolding put_nodes_def by (induction ns arbitrary: stg) simp_all

lemma getNode_cong: "tree_store stg = tree_store stg' \<Longrightarrow> getNode stg = getNode stg'"
  by (auto simp: getNode_def)

lemma getNode_putNode:
  "getNode (putNode (index nd) nd stg) i = (if i = index nd then Inr nd else getNode stg i)"
  by (simp add: getNode_def putNode_def)

lemma getNode_put_nodes_other:
  "\<forall>x \<in> set ns. index x \<noteq> i \<Longrightarrow> getNode (put_nodes ns stg) i = getNode stg i"
  unfolding put_nodes_def by (induction ns arbitrary: stg) (simp_all add: getNode_putNode)

lemma put_nodes_snoc: "put_nodes (ns @ [nd]) stg = putNode (index nd) nd (put_nodes ns stg)"
  by (simp add: put_nodes_def)

lemma getNode_put_nodes_last:
  "ns \<noteq> [] \<Longrightarrow> getNode (put_nodes ns stg) (index (last ns)) = Inr (last ns)"
  by (cases ns rule: rev_cases) (simp_all add: put_nodes_snoc getNode_putNode)

lemma index_new_leaf [simp]: "index (new_leaf cr g buf) = 2 * blocks g"
  by (simp add: new_leaf_def)

lemma gen_ok_next:
  assumes "gen_ok stg g" "tree_store stg' = tree_store stg"
  shows "gen_ok (put_nodes (fst (merkle_next cr g buf)) stg') (snd (merkle_next cr g buf))"
proof -
  define leaf where "leaf = new_leaf cr g buf"
  from assms(1) have ix: "map index (roots g) = fullRoots (2 * (blocks g * 2 ^ 0))"
    and st: "\<forall>x \<in> set (roots g). getNode stg (index x) = Inr x"
    by (simp_all add: gen_ok_def roots_of_iff)
  have il: "index leaf = index_of 0 (blocks g)" by (simp add: leaf_def index_of_0)
  from merge_roots_full [OF ix il, of cr "[leaf]"] obtain pre suf new where
    m: "roots g = pre @ suf"
       "merge_roots cr (roots g @ [leaf]) [leaf] = (pre @ [last (leaf # new)], [leaf] @ new)"
       "map index (pre @ [last (leaf # new)]) = fullRoots (2 * ((blocks g + 1) * 2 ^ 0))"
       "\<forall>y \<in> set pre. \<forall>x \<in> set (leaf # new). index y < index x"
    by blast
  have f: "fst (merkle_next cr g buf) = leaf # new"
    and s: "snd (merkle_next cr g buf) = \<lparr>roots = pre @ [last (leaf # new)], blocks = Suc (blocks g)\<rparr>"
    using m(2) by (simp_all add: merkle_next_eq leaf_def [symmetric])
  have g: "getNode stg' = getNode stg" by (rule getNode_cong [OF assms(2)])
  have top: "getNode (put_nodes (leaf # new) stg') (index (last (leaf # new))) = Inr (last (leaf # new))"
    by (rule getNode_put_nodes_last) simp
  have old: "getNode (put_nodes (leaf # new) stg') (index y) = Inr y" if "y \<in> set pre" for y
  proof -
    from m(4) that have "\<forall>x \<in> set (leaf # new). index x \<noteq> index y" by fastforce
    from getNode_put_nodes_other [OF this, of stg'] st that show ?thesis by (simp add: g m(1))
  qed
  show ?thesis
    unfolding gen_ok_def f s using m(3) top old by (simp add: roots_of_iff)
qed

lemma gen_ok_cong: "tree_store stg' = tree_store stg \<Longrightarrow> gen_ok stg' g = gen_ok stg g"
  by (simp add: gen_ok_def roots_of_def getNode_cong [of stg' stg])

lemma blocks_merkle_next [simp]: "blocks (snd (merkle_next cr g buf)) = Suc (blocks g)"
  by (simp add: merkle_next_eq)

lemma blocks_gen_after [simp]: "blocks (gen_after cr g bufs) = blocks g + length bufs"
  by (induction bufs arbitrary: g) simp_all

lemma append_item_gen:
  assumes "merkle_gen self = Some g" "gen_ok (storage_of self) g"
  shows "merkle_gen (append_item cr ofs i v self) = Some (snd (merkle_next cr g (encode (codec_of self) v)))"
    and "gen_ok (storage_of (append_item cr ofs i v self))
           (snd (merkle_next cr g (encode (codec_of self) v)))"
proof -
  show "merkle_gen (append_item cr ofs i v self) = Some (snd (merkle_next cr g (encode (codec_of self) v)))"
    using assms(1) by (simp add: append_item_def Let_def)
  define stg2 where "stg2 = (if live self
       then putSignature (length_feed self + i)
              (sign cr (hash_tree cr (roots (snd (merkle_next cr g (encode (codec_of self) v)))))
                 (the (secretKey self)))
              (if indexing self then storage_of self
               else data_write (byteLength self + ofs) (encode (codec_of self) v) (storage_of self))
       else (if indexing self then storage_of self
             else data_write (byteLength self + ofs) (encode (codec_of self) v) (storage_of self)))"
  have t: "tree_store stg2 = tree_store (storage_of self)" by (simp add: stg2_def)
  have "storage_of (append_item cr ofs i v self)
      = put_nodes (fst (merkle_next cr g (encode (codec_of self) v))) stg2"
    using assms(1) by (simp add: append_item_def Let_def stg2_def)
  with gen_ok_next [OF assms(2) t, of cr "encode (codec_of self) v"]
  show "gen_ok (storage_of (append_item cr ofs i v self))
           (snd (merkle_next cr g (encode (codec_of self) v)))" by simp
qed

lemma append_item_signatures:
  assumes "merkle_gen self = Some g" "live self"
  shows "signatures_store (storage_of (append_item cr ofs i v self)) =
     (signatures_store (storage_of self))(length_feed self + i \<mapsto>
        sign cr (hash_tree cr (roots (snd (merkle_next cr g (encode (codec_of self) v)))))
          (the (secretKey self)))"
  using assms by (simp add: append_item_def Let_def)

lemma append_items_gen:
  assumes "merkle_gen self = Some g" "gen_ok (storage_of self) g" "live self"
  shows "merkle_gen (append_items cr ofs i vs self)
           = Some (gen_after cr g (map (encode (codec_of self)) vs)) \<and>
         gen_ok (storage_of (append_items cr ofs i vs self))
           (gen_after cr g (map (encode (codec_of self)) vs)) \<and>
         (\<forall>k < length vs.
            signatures_store (storage_of (append_items cr ofs i vs self)) (length_feed self + i + k)
              = Some (sign cr (hash_tree cr
                   (roots (gen_after cr g (map (encode (codec_of self)) (take (Suc k) vs)))))
                   (the (secretKey self)))) \<and>
         (\<forall>j < length_feed self + i.
            signatures_store (storage_of (append_items cr ofs i vs self)) j
              = signatures_store (storage_of self) j)"
  using assms
proof (induction vs arbitrary: ofs i self g)
  case Nil
  then show ?case by simp
next
  case (Cons v vs)
  define self1 where "self1 = append_item cr ofs i v self"
  define g1 where "g1 = snd (merkle_next cr g (encode (codec_of self) v))"
  have m1: "merkle_gen self1 = Some g1" and ok1: "gen_ok (storage_of self1) g1"
    using append_item_gen [OF Cons.prems(1,2), of cr ofs i v] by (simp_all add: self1_def g1_def)
  have l1: "live self1" using Cons.prems(3) by (simp add: self1_def)
  have f1: "codec_of self1 = codec_of self" "length_feed self1 = length_feed self"
    "secretKey self1 = secretKey self" by (simp_all add: self1_def)
  have s1: "signatures_store (storage_of self1) =
     (signatures_store (storage_of self))(length_feed self + i \<mapsto>
        sign cr (hash_tree cr (roots g1)) (the (secretKey self)))"
    using append_item_signatures [OF Cons.prems(1,3), of cr ofs i v] by (simp add: self1_def g1_def)
  note ih = Cons.IH [OF m1 ok1 l1, of "ofs + length (encode (codec_of self) v)" "i + 1",
      unfolded f1]
  have e: "append_items cr ofs i (v # vs) self
      = append_items cr (ofs + length (encode (codec_of self) v)) (i + 1) vs self1"
    by (simp add: self1_def)
  have a: "merkle_gen (append_items cr ofs i (v # vs) self)
           = Some (gen_after cr g (map (encode (codec_of self)) (v # vs)))"
    using ih unfolding e by (simp add: g1_def)
  have b: "gen_ok (storage_of (append_items cr ofs i (v # vs) self))
           (gen_after cr g (map (encode (codec_of self)) (v # vs)))"
    using ih unfolding e by (simp add: g1_def)
  have d: "\<forall>j < length_feed self + i.
            signatures_store (storage_of (append_items cr ofs i (v # vs) self)) j
              = signatures_store (storage_of self) j"
    using ih unfolding e by (simp add: s1)
  have c: "\<forall>k < length (v # vs).
            signatures_store (storage_of (append_items cr ofs i (v # vs) self)) (length_feed self + i + k)
              = Some (sign cr (hash_tree cr
                   (roots (gen_after cr g (map (encode (codec_of self)) (take (Suc k) (v # vs))))))
                   (the (secretKey self)))"
  proof (intro allI impI)
    fix k assume k: "k < length (v # vs)"
    show "signatures_store (storage_of (append_items cr ofs i (v # vs) self)) (length_feed self + i + k)
              = Some (sign cr (hash_tree cr
                   (roots (gen_after cr g (map (encode (codec_of self)) (take (Suc k) (v # vs))))))
                   (the (secretKey self)))"
    proof (cases k)
      case 0
      from ih have "signatures_store (storage_of (append_items cr ofs i (v # vs) self)) (length_feed self + i)
          = signatures_store (storage_of self1) (length_feed self + i)"
        unfolding e by simp
      then show ?thesis unfolding 0 by (simp add: s1 g1_def)
    next
      case (Suc k')
      with k have "k' < length vs" by simp
      with ih have "signatures_store (storage_of (append_items cr ofs i (v # vs) self))
            (length_feed self + (i + 1) + k')
          = Some (sign cr (hash_tree cr
                   (roots (gen_after cr g1 (map (encode (codec_of self)) (take (Suc k') vs)))))
                   (the (secretKey self)))"
        unfolding e by simp
      then show ?thesis unfolding Suc by (simp add: g1_def)
    qed
  qed
  from a b c d show ?case by blast
qed

text \<open>
  A valid signature at leaf index \<open>length - 1\<close> over the hash of the stored full roots
  at \<open>2 * length\<close>.
\<close>

definition head_signed :: "crypto \<Rightarrow> 'v feed \<Rightarrow> bool" where
  "head_signed cr self =
     (case key self of
        None \<Rightarrow> False
      | Some pk \<Rightarrow>
          (case roots_of (storage_of self) (length_feed self) of
             Inl e \<Rightarrow> False
           | Inr rts \<Rightarrow>
               (case getSignature (storage_of self) (length_feed self - 1) of
                  Inl e \<Rightarrow> False
                | Inr sg \<Rightarrow> verify cr (hash_tree cr rts) sg pk)))"

lemma append_feed_live:
  assumes "opened self" "live self" "writable self" "secretKey self = Some sk"
    "merkle_gen self = Some g" "in_step self" "batch \<noteq> []"
  shows "\<exists>w. snd (append_feed cr self batch cb) =
     (appended cr self batch)\<lparr>storage_of :=
        putBitfield \<lparr>data_bits = bitfield (appended cr self batch),
                     tree_bits = tree (appended cr self batch)\<rparr>
          (storage_of (appended cr self batch)), waiting := w\<rparr>"
proof -
  have ne: "\<not> early_done self batch" using assms(2) by (simp add: early_done_def)
  have o: "opened (appended cr self batch)" using assms(1) by (simp add: appended_def)
  from sync_result [OF o, of cr cb] show ?thesis
    using append_feed_normal [of self batch cr cb] assms ne by auto
qed

lemma appended_fields [simp]:
  "length_feed (appended cr self batch) = length_feed self + length batch"
  "storage_of (appended cr self batch) = storage_of (append_items cr 0 0 batch self)"
  "merkle_gen (appended cr self batch) = merkle_gen (append_items cr 0 0 batch self)"
  by (simp_all add: appended_def)

lemma getSignature_cong:
  "signatures_store stg' = signatures_store stg \<Longrightarrow> getSignature stg' = getSignature stg"
  by (auto simp: getSignature_def)

lemma append_signs:
  assumes "opened self" "live self" "writable self" "secretKey self = Some sk"
    "merkle_gen self = Some g" "in_step self" "batch \<noteq> []"
  shows "merkle_gen (snd (append_feed cr self batch cb))
           = Some (gen_after cr g (map (encode (codec_of self)) batch))"
    and "length_feed (snd (append_feed cr self batch cb)) = length_feed self + length batch"
    and "gen_ok (storage_of (snd (append_feed cr self batch cb)))
           (gen_after cr g (map (encode (codec_of self)) batch))"
    and "\<forall>k < length batch.
           getSignature (storage_of (snd (append_feed cr self batch cb))) (length_feed self + k)
             = Inr (sign cr (hash_tree cr
                 (roots (gen_after cr g (map (encode (codec_of self)) (take (Suc k) batch))))) sk)"
proof -
  from append_feed_live [OF assms, of cr cb] obtain w where
    e: "snd (append_feed cr self batch cb) =
     (appended cr self batch)\<lparr>storage_of :=
        putBitfield \<lparr>data_bits = bitfield (appended cr self batch),
                     tree_bits = tree (appended cr self batch)\<rparr>
          (storage_of (appended cr self batch)), waiting := w\<rparr>" by blast
  from assms(5,6) have ok: "gen_ok (storage_of self) g" by (simp add: in_step_def)
  define r where "r = append_items cr 0 0 batch self"
  from append_items_gen [OF assms(5) ok assms(2), of cr 0 0 batch]
  have a1: "merkle_gen r = Some (gen_after cr g (map (encode (codec_of self)) batch))"
    and a2: "gen_ok (storage_of r) (gen_after cr g (map (encode (codec_of self)) batch))"
    and a3: "\<forall>k < length batch.
            signatures_store (storage_of r) (length_feed self + 0 + k)
              = Some (sign cr (hash_tree cr
                   (roots (gen_after cr g (map (encode (codec_of self)) (take (Suc k) batch)))))
                   (the (secretKey self)))"
    unfolding r_def by blast+
  have f: "merkle_gen (snd (append_feed cr self batch cb)) = merkle_gen r"
    "length_feed (snd (append_feed cr self batch cb)) = length_feed self + length batch"
    "tree_store (storage_of (snd (append_feed cr self batch cb))) = tree_store (storage_of r)"
    "signatures_store (storage_of (snd (append_feed cr self batch cb))) = signatures_store (storage_of r)"
    by (simp_all add: e r_def)
  show "merkle_gen (snd (append_feed cr self batch cb))
           = Some (gen_after cr g (map (encode (codec_of self)) batch))"
    by (simp only: f a1)
  show "length_feed (snd (append_feed cr self batch cb)) = length_feed self + length batch"
    by (rule f(2))
  show "gen_ok (storage_of (snd (append_feed cr self batch cb)))
           (gen_after cr g (map (encode (codec_of self)) batch))"
    using a2 by (simp only: gen_ok_cong [OF f(3)])
  show "\<forall>k < length batch.
           getSignature (storage_of (snd (append_feed cr self batch cb))) (length_feed self + k)
             = Inr (sign cr (hash_tree cr
                 (roots (gen_after cr g (map (encode (codec_of self)) (take (Suc k) batch))))) sk)"
  proof (intro allI impI)
    fix k assume "k < length batch"
    with a3 have "signatures_store (storage_of r) (length_feed self + k)
              = Some (sign cr (hash_tree cr
                   (roots (gen_after cr g (map (encode (codec_of self)) (take (Suc k) batch)))))
                   sk)" by (simp add: assms(4))
    then show "getSignature (storage_of (snd (append_feed cr self batch cb))) (length_feed self + k)
             = Inr (sign cr (hash_tree cr
                 (roots (gen_after cr g (map (encode (codec_of self)) (take (Suc k) batch))))) sk)"
      by (simp add: getSignature_def f(4))
  qed
qed

lemma gen_after_indices:
  "map index (roots g) = fullRoots (2 * blocks g) \<Longrightarrow>
   map index (roots (gen_after cr g bufs)) = fullRoots (2 * (blocks g + length bufs))"
proof (induction bufs arbitrary: g)
  case Nil
  then show ?case by simp
next
  case (Cons buf bufs)
  define leaf where "leaf = new_leaf cr g buf"
  from Cons.prems have ix: "map index (roots g) = fullRoots (2 * (blocks g * 2 ^ 0))" by simp
  have il: "index leaf = index_of 0 (blocks g)" by (simp add: leaf_def index_of_0)
  from merge_roots_full [OF ix il, of cr "[leaf]"]
  have "map index (roots (snd (merkle_next cr g buf))) = fullRoots (2 * Suc (blocks g))"
    by (auto simp: merkle_next_eq leaf_def [symmetric])
  then have "map index (roots (snd (merkle_next cr g buf)))
      = fullRoots (2 * blocks (snd (merkle_next cr g buf)))" by simp
  from Cons.IH [OF this] show ?case by simp
qed


lemma append_feed_key:
  assumes "opened self" "live self" "writable self" "secretKey self = Some sk"
    "merkle_gen self = Some g" "in_step self" "batch \<noteq> []"
  shows "key (snd (append_feed cr self batch cb)) = key self"
proof -
  from append_feed_live [OF assms, of cr cb] obtain w where
    e: "snd (append_feed cr self batch cb) =
     (appended cr self batch)\<lparr>storage_of :=
        putBitfield \<lparr>data_bits = bitfield (appended cr self batch),
                     tree_bits = tree (appended cr self batch)\<rparr>
          (storage_of (appended cr self batch)), waiting := w\<rparr>" by blast
  have "key (append_items cr ofs i vs x) = key x" for ofs i vs and x :: "'a feed"
    by (induction vs arbitrary: ofs i x) simp_all
  then show ?thesis by (simp add: e appended_def)
qed

lemma fullRoots_last:
  assumes "0 < n"
  shows "fullRoots (2 * n) \<noteq> [] \<and> rightSpan (last (fullRoots (2 * n))) = 2 * n - 2"
proof -
  from index_of_exists [of "n - 1"] obtain d ofs where i: "n - 1 = index_of d ofs" by blast
  define p :: nat where "p = 2 ^ d"
  have "0 < p" by (simp add: p_def)
  then have "0 < (1 + 2 * ofs) * p" by simp
  with i assms have "n = (1 + 2 * ofs) * p" unfolding index_of_def p_def [symmetric] by linarith
  then have n: "n = (2 * ofs) * 2 ^ d + 2 ^ d" by (simp add: p_def algebra_simps)
  have "rightSpan (index_of d (2 * ofs)) = 2 * n - 2"
    by (simp add: rightSpan_index_of n algebra_simps)
  with fullRoots_append [of ofs d] show ?thesis by (simp add: n)
qed

lemma blocks_merkle:
  assumes "map index rs = fullRoots (2 * n)"
  shows "blocks (merkle rs) = n"
proof (cases "n = 0")
  case True
  with assms show ?thesis by (simp add: merkle_def)
next
  case False
  then have n: "0 < n" by simp
  from fullRoots_last [OF n] assms have ne: "rs \<noteq> []" by auto
  then have "index (last rs) = last (fullRoots (2 * n))"
    using assms by (metis last_map)
  with fullRoots_last [OF n] ne n show ?thesis by (simp add: merkle_def)
qed

lemma open_roots_in_step:
  assumes "open_roots self = (None, self')"
  shows "in_step self'"
proof (cases "roots_of (storage_of self) (length_feed self)")
  case (Inl e)
  with assms show ?thesis by (simp add: open_roots_def)
next
  case (Inr rs)
  then have ix: "map index rs = fullRoots (2 * length_feed self)" by (simp add: roots_of_iff)
  from assms Inr have e: "self' = self\<lparr>merkle_gen := Some (merkle rs),
      byteLength := foldl addSize 0 rs, opened := True\<rparr>"
    by (simp add: open_roots_def)
  have r: "roots (merkle rs) = rs" by (simp add: merkle_def)
  show ?thesis
    using Inr ix by (simp add: e in_step_def gen_ok_def blocks_merkle [OF ix] r)
qed

lemma open_in_step:
  assumes "open_feed cr self = (None, self')"
  shows "in_step self'"
  using assms open_roots_in_step
  by (auto simp: open_feed_def Let_def split: if_splits)



text \<open>
  The writer of the two blocks after it has accepted a put of a third block with a signed
  proof: the length is 3, the generator still holds the roots of two blocks.
\<close>

definition put_writer :: "buffer feed" where
  "put_writer = snd (put toy_crypto two_blocks 2 ''!'' signed_proof 3)"



section \<open>Reading back what was appended\<close>

lemma rightSpan_ge: "i \<le> rightSpan i"
proof -
  have "index_of (depth i) (offset i) \<le> rightSpan (index_of (depth i) (offset i))"
    unfolding rightSpan_index_of
  proof -
    define p :: nat where "p = 2 ^ depth i"
    have "0 < p" by (simp add: p_def)
    then have "(1 + 2 * offset i) * p - 1 \<le> (offset i + 1) * (2 * p) - 2"
      by (cases p) (simp_all add: algebra_simps)
    then show "index_of (depth i) (offset i) \<le> (offset i + 1) * 2 ^ (depth i + 1) - 2"
      by (simp add: index_of_def p_def)
  qed
  then show ?thesis by simp
qed

lemma fullRoots_rightSpan: "x \<in> set (fullRoots (2 * n)) \<Longrightarrow> rightSpan x + 2 \<le> 2 * n"
proof (induction n arbitrary: x)
  case 0
  then show ?case by simp
next
  case (Suc n)
  define rs where "rs = map (\<lambda>i. Node i [] 0) (fullRoots (2 * n))"
  define leaf where "leaf = Node (2 * n) [] 0"
  have ix: "map index rs = fullRoots (2 * (n * 2 ^ 0))" by (simp add: rs_def comp_def)
  have il: "index leaf = index_of 0 n" by (simp add: leaf_def index_of_0)
  from merge_roots_full [OF ix il, of undefined "[]"] obtain pre suf new where
    m: "rs = pre @ suf"
       "map index (pre @ [last (leaf # new)]) = fullRoots (2 * ((n + 1) * 2 ^ 0))"
       "\<forall>x \<in> set new. rightSpan (index x) = rightSpan (index leaf)"
    by blast
  have rl: "rightSpan (index leaf) = 2 * n"
    using rightSpan_index_of [of 0 n] by (simp add: il)
  have "last (leaf # new) \<in> set (leaf # new)" by (rule last_in_set) simp
  with m(3) rl have top: "rightSpan (index (last (leaf # new))) = 2 * n" by auto
  from m(2) have "fullRoots (2 * Suc n) = map index pre @ [index (last (leaf # new))]"
    by simp
  with Suc.prems have "x \<in> set (map index pre @ [index (last (leaf # new))])"
    by (simp only:)
  then have "x \<in> index ` set pre \<or> x = index (last (leaf # new))" by auto
  then show ?case
  proof
    assume "x \<in> index ` set pre"
    then have "x \<in> set (map index rs)" by (auto simp: m(1))
    then have "x \<in> set (fullRoots (2 * n))" using ix by simp
    from Suc.IH [OF this] show ?thesis by simp
  next
    assume "x = index (last (leaf # new))"
    with top show ?thesis by simp
  qed
qed

lemma read_write_at: "read_at (write_at file ofs buf) ofs (length buf) = Inr buf"
  by (simp add: read_at_def write_at_def Let_def)

lemma read_at_write_above:
  assumes "read_at file ofs len = Inr buf" "ofs + len \<le> ofs'"
  shows "read_at (write_at file ofs' buf') ofs len = Inr buf"
proof -
  from assms(1) have l: "ofs + len \<le> length file" and b: "buf = take len (drop ofs file)"
    by (auto simp: read_at_def split: if_splits)
  have "take len (drop ofs (take ofs' (file @ replicate (ofs' - length file) (CHR 0x00)) @ rest))
      = take len (drop ofs file)" for rest
    using l assms(2) by (simp add: take_drop min_def)
  with l assms(2) show ?thesis
    by (simp add: read_at_def write_at_def Let_def b)
qed

lemma tree_store_putNode:
  "tree_store (putNode i nd stg) x = (if x = i then Some (hash nd, size_node nd) else tree_store stg x)"
  by (simp add: putNode_def)

lemma tree_store_put_nodes_other:
  "\<forall>y \<in> set ns. index y \<noteq> x \<Longrightarrow> tree_store (put_nodes ns stg) x = tree_store stg x"
  unfolding put_nodes_def by (induction ns arbitrary: stg) (simp_all add: tree_store_putNode)

lemma data_store_simps [simp]:
  "data_store (putNode i nd stg) = data_store stg"
  "data_store (putSignature k sg stg) = data_store stg"
  "data_store (putBitfield pg stg) = data_store stg"
  "data_store (data_write ofs buf stg) = write_at (data_store stg) ofs buf"
  by (simp_all add: putSignature_def data_write_def putBitfield_def putNode_def)

lemma data_store_put_nodes [simp]: "data_store (put_nodes ns stg) = data_store stg"
  unfolding put_nodes_def by (induction ns arbitrary: stg) simp_all

lemma getNode_eq: "tree_store stg' i = tree_store stg i \<Longrightarrow> getNode stg' i = getNode stg i"
  by (simp add: getNode_def)

text \<open>
  Block \<open>i\<close> is stored at byte \<open>ofs\<close>: the storage computes this offset and the
  block's size, and the data file holds the bytes there.
\<close>

definition block_at :: "storage \<Rightarrow> nat \<Rightarrow> nat \<Rightarrow> buffer \<Rightarrow> bool" where
  "block_at stg i ofs buf =
     (dataOffset stg i [] = Inr (ofs, length buf) \<and>
      read_at (data_store stg) ofs (length buf) = Inr buf)"

lemma block_at_getData: "block_at stg i ofs buf \<Longrightarrow> getData stg i = Inr buf"
  by (simp add: block_at_def getData_def)

lemma lookupNode_nocache [simp]: "lookupNode stg [] = getNode stg"
  by (rule ext) (simp add: lookupNode_def findNode_def)

lemma dataOffset_nocache:
  "dataOffset stg i [] =
     (case roots_of stg i of
        Inl e \<Rightarrow> Inl e
      | Inr rs \<Rightarrow>
          (case getNode stg (2 * i) of
             Inl e \<Rightarrow> Inl e
           | Inr leaf \<Rightarrow> Inr (foldl addSize 0 rs, size_node leaf)))"
  by (simp add: dataOffset_def roots_of_def split: sum.splits)

lemma rightSpan_leaf [simp]: "rightSpan (2 * i) = 2 * i"
  using rightSpan_index_of [of 0 i] by (simp add: index_of_0)

lemma dataOffset_cong:
  assumes "\<forall>x. rightSpan x \<le> 2 * i \<longrightarrow> tree_store stg' x = tree_store stg x"
  shows "dataOffset stg' i [] = dataOffset stg i []"
proof -
  have "getNode stg' x = getNode stg x" if "x \<in> set (fullRoots (2 * i))" for x
  proof -
    from fullRoots_rightSpan [OF that] have "rightSpan x \<le> 2 * i" by simp
    with assms have "tree_store stg' x = tree_store stg x" by blast
    then show ?thesis by (rule getNode_eq)
  qed
  then have r: "roots_of stg' i = roots_of stg i" by (simp add: roots_of_def cong: map_cong)
  from assms have "tree_store stg' (2 * i) = tree_store stg (2 * i)" by simp
  then have l: "getNode stg' (2 * i) = getNode stg (2 * i)" by (rule getNode_eq)
  show ?thesis unfolding dataOffset_nocache r l ..
qed

lemma block_at_preserved:
  assumes "block_at stg i ofs buf"
    "\<forall>x. rightSpan x \<le> 2 * i \<longrightarrow> tree_store stg' x = tree_store stg x"
    "data_store stg' = data_store stg \<or>
     (\<exists>ofs' buf'. data_store stg' = write_at (data_store stg) ofs' buf' \<and> ofs + length buf \<le> ofs')"
  shows "block_at stg' i ofs buf"
proof -
  from assms(1) have d: "dataOffset stg i [] = Inr (ofs, length buf)"
    and r: "read_at (data_store stg) ofs (length buf) = Inr buf"
    by (simp_all add: block_at_def)
  from assms(3) have "read_at (data_store stg') ofs (length buf) = Inr buf"
  proof
    assume "data_store stg' = data_store stg"
    with r show ?thesis by simp
  next
    assume "\<exists>ofs' buf'. data_store stg' = write_at (data_store stg) ofs' buf' \<and> ofs + length buf \<le> ofs'"
    then obtain ofs' buf' where "data_store stg' = write_at (data_store stg) ofs' buf'"
      "ofs + length buf \<le> ofs'" by blast
    with read_at_write_above [OF r, of ofs' buf'] show ?thesis by simp
  qed
  with d dataOffset_cong [OF assms(2)] show ?thesis by (simp add: block_at_def)
qed

text \<open>What one round of the loop of \<open>_append\<close> does to the storage.\<close>

lemma append_item_storage:
  assumes "merkle_gen self = Some g" "gen_ok (storage_of self) g"
  shows "\<forall>x. rightSpan x < 2 * blocks g \<longrightarrow>
           tree_store (storage_of (append_item cr ofs i v self)) x = tree_store (storage_of self) x"
    and "data_store (storage_of (append_item cr ofs i v self)) =
           (if indexing self then data_store (storage_of self)
            else write_at (data_store (storage_of self)) (byteLength self + ofs)
                   (encode (codec_of self) v))"
    and "getNode (storage_of (append_item cr ofs i v self)) (2 * blocks g)
           = Inr (new_leaf cr g (encode (codec_of self) v))"
    and "foldl addSize 0 (roots (snd (merkle_next cr g (encode (codec_of self) v))))
           = foldl addSize 0 (roots g) + length (encode (codec_of self) v)"
proof -
  define buf where "buf = encode (codec_of self) v"
  define leaf where "leaf = new_leaf cr g buf"
  from assms(2) have ix: "map index (roots g) = fullRoots (2 * (blocks g * 2 ^ 0))"
    by (simp add: gen_ok_def)
  have il: "index leaf = index_of 0 (blocks g)" by (simp add: leaf_def index_of_0)
  from merge_roots_full [OF ix il, of cr "[leaf]"] obtain pre suf new where
    m: "roots g = pre @ suf"
       "merge_roots cr (roots g @ [leaf]) [leaf] = (pre @ [last (leaf # new)], [leaf] @ new)"
       "\<forall>x \<in> set new. rightSpan (index x) = rightSpan (index leaf)"
       "size_node (last (leaf # new)) = foldl addSize 0 suf + size_node leaf"
       "\<forall>x \<in> set new. odd (index x)"
    by blast
  have f: "fst (merkle_next cr g buf) = leaf # new"
    and s: "snd (merkle_next cr g buf) = \<lparr>roots = pre @ [last (leaf # new)], blocks = Suc (blocks g)\<rparr>"
    using m(2) by (simp_all add: merkle_next_eq leaf_def [symmetric])
  define stg2 where "stg2 = (if live self
       then putSignature (length_feed self + i)
              (sign cr (hash_tree cr (roots (snd (merkle_next cr g buf)))) (the (secretKey self)))
              (if indexing self then storage_of self
               else data_write (byteLength self + ofs) buf (storage_of self))
       else (if indexing self then storage_of self
             else data_write (byteLength self + ofs) buf (storage_of self)))"
  have t2: "tree_store stg2 = tree_store (storage_of self)" by (simp add: stg2_def)
  have d2: "data_store stg2 = (if indexing self then data_store (storage_of self)
            else write_at (data_store (storage_of self)) (byteLength self + ofs) buf)"
    by (simp add: stg2_def)
  have e: "storage_of (append_item cr ofs i v self) = put_nodes (leaf # new) stg2"
    using assms(1) f by (simp add: append_item_def Let_def stg2_def buf_def [symmetric])
  have rs: "\<forall>y \<in> set (leaf # new). rightSpan (index y) = 2 * blocks g"
    using m(3) by (simp add: leaf_def)
  show "\<forall>x. rightSpan x < 2 * blocks g \<longrightarrow>
           tree_store (storage_of (append_item cr ofs i v self)) x = tree_store (storage_of self) x"
  proof (intro allI impI)
    fix x assume "rightSpan x < 2 * blocks g"
    with rs have "\<forall>y \<in> set (leaf # new). index y \<noteq> x" by auto
    from tree_store_put_nodes_other [OF this, of stg2] show
      "tree_store (storage_of (append_item cr ofs i v self)) x = tree_store (storage_of self) x"
      by (simp add: e t2)
  qed
  show "data_store (storage_of (append_item cr ofs i v self)) =
           (if indexing self then data_store (storage_of self)
            else write_at (data_store (storage_of self)) (byteLength self + ofs)
                   (encode (codec_of self) v))"
    by (simp add: e d2 buf_def)
  have "\<forall>y \<in> set new. index y \<noteq> 2 * blocks g" using m(5) by auto
  from getNode_put_nodes_other [OF this, of "putNode (index leaf) leaf stg2"]
  have "getNode (put_nodes new (putNode (index leaf) leaf stg2)) (2 * blocks g)
      = getNode (putNode (index leaf) leaf stg2) (index leaf)" by (simp add: leaf_def)
  also have "\<dots> = Inr leaf" unfolding getNode_putNode by simp
  finally have "getNode (put_nodes (leaf # new) stg2) (2 * blocks g) = Inr leaf"
    by (simp add: put_nodes_def)
  then show "getNode (storage_of (append_item cr ofs i v self)) (2 * blocks g)
           = Inr (new_leaf cr g (encode (codec_of self) v))"
    by (simp add: e leaf_def buf_def)
  have s1: "foldl addSize 0 (pre @ [last (leaf # new)])
      = foldl addSize 0 pre + size_node (last (leaf # new))"
    by (simp add: addSize_def)
  have s2: "foldl addSize 0 (roots g) = foldl addSize 0 pre + foldl addSize 0 suf"
    unfolding m(1) by (rule foldl_addSize_append)
  have "foldl addSize 0 (pre @ [last (leaf # new)]) = foldl addSize 0 (roots g) + size_node leaf"
    unfolding s1 s2 m(4) by simp
  then show "foldl addSize 0 (roots (snd (merkle_next cr g (encode (codec_of self) v))))
           = foldl addSize 0 (roots g) + length (encode (codec_of self) v)"
    by (simp add: s [unfolded buf_def] leaf_def new_leaf_def buf_def)
qed

lemma append_item_keeps_block:
  assumes "merkle_gen self = Some g" "gen_ok (storage_of self) g" "t < blocks g"
    "block_at (storage_of self) t o' b" "o' + length b \<le> byteLength self + ofs"
  shows "block_at (storage_of (append_item cr ofs i v self)) t o' b"
proof -
  note st = append_item_storage [OF assms(1,2)]
  have a: "\<forall>x. rightSpan x \<le> 2 * t \<longrightarrow>
      tree_store (storage_of (append_item cr ofs i v self)) x = tree_store (storage_of self) x"
    using st(1) assms(3) by auto
  have d: "data_store (storage_of (append_item cr ofs i v self)) = data_store (storage_of self) \<or>
     (\<exists>ofs' buf'. data_store (storage_of (append_item cr ofs i v self))
          = write_at (data_store (storage_of self)) ofs' buf' \<and> o' + length b \<le> ofs')"
    using st(2) assms(5) by (cases "indexing self") auto
  show ?thesis by (rule block_at_preserved [OF assms(4) a d])
qed

lemma append_items_keep_block:
  assumes "merkle_gen self = Some g" "gen_ok (storage_of self) g" "t < blocks g"
    "block_at (storage_of self) t o' b" "o' + length b \<le> byteLength self + ofs"
  shows "block_at (storage_of (append_items cr ofs i vs self)) t o' b"
  using assms
proof (induction vs arbitrary: ofs i self g)
  case Nil
  then show ?case by simp
next
  case (Cons v vs)
  define self1 where "self1 = append_item cr ofs i v self"
  define g1 where "g1 = snd (merkle_next cr g (encode (codec_of self) v))"
  have m1: "merkle_gen self1 = Some g1" and ok1: "gen_ok (storage_of self1) g1"
    using append_item_gen [OF Cons.prems(1,2), of cr ofs i v] by (simp_all add: self1_def g1_def)
  have t1: "t < blocks g1" using Cons.prems(3) by (simp add: g1_def)
  have b1: "block_at (storage_of self1) t o' b"
    unfolding self1_def by (rule append_item_keeps_block [OF Cons.prems])
  have l1: "o' + length b \<le> byteLength self1 + (ofs + length (encode (codec_of self) v))"
    using Cons.prems(5) by (simp add: self1_def)
  have e: "append_items cr ofs i (v # vs) self
      = append_items cr (ofs + length (encode (codec_of self) v)) (i + 1) vs self1"
    by (simp add: self1_def)
  show ?case unfolding e by (rule Cons.IH [OF m1 ok1 t1 b1 l1])
qed

lemma append_item_new_block:
  assumes "merkle_gen self = Some g" "gen_ok (storage_of self) g" "\<not> indexing self"
    "byteLength self + ofs = foldl addSize 0 (roots g)"
  shows "block_at (storage_of (append_item cr ofs i v self)) (blocks g) (byteLength self + ofs)
           (encode (codec_of self) v)"
proof -
  note st = append_item_storage [OF assms(1,2)]
  define stg' where "stg' = storage_of (append_item cr ofs i v self)"
  from assms(2) have r: "roots_of (storage_of self) (blocks g) = Inr (roots g)"
    by (simp add: gen_ok_def)
  have "getNode stg' x = getNode (storage_of self) x" if "x \<in> set (fullRoots (2 * blocks g))" for x
  proof -
    from fullRoots_rightSpan [OF that] have "rightSpan x < 2 * blocks g" by simp
    with st(1) have "tree_store stg' x = tree_store (storage_of self) x" by (simp add: stg'_def)
    then show ?thesis by (rule getNode_eq)
  qed
  then have "roots_of stg' (blocks g) = roots_of (storage_of self) (blocks g)"
    by (simp add: roots_of_def cong: map_cong)
  with r have r': "roots_of stg' (blocks g) = Inr (roots g)" by simp
  have l: "getNode stg' (2 * blocks g) = Inr (new_leaf cr g (encode (codec_of self) v))"
    using st(3) by (simp add: stg'_def)
  have d: "dataOffset stg' (blocks g) [] = Inr (byteLength self + ofs, length (encode (codec_of self) v))"
    unfolding dataOffset_nocache r' l by (simp add: assms(4) new_leaf_def)
  have "data_store stg' = write_at (data_store (storage_of self)) (byteLength self + ofs)
      (encode (codec_of self) v)"
    using st(2) assms(3) by (simp add: stg'_def)
  then have "read_at (data_store stg') (byteLength self + ofs) (length (encode (codec_of self) v))
      = Inr (encode (codec_of self) v)" by (simp add: read_write_at)
  with d show ?thesis unfolding stg'_def [symmetric] by (simp add: block_at_def)
qed

lemma append_items_blocks:
  assumes "merkle_gen self = Some g" "gen_ok (storage_of self) g" "\<not> indexing self"
    "byteLength self + ofs = foldl addSize 0 (roots g)" "k < length vs"
  shows "block_at (storage_of (append_items cr ofs i vs self)) (blocks g + k)
           (byteLength self + ofs + encoded_size self (take k vs)) (encode (codec_of self) (vs ! k))"
  using assms
proof (induction vs arbitrary: ofs i self g k)
  case Nil
  then show ?case by simp
next
  case (Cons v vs)
  define buf where "buf = encode (codec_of self) v"
  define self1 where "self1 = append_item cr ofs i v self"
  define g1 where "g1 = snd (merkle_next cr g buf)"
  have m1: "merkle_gen self1 = Some g1" and ok1: "gen_ok (storage_of self1) g1"
    using append_item_gen [OF Cons.prems(1,2), of cr ofs i v]
    by (simp_all add: self1_def g1_def buf_def)
  have f1: "codec_of self1 = codec_of self" "byteLength self1 = byteLength self"
    "indexing self1 = indexing self" by (simp_all add: self1_def)
  have sz: "byteLength self1 + (ofs + length buf) = foldl addSize 0 (roots g1)"
    using append_item_storage(4) [OF Cons.prems(1,2)] Cons.prems(4)
    by (simp add: f1 g1_def buf_def)
  have e: "append_items cr ofs i (v # vs) self = append_items cr (ofs + length buf) (i + 1) vs self1"
    by (simp add: self1_def buf_def)
  show ?case
  proof (cases k)
    case 0
    have b: "block_at (storage_of self1) (blocks g) (byteLength self + ofs) buf"
      unfolding self1_def buf_def by (rule append_item_new_block [OF Cons.prems(1-4)])
    have t: "blocks g < blocks g1" by (simp add: g1_def)
    have l: "byteLength self + ofs + length buf \<le> byteLength self1 + (ofs + length buf)"
      by (simp add: f1)
    from append_items_keep_block [OF m1 ok1 t b l]
    show ?thesis unfolding e 0 by (simp add: buf_def)
  next
    case (Suc k')
    with Cons.prems(5) have k': "k' < length vs" by simp
    have ni: "\<not> indexing self1" using Cons.prems(3) by (simp add: f1)
    from Cons.IH [OF m1 ok1 ni sz k']
    have "block_at (storage_of (append_items cr (ofs + length buf) (i + 1) vs self1))
        (blocks g1 + k') (byteLength self1 + (ofs + length buf) + encoded_size self1 (take k' vs))
        (encode (codec_of self1) (vs ! k'))" .
    moreover have "encoded_size self1 (take k' vs) = encoded_size self (take k' vs)"
      by (simp add: encoded_size_def f1)
    moreover have "blocks g1 + k' = blocks g + Suc k'" by (simp add: g1_def)
    ultimately show ?thesis unfolding e Suc
      by (simp add: f1 buf_def add.assoc)
  qed
qed

text \<open>
  The byte length is in step too: it is the sum of the sizes of the generator's roots,
  as \<open>_open\<close> sets it.
\<close>

definition data_in_step :: "'v feed \<Rightarrow> bool" where
  "data_in_step self =
     (in_step self \<and>
      (case merkle_gen self of
         None \<Rightarrow> False
       | Some g \<Rightarrow> byteLength self = foldl addSize 0 (roots g)))"

text \<open>A feed created with the \<open>indexing\<close> option on the empty store, and opened.\<close>

definition indexing_feed :: "buffer feed" where
  "indexing_feed = snd (open_feed toy_crypto
     (Feed toy_crypto empty_storage None (default_options\<lparr>opt_indexing := True\<rparr>)))"

lemma open_data_in_step:
  assumes "open_feed cr self = (None, self')"
  shows "data_in_step self'"
proof -
  have "data_in_step s'" if "open_roots s = (None, s')" for s s' :: "'a feed"
  proof (cases "roots_of (storage_of s) (length_feed s)")
    case (Inl e)
    with that show ?thesis by (simp add: open_roots_def)
  next
    case (Inr rs)
    with that have "s' = s\<lparr>merkle_gen := Some (merkle rs),
      byteLength := foldl addSize 0 rs, opened := True\<rparr>" by (simp add: open_roots_def)
    with open_roots_in_step [OF that] show ?thesis by (simp add: data_in_step_def merkle_def)
  qed
  moreover from assms have "\<exists>s. open_roots s = (None, self')"
    unfolding open_feed_def Let_def by (simp split: if_splits) blast+
  ultimately show ?thesis by blast
qed

lemma bf_get_set_bits:
  "bf_get (bitfield (set_bits n self)) i \<longleftrightarrow>
     (length_feed self \<le> i \<and> i < length_feed self + n) \<or> bf_get (bitfield self) i"
proof (induction n arbitrary: self)
  case 0
  then show ?case by auto
next
  case (Suc n)
  have "bf_get (bitfield (set_bits (Suc n) self)) i \<longleftrightarrow>
     (Suc (length_feed self) \<le> i \<and> i < Suc (length_feed self) + n) \<or>
     (i = length_feed self \<or> bf_get (bitfield self) i)"
    by (simp add: Suc.IH)
  then show ?case by (simp only:) arith
qed

lemma append_get:
  assumes "opened self" "writable self" "\<not> indexing self" "data_in_step self"
    "live self \<longrightarrow> secretKey self \<noteq> None" "k < length batch"
  shows "fst (get cr (snd (append_feed cr self batch cb)) (length_feed self + k) wait cb')
           = [(cb', Value (decode (codec_of self) (encode (codec_of self) (batch ! k))))]"
proof -
  from assms(4) obtain g where g: "merkle_gen self = Some g" "blocks g = length_feed self"
    "gen_ok (storage_of self) g" "byteLength self = foldl addSize 0 (roots g)"
    by (auto simp: data_in_step_def in_step_def split: option.splits)
  from assms(6) have ne: "batch \<noteq> []" by auto
  have ned: "\<not> early_done self batch" using assms(3) by (simp add: early_done_def)
  have mg: "merkle_gen self \<noteq> None" using g(1) by simp
  define a where "a = appended cr self batch"
  have o: "opened a" using assms(1) by (simp add: a_def appended_def)
  from sync_result [OF o, of cr cb] obtain w evs where
    "sync cr a cb = ((cb, Done) # evs,
        a\<lparr>storage_of := putBitfield \<lparr>data_bits = bitfield a, tree_bits = tree a\<rparr> (storage_of a),
          waiting := w\<rparr>)" by blast
  then have e: "snd (append_feed cr self batch cb) =
      a\<lparr>storage_of := putBitfield \<lparr>data_bits = bitfield a, tree_bits = tree a\<rparr> (storage_of a),
        waiting := w\<rparr>"
    by (simp add: append_feed_normal [OF assms(1,2) mg assms(5) ne ned] a_def)
  have z: "byteLength self + 0 = foldl addSize 0 (roots g)" using g(4) by simp
  from append_items_blocks [OF g(1,3) assms(3) z assms(6), of cr 0]
  have b: "block_at (storage_of a) (length_feed self + k)
      (byteLength self + 0 + encoded_size self (take k batch)) (encode (codec_of self) (batch ! k))"
    by (simp add: a_def g(2))
  have "block_at (putBitfield \<lparr>data_bits = bitfield a, tree_bits = tree a\<rparr> (storage_of a))
      (length_feed self + k) (byteLength self + 0 + encoded_size self (take k batch))
      (encode (codec_of self) (batch ! k))"
    by (rule block_at_preserved [OF b]) simp_all
  then have d: "getData (putBitfield \<lparr>data_bits = bitfield a, tree_bits = tree a\<rparr> (storage_of a))
      (length_feed self + k) = Inr (encode (codec_of self) (batch ! k))"
    by (rule block_at_getData)
  have bit: "bf_get (bitfield a) (length_feed self + k)"
    using assms(6) by (simp add: a_def appended_def bf_get_set_bits)
  have c: "codec_of a = codec_of self"
  proof -
    have "codec_of (append_items cr ofs i vs x) = codec_of x" for ofs i vs and x :: "'a feed"
      by (induction vs arbitrary: ofs i x) simp_all
    then show ?thesis by (simp add: a_def appended_def)
  qed
  define s' where "s' = a\<lparr>storage_of := putBitfield \<lparr>data_bits = bitfield a, tree_bits = tree a\<rparr> (storage_of a),
        waiting := w\<rparr>"
  have f: "opened s'" "bitfield s' = bitfield a" "codec_of s' = codec_of self"
    "storage_of s' = putBitfield \<lparr>data_bits = bitfield a, tree_bits = tree a\<rparr> (storage_of a)"
    using o c by (simp_all add: s'_def)
  have r: "ready cr s' = (None, s')" using f(1) by (simp add: ready_def)
  have "get cr s' (length_feed self + k) wait cb'
     = ([(cb', Value (decode (codec_of self) (encode (codec_of self) (batch ! k))))], s')"
    unfolding get_def r using bit by (simp add: f d)
  then show ?thesis unfolding e s'_def [symmetric] by simp
qed


lemma append_items_gen_ok:
  assumes "merkle_gen self = Some g" "gen_ok (storage_of self) g"
  shows "merkle_gen (append_items cr ofs i vs self)
           = Some (gen_after cr g (map (encode (codec_of self)) vs)) \<and>
         gen_ok (storage_of (append_items cr ofs i vs self))
           (gen_after cr g (map (encode (codec_of self)) vs)) \<and>
         foldl addSize 0 (roots (gen_after cr g (map (encode (codec_of self)) vs)))
           = foldl addSize 0 (roots g) + encoded_size self vs"
  using assms
proof (induction vs arbitrary: ofs i self g)
  case Nil
  then show ?case by simp
next
  case (Cons v vs)
  define self1 where "self1 = append_item cr ofs i v self"
  define g1 where "g1 = snd (merkle_next cr g (encode (codec_of self) v))"
  have m1: "merkle_gen self1 = Some g1" and ok1: "gen_ok (storage_of self1) g1"
    using append_item_gen [OF Cons.prems(1,2), of cr ofs i v] by (simp_all add: self1_def g1_def)
  have f1: "codec_of self1 = codec_of self" by (simp add: self1_def)
  have sz: "foldl addSize 0 (roots g1) = foldl addSize 0 (roots g) + length (encode (codec_of self) v)"
    unfolding g1_def by (rule append_item_storage(4) [OF Cons.prems(1,2)])
  have es: "encoded_size self1 vs = encoded_size self vs" by (simp add: encoded_size_def f1)
  note ih = Cons.IH [OF m1 ok1, of "ofs + length (encode (codec_of self) v)" "i + 1",
      unfolded f1 es]
  have e: "append_items cr ofs i (v # vs) self
      = append_items cr (ofs + length (encode (codec_of self) v)) (i + 1) vs self1"
    by (simp add: self1_def)
  have g: "gen_after cr g (map (encode (codec_of self)) (v # vs))
      = gen_after cr g1 (map (encode (codec_of self)) vs)" by (simp add: g1_def)
  from ih sz show ?case unfolding e g by simp
qed

lemma append_keeps_data_in_step:
  assumes "opened self" "writable self" "data_in_step self"
    "live self \<longrightarrow> secretKey self \<noteq> None" "\<not> early_done self batch"
  shows "data_in_step (snd (append_feed cr self batch cb))"
proof (cases "batch = []")
  case True
  with assms(1,2,3) show ?thesis by (simp add: append_feed_def)
next
  case False
  from assms(3) obtain g where g: "merkle_gen self = Some g" "blocks g = length_feed self"
    "gen_ok (storage_of self) g" "byteLength self = foldl addSize 0 (roots g)"
    by (auto simp: data_in_step_def in_step_def split: option.splits)
  have mg: "merkle_gen self \<noteq> None" using g(1) by simp
  define a where "a = appended cr self batch"
  define g' where "g' = gen_after cr g (map (encode (codec_of self)) batch)"
  have o: "opened a" using assms(1) by (simp add: a_def appended_def)
  from sync_result [OF o, of cr cb] obtain w evs where
    "sync cr a cb = ((cb, Done) # evs,
        a\<lparr>storage_of := putBitfield \<lparr>data_bits = bitfield a, tree_bits = tree a\<rparr> (storage_of a),
          waiting := w\<rparr>)" by blast
  then have e: "snd (append_feed cr self batch cb) =
      a\<lparr>storage_of := putBitfield \<lparr>data_bits = bitfield a, tree_bits = tree a\<rparr> (storage_of a),
        waiting := w\<rparr>"
    by (simp add: append_feed_normal [OF assms(1,2) mg assms(4) False assms(5)] a_def)
  from append_items_gen_ok [OF g(1,3), of cr 0 0 batch]
  have a1: "merkle_gen (append_items cr 0 0 batch self) = Some g'"
    and a2: "gen_ok (storage_of (append_items cr 0 0 batch self)) g'"
    and a3: "foldl addSize 0 (roots g') = foldl addSize 0 (roots g) + encoded_size self batch"
    unfolding g'_def by blast+
  have f: "merkle_gen (snd (append_feed cr self batch cb)) = Some g'"
    "length_feed (snd (append_feed cr self batch cb)) = length_feed self + length batch"
    "byteLength (snd (append_feed cr self batch cb)) = byteLength self + encoded_size self batch"
    "tree_store (storage_of (snd (append_feed cr self batch cb)))
       = tree_store (storage_of (append_items cr 0 0 batch self))"
    using a1 by (simp_all add: e a_def appended_def)
  have ok: "gen_ok (storage_of (snd (append_feed cr self batch cb))) g'"
    using a2 by (simp only: gen_ok_cong [OF f(4)])
  have bl: "blocks g' = length_feed self + length batch" by (simp add: g'_def g(2))
  show ?thesis
    unfolding data_in_step_def in_step_def f(1) using ok bl a3 by (simp add: f(2,3) g(4))
qed





section \<open>Reopening after an interrupted append\<close>

text \<open>
  The store as an append leaves it when the process stops after the loop of \<open>_append\<close>
  has issued its writes (the data, the signatures and the tree nodes) and before the last
  \<open>done\<close> flips the bits and \<open>_sync\<close> writes the bitfield.
\<close>

definition interrupted_append :: "crypto \<Rightarrow> 'v feed \<Rightarrow> 'v list \<Rightarrow> callback \<Rightarrow> storage" where
  "interrupted_append cr self batch cb =
     storage_of (as_feed (append_loop cr (length batch) cb 0 batch
       \<lparr>as_feed = self, as_pending = int (if live self then 2 * length batch else length batch),
        as_offset = 0, as_outstanding = 0, as_thrown = False, as_events = []\<rparr>))"

text \<open>
  The feed's length is the one its stored tree bitfield gives: the store holds a key, the
  stored tree bits are those of the feed, and the length computed from them is the feed's.
\<close>

definition stored_in_step :: "'v feed \<Rightarrow> bool" where
  "stored_in_step self =
     (key_store (storage_of self) \<noteq> None \<and>
      tree_bits (bitfield_store (storage_of self)) = tree self \<and>
      open_length (tree self) = length_feed self)"

text \<open>
  A proof for block 0 of a feed of four blocks: the leaf of block 1, the parent of the
  blocks 2 and 3, and the signature over the root 3. And the fresh writer after this put.
\<close>

definition sparse_proof :: feed_proof where
  "sparse_proof = \<lparr>nodes = [Node 2 ''Lb'' 1, Node 5 ''PLcLd'' 2],
     signature = Some (sign toy_crypto (hash_tree toy_crypto
        [Node 3 (hash_parent toy_crypto
                   (Node 1 (hash_parent toy_crypto (Node 0 (hash_data toy_crypto ''a'') 1) (Node 2 ''Lb'' 1)) 2)
                   (Node 5 ''PLcLd'' 2)) 4]) ''K'')\<rparr>"

definition sparse_writer :: "buffer feed" where
  "sparse_writer = snd (put toy_crypto fresh_feed 0 ''a'' sparse_proof 1)"

text \<open>A store that holds a bitfield with the first leaf set, and no key.\<close>

definition keyless_store :: storage where
  "keyless_store = empty_storage\<lparr>bitfield_store := \<lparr>data_bits = [True], tree_bits = [True]\<rparr>\<rparr>"

lemma open_length_nonpos: "\<not> 0 < open_len bits \<Longrightarrow> open_length bits = 0"
  by (simp add: open_length_def)

lemma open_bits_tree [simp]: "tree (open_bits self) = tree_bits (state_bitfield self)"
  by (simp add: open_bits_def)

lemma open_bits_length:
  "length_feed self = 0 \<Longrightarrow> length_feed (open_bits self) = open_length (tree_bits (state_bitfield self))"
  by (simp add: open_bits_def open_length_nonpos)

lemma bf_get_fill0: "\<not> bf_get (map (\<lambda>_. False) bits) i"
  by (simp add: bf_get_def)

lemma open_length_fill0: "open_length (tree_bits (pages_fill0 pg)) = 0"
  using open_len_all_unset [of "tree_bits (pages_fill0 pg)"]
  by (simp add: open_length_def pages_fill0_def bf_get_fill0)

lemma state_tree_length:
  "open_length (tree_bits (state_bitfield self)) =
     (if overwrite self \<or> key_store (storage_of self) = None then 0
      else open_length (tree_bits (bitfield_store (storage_of self))))"
proof (cases "key_store (storage_of self) = None")
  case True
  from open_len_all_unset [of "tree_bits (state_bitfield self)"] state_tree_no_key [OF True]
  show ?thesis using True by (simp add: open_length_def)
next
  case False
  then show ?thesis by (auto simp: state_bitfield_def open_overwrite_def open_length_fill0)
qed

lemma open_roots_keeps:
  "length_feed (snd (open_roots self)) = length_feed self"
  "tree (snd (open_roots self)) = tree self"
  "storage_of (snd (open_roots self)) = storage_of self"
  "key (snd (open_roots self)) = key self"
  by (simp_all add: open_roots_def split: sum.splits)

lemma open_stage_tree:
  "tree (open_keys k sk self) = tree self"
  "tree (open_live state self) = tree self"
  "tree (open_keyPair cr self) = tree self"
  "tree (open_persist pg self) = tree self"
  by (simp_all add: open_keys_def open_live_def open_keyPair_def open_persist_def Let_def)

lemma open_persist_store:
  "key_store (storage_of (open_persist pg self)) =
     (if key self \<noteq> None then key self else key_store (storage_of self))"
  "bitfield_store (storage_of (open_persist pg self)) =
     (if overwrite self then pg else bitfield_store (storage_of self))"
  by (simp_all add: open_persist_def Let_def putBitfield_def)

lemma open_feed_length:
  "length_feed self = 0 \<Longrightarrow>
   length_feed (snd (open_feed cr self)) = open_length (tree_bits (state_bitfield self))"
  unfolding open_feed_def Let_def
  by (simp add: open_roots_keeps open_bits_length)

lemma open_feed_length_formula:
  "length_feed (snd (open_feed cr (Feed cr stg k opts))) =
     (if opt_overwrite opts \<or> key_store stg = None then 0
      else open_length (tree_bits (bitfield_store stg)))"
  using state_tree_length [of "Feed cr stg k opts"]
  by (simp add: open_feed_length)

lemma key_store_simps [simp]:
  "key_store (putNode i nd stg) = key_store stg"
  "key_store (putSignature j sg stg) = key_store stg"
  "key_store (putBitfield pg stg) = key_store stg"
  "key_store (data_write ofs buf stg) = key_store stg"
  by (simp_all add: putSignature_def data_write_def putBitfield_def putNode_def)

lemma bitfield_store_simps [simp]:
  "bitfield_store (putNode i nd stg) = bitfield_store stg"
  "bitfield_store (putSignature j sg stg) = bitfield_store stg"
  "bitfield_store (putBitfield pg stg) = pg"
  "bitfield_store (data_write ofs buf stg) = bitfield_store stg"
  by (simp_all add: putSignature_def data_write_def putBitfield_def putNode_def)

lemma put_nodes_pages [simp]:
  "key_store (put_nodes ns stg) = key_store stg"
  "bitfield_store (put_nodes ns stg) = bitfield_store stg"
  unfolding put_nodes_def by (induction ns arbitrary: stg) simp_all

lemma append_item_pages:
  "key_store (storage_of (append_item cr ofs i v self)) = key_store (storage_of self)"
  "bitfield_store (storage_of (append_item cr ofs i v self)) = bitfield_store (storage_of self)"
  by (simp_all add: append_item_def Let_def)

lemma append_items_pages:
  "key_store (storage_of (append_items cr ofs i vs self)) = key_store (storage_of self)"
  "bitfield_store (storage_of (append_items cr ofs i vs self)) = bitfield_store (storage_of self)"
  by (induction vs arbitrary: ofs i self; simp add: append_item_pages)+

lemma tree_climb_leaves: "even j \<Longrightarrow> bf_get (tree_climb bits i) j = bf_get bits j"
proof (induction bits i rule: tree_climb.induct)
  case (1 bits i)
  have o: "odd (parent i)" by (simp add: parent_def even_index_of)
  with 1(2) have ne: "j \<noteq> parent i" by auto
  show ?case
  proof (cases "bf_get bits (sibling i) \<and> \<not> bf_get bits (parent i)")
    case True
    with 1 ne show ?thesis by (subst tree_climb.simps) simp
  next
    case False
    then show ?thesis by (subst tree_climb.simps) auto
  qed
qed

lemma tree_set_leaves: "even j \<Longrightarrow> bf_get (tree_set bits i) j \<longleftrightarrow> j = i \<or> bf_get bits j"
  by (auto simp: tree_set_def tree_climb_leaves)

lemma set_bits_leaves:
  "even j \<Longrightarrow> bf_get (tree (set_bits n self)) j \<longleftrightarrow>
     (2 * length_feed self \<le> j \<and> j < 2 * (length_feed self + n)) \<or> bf_get (tree self) j"
proof (induction n arbitrary: self)
  case 0
  then show ?case by auto
next
  case (Suc n)
  define L where "L = length_feed self"
  define self' where "self' = self\<lparr>bitfield := bf_set (bitfield self) L,
                      tree := tree_set (tree self) (2 * L), length_feed := Suc L\<rparr>"
  have s: "set_bits (Suc n) self = set_bits n self'" by (simp add: self'_def L_def)
  from Suc.prems have e: "2 * L \<le> j \<longleftrightarrow> j = 2 * L \<or> 2 * Suc L \<le> j" by presburger
  have ih: "bf_get (tree (set_bits n self')) j \<longleftrightarrow>
      (2 * Suc L \<le> j \<and> j < 2 * (Suc L + n)) \<or> (j = 2 * L \<or> bf_get (tree self) j)"
    using Suc.IH [OF Suc.prems, of self'] tree_set_leaves [OF Suc.prems, of "tree self" "2 * L"]
    by (simp add: self'_def)
  show ?case unfolding s ih L_def [symmetric] e by auto
qed

lemma open_length_bound:
  assumes "open_length bits = n" "even j" "bf_get bits j"
  shows "j < 2 * n"
proof -
  from assms(2,3) have m: "j \<in> present_leaves bits" by (simp add: present_leaves_def)
  then have ne: "present_leaves bits \<noteq> {}" by blast
  from Max_ge [OF finite_present_leaves m] have "j \<le> Max (present_leaves bits)" .
  moreover from open_length_some_leaf [OF ne] assms(1)
  have "(Max (present_leaves bits) + 2) div 2 = n" by simp
  ultimately show ?thesis by linarith
qed

lemma open_length_eqI:
  assumes "0 < n" "bf_get bits (2 * (n - 1))" "\<And>i. even i \<Longrightarrow> 2 * (n - 1) < i \<Longrightarrow> \<not> bf_get bits i"
  shows "open_length bits = n"
proof -
  have "Max (present_leaves bits) = 2 * (n - 1)"
  proof (rule Max_eqI [OF finite_present_leaves])
    show "2 * (n - 1) \<in> present_leaves bits" using assms(2) by (simp add: present_leaves_def)
    fix y assume "y \<in> present_leaves bits"
    with assms(3) [of y] show "y \<le> 2 * (n - 1)" by (cases "2 * (n - 1) < y") (auto simp: present_leaves_def)
  qed
  moreover from assms(2) have "2 * (n - 1) \<in> present_leaves bits" by (simp add: present_leaves_def)
  then have "present_leaves bits \<noteq> {}" by blast
  ultimately show ?thesis using assms(1) by (simp add: open_length_some_leaf)
qed

lemma set_bits_open_length:
  assumes "open_length (tree self) = length_feed self"
  shows "open_length (tree (set_bits n self)) = length_feed self + n"
proof (cases n)
  case 0
  with assms show ?thesis by simp
next
  case (Suc m)
  show ?thesis
  proof (rule open_length_eqI)
    show "0 < length_feed self + n" using Suc by simp
    show "bf_get (tree (set_bits n self)) (2 * (length_feed self + n - 1))"
      using Suc by (subst set_bits_leaves) auto
    fix i :: nat assume i: "even i" "2 * (length_feed self + n - 1) < i"
    from i Suc have "2 * (length_feed self + n) \<le> i" by presburger
    moreover from open_length_bound [OF assms i(1)] this have "\<not> bf_get (tree self) i" by auto
    ultimately show "\<not> bf_get (tree (set_bits n self)) i"
      using i(1) by (subst set_bits_leaves) auto
  qed
qed

lemma set_bits_tree_cong: "tree a = tree b \<Longrightarrow> length_feed a = length_feed b \<Longrightarrow>
   tree (set_bits n a) = tree (set_bits n b)"
proof (induction n arbitrary: a b)
  case 0
  then show ?case by simp
next
  case (Suc n)
  show ?case by (simp, rule Suc.IH) (simp_all add: Suc.prems)
qed

lemma appended_tree:
  "tree (appended cr self batch) = tree (set_bits (length batch) self)"
  unfolding appended_def by (rule set_bits_tree_cong) simp_all

lemma appended_pages:
  "key_store (storage_of (appended cr self batch)) = key_store (storage_of self)"
  by (simp add: appended_def append_items_pages)

lemma append_stored_in_step:
  assumes "opened self" "writable self" "merkle_gen self \<noteq> None"
    "live self \<longrightarrow> secretKey self \<noteq> None" "\<not> early_done self batch" "stored_in_step self"
  shows "stored_in_step (snd (append_feed cr self batch cb)) \<and>
         length_feed (snd (append_feed cr self batch cb)) = length_feed self + length batch"
proof (cases "batch = []")
  case True
  with assms(1,2,6) show ?thesis by (simp add: append_feed_def ready_def)
next
  case False
  from append_feed_normal [OF assms(1-4) False assms(5)]
  have a: "append_feed cr self batch cb = sync cr (appended cr self batch) cb" .
  have o: "opened (appended cr self batch)" using assms(1) by (simp add: appended_def)
  from sync_result [OF o, of cr cb] obtain w evs where
    s: "sync cr (appended cr self batch) cb = ((cb, Done) # evs,
      (appended cr self batch)\<lparr>storage_of := putBitfield \<lparr>data_bits = bitfield (appended cr self batch),
          tree_bits = tree (appended cr self batch)\<rparr> (storage_of (appended cr self batch)),
           waiting := w\<rparr>)" by blast
  from assms(6) have i: "key_store (storage_of self) \<noteq> None" "open_length (tree self) = length_feed self"
    by (simp_all add: stored_in_step_def)
  have l: "length_feed (appended cr self batch) = length_feed self + length batch"
    by (simp add: appended_def)
  show ?thesis unfolding a s
    by (simp add: stored_in_step_def append_items_pages i(1) appended_tree set_bits_open_length [OF i(2)])
qed

lemma interrupted_append_pages:
  assumes "merkle_gen self \<noteq> None" "live self \<longrightarrow> secretKey self \<noteq> None" "\<not> early_done self batch"
  shows "interrupted_append cr self batch cb = storage_of (append_items cr 0 0 batch self)"
proof -
  define st0 where "st0 = \<lparr>as_feed = self,
     as_pending = int (if live self then 2 * length batch else length batch), as_offset = 0,
     as_outstanding = 0, as_thrown = False, as_events = []\<rparr>"
  have h1: "\<not> as_thrown st0" and h2: "merkle_gen (as_feed st0) \<noteq> None"
    and h3: "live (as_feed st0) \<longrightarrow> secretKey (as_feed st0) \<noteq> None"
    and h4: "as_pending st0 = int (as_outstanding st0)
               + int ((if live (as_feed st0) then 2 else 1) * length batch)"
    and h5: "indexing (as_feed st0) \<and> \<not> live (as_feed st0) \<longrightarrow>
               0 < as_outstanding st0 \<or> length batch \<noteq> 1"
    using assms by (auto simp: st0_def early_done_def)
  from append_loop_normal [OF h1 h2 h3 h4 h5, of cr "length batch" cb 0]
  have "as_feed (append_loop cr (length batch) cb 0 batch st0) = append_items cr 0 0 batch self"
    by (simp add: st0_def)
  then show ?thesis by (simp add: interrupted_append_def st0_def)
qed

lemma open_stored_in_step:
  assumes "fst (open_feed cr (Feed cr stg k opts)) = None"
    "key (snd (open_feed cr (Feed cr stg k opts))) \<noteq> None"
  shows "stored_in_step (snd (open_feed cr (Feed cr stg k opts)))"
proof -
  define self0 :: "'a feed" where "self0 = Feed cr stg k opts"
  define self3 where "self3 = open_live (storage_of self0)
                         (open_keys (state_key self0) (state_secretKey self0) (open_bits self0))"
  define X where "X = open_persist (state_bitfield self0) (open_keyPair cr self3)"
  have l0: "length_feed self0 = 0" by (simp add: self0_def)
  have e: "open_feed cr self0 =
      (if state_key self0 \<noteq> None \<and> key (open_bits self0) \<noteq> None \<and> state_key self0 \<noteq> key (open_bits self0)
       then (Some AlreadyExists, open_bits self0)
       else if key self3 = None \<and> \<not> createIfMissing self3 then (Some NotFound, self3)
       else open_roots X)"
    unfolding open_feed_def Let_def X_def self3_def by (rule refl)
  from assms(1) have f: "fst (open_feed cr self0) = None" by (simp only: self0_def)
  have r: "open_feed cr self0 = open_roots X"
  proof (cases "state_key self0 \<noteq> None \<and> key (open_bits self0) \<noteq> None \<and> state_key self0 \<noteq> key (open_bits self0)")
    case True
    with e have "fst (open_feed cr self0) = Some AlreadyExists" by simp
    with f show ?thesis by simp
  next
    case a: False
    show ?thesis
    proof (cases "key self3 = None \<and> \<not> createIfMissing self3")
      case True
      with e a have "fst (open_feed cr self0) = Some NotFound" by simp
      with f show ?thesis by simp
    next
      case False
      show ?thesis by (subst e, subst if_not_P [OF a], subst if_not_P [OF False], rule refl)
    qed
  qed
  from assms(2) have k: "key X \<noteq> None"
    unfolding self0_def [symmetric] r by (simp add: open_roots_keeps)
  have kx: "key X = key (open_keyPair cr self3)" by (simp add: X_def)
  have ov: "overwrite (open_keyPair cr self3) = open_overwrite self0"
    by (simp add: self3_def)
  have t: "tree X = tree_bits (state_bitfield self0)"
    by (simp add: X_def self3_def open_stage_tree)
  have len: "length_feed X = open_length (tree_bits (state_bitfield self0))"
    by (simp add: X_def self3_def open_bits_length [OF l0])
  have ks: "key_store (storage_of X) \<noteq> None"
    using k unfolding kx X_def by (simp add: open_persist_store)
  have bs: "tree_bits (bitfield_store (storage_of X)) = tree_bits (state_bitfield self0)"
    unfolding X_def by (simp add: open_persist_store ov self3_def state_bitfield_def)
  show ?thesis unfolding self0_def [symmetric] r
    by (simp add: stored_in_step_def open_roots_keeps ks bs t len)
qed

text \<open>
  Claim C3, amended. \<open>_open\<close> sets the length of a new feed from the stored tree
  bitfield when the store holds a key and \<open>overwrite\<close> is not set; with no stored key or
  with \<open>overwrite\<close> the bitfield is zeroed and the length is 0. The computation trims the
  trailing unset bits (no bit is set at or beyond \<open>trimLength\<close>, the bit just below it is
  set) and steps back over a half-written leaf: the length is 0 when no leaf bit is set and
  otherwise (last present leaf index + 2) / 2, the division being exact since \<open>len\<close> is odd
  whenever it is positive. A successful open with a key leaves the feed with the length of
  its stored bitfield; on such a feed a completed append (the batch of one value on a
  non-live indexing feed left aside) adds the batch size to the length and stores the
  bitfield that gives the new length, and an append interrupted after its writes and before
  the bit flips leaves the stored bitfield and key as they were, so that reopening (without
  \<open>overwrite\<close>) gives the earlier length.
\<close>

theorem open_length_of_stored_bitfield:
  "length_feed (snd (open_feed cr (Feed cr stg k opts))) =
     (if opt_overwrite opts \<or> key_store stg = None then 0
      else open_length (tree_bits (bitfield_store stg))) \<and>
   (\<forall>i \<ge> trimLength bits. \<not> bf_get bits i) \<and>
   (0 < trimLength bits \<longrightarrow> bf_get bits (trimLength bits - 1)) \<and>
   open_length bits =
     (if present_leaves bits = {} then 0 else (Max (present_leaves bits) + 2) div 2) \<and>
   (0 < open_len bits \<longrightarrow> odd (open_len bits)) \<and>
   (0 < n \<and> bf_get bits (2 * (n - 1)) \<and> (\<forall>i. even i \<and> 2 * (n - 1) < i \<longrightarrow> \<not> bf_get bits i)
      \<longrightarrow> open_length bits = n) \<and>
   (fst (open_feed cr (Feed cr stg k opts)) = None \<and>
    key (snd (open_feed cr (Feed cr stg k opts))) \<noteq> None
      \<longrightarrow> stored_in_step (snd (open_feed cr (Feed cr stg k opts)))) \<and>
   (opened self \<and> writable self \<and> merkle_gen self \<noteq> None \<and> (live self \<longrightarrow> secretKey self \<noteq> None) \<and>
    \<not> early_done self batch \<and> stored_in_step self
      \<longrightarrow> stored_in_step (snd (append_feed cr self batch cb)) \<and>
          length_feed (snd (append_feed cr self batch cb)) = length_feed self + length batch \<and>
          bitfield_store (interrupted_append cr self batch cb) = bitfield_store (storage_of self) \<and>
          key_store (interrupted_append cr self batch cb) = key_store (storage_of self) \<and>
          (\<not> opt_overwrite opts \<longrightarrow>
             length_feed (snd (open_feed cr (Feed cr (interrupted_append cr self batch cb) k opts)))
               = length_feed self))"
proof -
  have a: "length_feed (snd (open_feed cr (Feed cr stg k opts))) =
     (if opt_overwrite opts \<or> key_store stg = None then 0
      else open_length (tree_bits (bitfield_store stg)))"
    by (rule open_feed_length_formula)
  have b: "stored_in_step (snd (open_feed cr (Feed cr stg k opts)))"
    if "fst (open_feed cr (Feed cr stg k opts)) = None"
       "key (snd (open_feed cr (Feed cr stg k opts))) \<noteq> None"
    using that by (rule open_stored_in_step)
  have c: "stored_in_step (snd (append_feed cr self batch cb)) \<and>
          length_feed (snd (append_feed cr self batch cb)) = length_feed self + length batch \<and>
          bitfield_store (interrupted_append cr self batch cb) = bitfield_store (storage_of self) \<and>
          key_store (interrupted_append cr self batch cb) = key_store (storage_of self) \<and>
          (\<not> opt_overwrite opts \<longrightarrow>
             length_feed (snd (open_feed cr (Feed cr (interrupted_append cr self batch cb) k opts)))
               = length_feed self)"
    if h: "opened self" "writable self" "merkle_gen self \<noteq> None" "live self \<longrightarrow> secretKey self \<noteq> None"
      "\<not> early_done self batch" "stored_in_step self"
  proof -
    note i = interrupted_append_pages [OF h(3,4,5), of cr cb]
    have p: "bitfield_store (interrupted_append cr self batch cb) = bitfield_store (storage_of self)"
      "key_store (interrupted_append cr self batch cb) = key_store (storage_of self)"
      unfolding i by (rule append_items_pages)+
    from h(6) have s: "key_store (storage_of self) \<noteq> None"
      "open_length (tree_bits (bitfield_store (storage_of self))) = length_feed self"
      by (simp_all add: stored_in_step_def)
    have r: "length_feed (snd (open_feed cr (Feed cr (interrupted_append cr self batch cb) k opts)))
               = length_feed self" if "\<not> opt_overwrite opts"
      unfolding open_feed_length_formula p using that s by auto
    from append_stored_in_step [OF h, of cr cb] p r show ?thesis by blast
  qed
  note f = open_length_formula [of bits n]
  from f have f1: "\<forall>i \<ge> trimLength bits. \<not> bf_get bits i" by blast
  from f have f2: "0 < trimLength bits \<longrightarrow> bf_get bits (trimLength bits - 1)" by blast
  from f have f3: "open_length bits =
     (if present_leaves bits = {} then 0 else (Max (present_leaves bits) + 2) div 2)" by blast
  from f have f4: "0 < open_len bits \<longrightarrow> odd (open_len bits)" by blast
  from f have f5: "0 < n \<and> bf_get bits (2 * (n - 1)) \<and> (\<forall>i. even i \<and> 2 * (n - 1) < i \<longrightarrow> \<not> bf_get bits i)
      \<longrightarrow> open_length bits = n" by blast
  from b have b': "fst (open_feed cr (Feed cr stg k opts)) = None \<and>
    key (snd (open_feed cr (Feed cr stg k opts))) \<noteq> None
      \<longrightarrow> stored_in_step (snd (open_feed cr (Feed cr stg k opts)))" by blast
  from c have c': "opened self \<and> writable self \<and> merkle_gen self \<noteq> None \<and> (live self \<longrightarrow> secretKey self \<noteq> None) \<and>
    \<not> early_done self batch \<and> stored_in_step self
      \<longrightarrow> stored_in_step (snd (append_feed cr self batch cb)) \<and>
          length_feed (snd (append_feed cr self batch cb)) = length_feed self + length batch \<and>
          bitfield_store (interrupted_append cr self batch cb) = bitfield_store (storage_of self) \<and>
          key_store (interrupted_append cr self batch cb) = key_store (storage_of self) \<and>
          (\<not> opt_overwrite opts \<longrightarrow>
             length_feed (snd (open_feed cr (Feed cr (interrupted_append cr self batch cb) k opts)))
               = length_feed self)" by blast
  show ?thesis by (intro conjI a f1 f2 f3 f4 f5 b' c')
qed

text \<open>
  Witness: the writer of two blocks. Its store reopens with length 2; an append of a third
  block gives length 3; interrupted, it has written the leaf 4 and reopens with length 2.
  And the bitfield with the leaves 0 and 2 and the nodes 1 and 5 set, leaf 4 unset (the
  parent of a half-written leaf), gives length 2.
\<close>

theorem open_length_of_stored_bitfield_witness:
  "opened two_blocks \<and> writable two_blocks \<and> live two_blocks \<and> secretKey two_blocks = Some ''K'' \<and>
   \<not> early_done two_blocks [''!''] \<and> stored_in_step two_blocks \<and> length_feed two_blocks = 2 \<and>
   key_store (storage_of two_blocks) = Some ''K'' \<and>
   tree_bits (bitfield_store (storage_of two_blocks)) = [True, True, True] \<and>
   fst (open_feed toy_crypto (Feed toy_crypto (storage_of two_blocks) None default_options)) = None \<and>
   length_feed (snd (open_feed toy_crypto (Feed toy_crypto (storage_of two_blocks) None default_options))) = 2 \<and>
   stored_in_step (snd (open_feed toy_crypto (Feed toy_crypto (storage_of two_blocks) None default_options))) \<and>
   length_feed (snd (append_feed toy_crypto two_blocks [''!''] 2)) = 3 \<and>
   stored_in_step (snd (append_feed toy_crypto two_blocks [''!''] 2)) \<and>
   getNode (interrupted_append toy_crypto two_blocks [''!''] 2) 4 = Inr (Node 4 ''L!'' 1) \<and>
   length_feed (snd (open_feed toy_crypto
      (Feed toy_crypto (interrupted_append toy_crypto two_blocks [''!''] 2) None default_options))) = 2 \<and>
   trimLength [True, True, True, False, False, True] = 6 \<and>
   bf_get [True, True, True, False, False, True] 5 \<and>
   present_leaves [True, True, True, False, False, True] \<noteq> {} \<and>
   (Max (present_leaves [True, True, True, False, False, True]) + 2) div 2 = 2 \<and>
   open_len [True, True, True, False, False, True] = 3 \<and>
   open_length [True, True, True, False, False, True] = 2"
proof -
  let ?bits = "[True, True, True, False, False, True]"
  let ?stg = "storage_of two_blocks"
  have h: "opened two_blocks" "writable two_blocks" "merkle_gen two_blocks \<noteq> None"
    "live two_blocks \<longrightarrow> secretKey two_blocks \<noteq> None" "\<not> early_done two_blocks [''!'']"
    "stored_in_step two_blocks"
    by code_simp+
  have e: "live two_blocks" "secretKey two_blocks = Some ''K''" "length_feed two_blocks = 2"
    "key_store ?stg = Some ''K''" "tree_bits (bitfield_store ?stg) = [True, True, True]"
    "\<not> opt_overwrite (default_options :: buffer options)"
    "fst (open_feed toy_crypto (Feed toy_crypto ?stg None default_options)) = None"
    "key (snd (open_feed toy_crypto (Feed toy_crypto ?stg None default_options))) \<noteq> None"
    "open_length [True, True, True] = 2"
    "getNode (interrupted_append toy_crypto two_blocks [''!''] 2) 4 = Inr (Node 4 ''L!'' 1)"
    by code_simp+
  have t: "trimLength ?bits = 6" by (simp add: trimLength_def bf_get_def)
  have g: "bf_get ?bits (2 * (2 - 1))" by (simp add: bf_get_def)
  have a: "\<forall>i. even i \<and> 2 * (2 - 1) < i \<longrightarrow> \<not> bf_get ?bits i"
  proof (intro allI impI)
    fix i :: nat assume "even i \<and> 2 * (2 - 1) < i"
    then have "i = 4 \<or> 6 \<le> i" by presburger
    then show "\<not> bf_get ?bits i" by (auto simp: bf_get_def)
  qed
  from g have "2 * (2 - 1) \<in> present_leaves ?bits" by (simp add: present_leaves_def)
  then have ne: "present_leaves ?bits \<noteq> {}" by blast
  have l: "open_len ?bits = 3"
    by (simp add: open_len_def t leaf_loop.simps bf_get_def)
  note th = open_length_of_stored_bitfield [of toy_crypto ?stg None default_options ?bits 2
      two_blocks "[''!'']" 2]
  from th h e have 1:
    "length_feed (snd (open_feed toy_crypto (Feed toy_crypto ?stg None default_options))) = 2"
    "stored_in_step (snd (open_feed toy_crypto (Feed toy_crypto ?stg None default_options)))"
    "length_feed (snd (append_feed toy_crypto two_blocks [''!''] 2)) = 3"
    "stored_in_step (snd (append_feed toy_crypto two_blocks [''!''] 2))"
    "length_feed (snd (open_feed toy_crypto
      (Feed toy_crypto (interrupted_append toy_crypto two_blocks [''!''] 2) None default_options))) = 2"
    by simp_all
  from th t g a ne l have 2: "(Max (present_leaves ?bits) + 2) div 2 = 2" "open_length ?bits = 2"
    "bf_get ?bits 5"
    by (simp_all split: if_splits)
  from h e 1 2 t ne l show ?thesis by simp
qed

text \<open>
  Counterexample to C3 as stated. A store with the first leaf bit set and no key opens with
  length 0, not 1; the store of the two blocks opens with length 0 under \<open>overwrite\<close>.
  And the fresh writer that has accepted the put of block 0 with the proof above has length
  4 while the last present leaf of its stored bitfield is leaf 2: after an interrupted
  append it reopens with length 2, not with the earlier length 4.
\<close>

theorem reopen_length_counterexample:
  "key_store keyless_store = None \<and> open_length (tree_bits (bitfield_store keyless_store)) = 1 \<and>
   fst (open_feed toy_crypto (Feed toy_crypto keyless_store None default_options)) = None \<and>
   length_feed (snd (open_feed toy_crypto (Feed toy_crypto keyless_store None default_options))) = 0 \<and>
   key_store (storage_of two_blocks) = Some ''K'' \<and>
   open_length (tree_bits (bitfield_store (storage_of two_blocks))) = 2 \<and>
   length_feed (snd (open_feed toy_crypto (Feed toy_crypto (storage_of two_blocks) None
      (default_options\<lparr>opt_overwrite := True\<rparr>)))) = 0 \<and>
   fst (put toy_crypto fresh_feed 0 ''a'' sparse_proof 1) = [(1, Done)] \<and>
   opened sparse_writer \<and> writable sparse_writer \<and> length_feed sparse_writer = 4 \<and>
   tree_bits (bitfield_store (storage_of sparse_writer)) = tree sparse_writer \<and>
   open_length (tree sparse_writer) = 2 \<and>
   length_feed (snd (open_feed toy_crypto
      (Feed toy_crypto (interrupted_append toy_crypto sparse_writer [''x''] 2) None default_options))) = 2"
  by code_simp

section \<open>The verification procedure of put\<close>

text \<open>
  The verification of a put as the specification words it. The parent of \<open>top\<close> and its
  sibling has the parent's index, the hash of the two children with the left child
  first, and the sum of the sizes. A computed node equals the trusted one when there is a
  trusted node with its index and its hash. The climb starts at \<open>top\<close> and goes on while
  \<open>top\<close> is not the trusted node, taking the sibling from the proof nodes if the index
  of the next one matches and else from the local nodes; it ends at the trusted node
  (\<open>Reached\<close>) or, when no sibling is at hand, with \<open>top\<close> and the proof nodes left
  (\<open>NotReached\<close>). \<open>lastProofNode\<close> is the last node of the proof as it came.
\<close>

definition spec_parent :: "crypto \<Rightarrow> node \<Rightarrow> node \<Rightarrow> node" where
  "spec_parent cr tp sib =
     (let p = parent (index tp);
          left = (if index tp = leftChild p then tp else sib);
          right = (if index tp = leftChild p then sib else tp)
      in Node p (H_parent cr (size_node tp + size_node sib) (hash left) (hash right))
           (size_node tp + size_node sib))"

definition spec_equal :: "node option \<Rightarrow> node \<Rightarrow> bool" where
  "spec_equal trusted tp = (map_option (\<lambda>t. (index t, hash t)) trusted = Some (index tp, hash tp))"

datatype anchor = Reached | NotReached node "node list"

function spec_climb :: "crypto \<Rightarrow> node option \<Rightarrow> node \<Rightarrow> node list \<Rightarrow> node list \<Rightarrow> anchor" where
  "spec_climb cr trusted tp proofNodes localNodes =
     (if spec_equal trusted tp then Reached
      else if proofNodes \<noteq> [] \<and> index (hd proofNodes) = sibling (index tp)
      then spec_climb cr trusted (spec_parent cr tp (hd proofNodes)) (tl proofNodes) localNodes
      else if localNodes \<noteq> [] \<and> index (hd localNodes) = sibling (index tp)
      then spec_climb cr trusted (spec_parent cr tp (hd localNodes)) proofNodes (tl localNodes)
      else NotReached tp proofNodes)"
  by pat_completeness auto
termination
  by (relation "measure (\<lambda>(cr, trusted, tp, proofNodes, localNodes).
        length proofNodes + length localNodes)") auto

declare spec_climb.simps [simp del]

text \<open>
  The local trust frontier as the specification words it: walking up from the leaf, a node
  whose hash is stored is the trusted anchor; otherwise its sibling is the next index
  supplied by the proof, or it is stored locally and then is one of the nodes to load, and
  the walk goes on at the parent; when the sibling is neither, the walk ends, and the
  parent is the anchor if it is stored. The result is the anchor, if any, and the indices
  of the local siblings, from the leaf upwards.
\<close>

lemma sibling_stored_depth: "bf_get bits (sibling x) \<Longrightarrow> depth x < length bits"
proof -
  assume "bf_get bits (sibling x)"
  then have "sibling x < length bits" by (rule bf_get_less)
  moreover have "depth x \<le> sibling x" using depth_le [of "sibling x"] by simp
  ultimately show ?thesis by simp
qed

function spec_frontier :: "bitfield \<Rightarrow> nat list \<Rightarrow> nat \<Rightarrow> nat option \<times> nat list" where
  "spec_frontier bits supplied x =
     (if bf_get bits x then (Some x, [])
      else if supplied \<noteq> [] \<and> hd supplied = sibling x
      then spec_frontier bits (tl supplied) (parent x)
      else if bf_get bits (sibling x)
      then (fst (spec_frontier bits supplied (parent x)),
            sibling x # snd (spec_frontier bits supplied (parent x)))
      else (if bf_get bits (parent x) then Some (parent x) else None, []))"
  by pat_completeness auto
termination
proof (relation "measure (\<lambda>(bits, supplied, x). (length bits - depth x) + length supplied)",
    goal_cases)
  case 1
  show ?case by simp
next
  case (2 bits supplied x)
  then show ?case by (cases supplied) auto
qed (auto dest: sibling_stored_depth)

declare spec_frontier.simps [simp del]

fun anchor_of :: "climb \<Rightarrow> anchor" where
  "anchor_of (Anchored visited) = Reached"
| "anchor_of (Unanchored tp remoteNodes visited) = NotReached tp remoteNodes"

definition spec_verifiedBy :: "node \<Rightarrow> node list \<Rightarrow> nat" where
  "spec_verifiedBy tp proofNodes =
     (if proofNodes = [] then rightSpan (index tp) + 2
      else max (rightSpan (index tp)) (rightSpan (index (last proofNodes))) + 2)"

lemma spec_equal_code: "spec_equal tn tp = verifyNode tn tp"
  by (cases tn) (auto simp: spec_equal_def verifyNode_def)

lemma leftChild_parent: "leftChild (parent i) = i \<longleftrightarrow> even (offset i)"
proof -
  have "leftChild (parent i) = index_of (depth i) (offset i div 2 * 2)"
    by (simp add: leftChild_def)
  moreover have "i = index_of (depth i) (offset i)" by simp
  ultimately have "leftChild (parent i) = i \<longleftrightarrow> offset i div 2 * 2 = offset i"
    by (metis index_of_inject)
  then show ?thesis by (simp add: dvd_div_eq_0_iff) presburger
qed

lemma sibling_less: "sibling i < i \<longleftrightarrow> odd (offset i)"
proof -
  have "sibling i < index_of (depth i) (offset i) \<longleftrightarrow> odd (offset i)"
    unfolding sibling_def index_of_less_iff by (auto elim: oddE)
  then show ?thesis by simp
qed

lemma make_parent_spec:
  assumes "index nd = sibling (index tp)"
  shows "make_parent cr tp nd = spec_parent cr tp nd"
proof (cases "even (offset (index tp))")
  case True
  then have "leftChild (parent (index tp)) = index tp" by (simp add: leftChild_parent)
  moreover from True have "\<not> index tp > index nd" by (simp add: assms sibling_less)
  ultimately show ?thesis
    by (simp add: make_parent_def spec_parent_def hash_parent_def Let_def)
next
  case False
  then have "leftChild (parent (index tp)) \<noteq> index tp" by (simp add: leftChild_parent)
  moreover from False have "index tp > index nd" by (simp add: assms sibling_less)
  ultimately show ?thesis
    by (auto simp: make_parent_def spec_parent_def hash_parent_def Let_def add.commute)
qed

lemma verify_loop_spec:
  "\<not> verifyNode tn tp \<Longrightarrow>
   anchor_of (verify_loop cr tn tp rn ln vis) = spec_climb cr tn tp rn ln"
proof (induction cr tn tp rn ln vis rule: verify_loop.induct)
  case (1 cr tn tp rn ln vis)
  show ?case
  proof (cases "rn \<noteq> [] \<and> index (hd rn) = sibling (index tp)")
    case True
    then have mp: "make_parent cr tp (hd rn) = spec_parent cr tp (hd rn)"
      by (simp add: make_parent_spec)
    show ?thesis
    proof (cases "verifyNode tn (make_parent cr tp (hd rn))")
      case v: True
      have "verify_loop cr tn tp rn ln vis = Anchored (vis @ [hd rn] @ [tp])"
        using True v by (subst verify_loop.simps) simp
      moreover have "spec_climb cr tn tp rn ln = Reached"
        using True v "1.prems" mp
        by (subst spec_climb.simps) (simp add: spec_equal_code spec_climb.simps [of cr tn "spec_parent cr tp (hd rn)"])
      ultimately show ?thesis by simp
    next
      case v: False
      have "verify_loop cr tn tp rn ln vis
          = verify_loop cr tn (make_parent cr tp (hd rn)) (tl rn) ln (vis @ [hd rn] @ [tp])"
        using True v by (subst verify_loop.simps) simp
      moreover have "spec_climb cr tn tp rn ln
          = spec_climb cr tn (spec_parent cr tp (hd rn)) (tl rn) ln"
        using True "1.prems" by (subst spec_climb.simps) (simp add: spec_equal_code)
      ultimately show ?thesis using "1.IH"(1) [OF True v v] mp by simp
    qed
  next
    case False
    show ?thesis
    proof (cases "ln \<noteq> [] \<and> index (hd ln) = sibling (index tp)")
      case l: True
      then have mp: "make_parent cr tp (hd ln) = spec_parent cr tp (hd ln)"
        by (simp add: make_parent_spec)
      show ?thesis
      proof (cases "verifyNode tn (make_parent cr tp (hd ln))")
        case v: True
        have "verify_loop cr tn tp rn ln vis = Anchored (vis @ [tp])"
          using False l v by (subst verify_loop.simps) auto
        moreover have "spec_climb cr tn tp rn ln = Reached"
          using False l v "1.prems" mp
          by (subst spec_climb.simps) (auto simp: spec_equal_code spec_climb.simps [of cr tn "spec_parent cr tp (hd ln)"])
        ultimately show ?thesis by simp
      next
        case v: False
        have "verify_loop cr tn tp rn ln vis
            = verify_loop cr tn (make_parent cr tp (hd ln)) rn (tl ln) (vis @ [tp])"
          using False l v by (subst verify_loop.simps) auto
        moreover have "spec_climb cr tn tp rn ln
            = spec_climb cr tn (spec_parent cr tp (hd ln)) rn (tl ln)"
          using False l "1.prems" by (subst spec_climb.simps) (auto simp: spec_equal_code)
        ultimately show ?thesis using "1.IH"(2) [OF False l v v] mp by simp
      qed
    next
      case l: False
      have "verify_loop cr tn tp rn ln vis = Unanchored tp rn vis"
        using False l by (subst verify_loop.simps) auto
      moreover have "spec_climb cr tn tp rn ln = NotReached tp rn"
        using False l "1.prems" by (subst spec_climb.simps) (auto simp: spec_equal_code)
      ultimately show ?thesis by simp
    qed
  qed
qed

lemma climb_of_spec:
  "anchor_of (climb_of cr i buf prf ln tn)
     = spec_climb cr tn (first_top cr i buf prf) (first_remote buf prf) ln"
proof (cases "verifyNode tn (first_top cr i buf prf)")
  case True
  then show ?thesis by (simp add: climb_of_def spec_climb.simps spec_equal_code)
next
  case False
  then show ?thesis by (simp add: climb_of_def verify_loop_spec)
qed

lemma rightSpan_make_parent:
  "rightSpan (index (make_parent cr tp nd))
     = max (rightSpan (index tp)) (rightSpan (sibling (index tp)))"
  by (simp add: make_parent_def rightSpan_parent)

lemma verify_loop_unanchored:
  "verify_loop cr tn tp rn ln vis = Unanchored tp' rem vis' \<Longrightarrow>
   \<exists>cons. rn = cons @ rem \<and>
     (\<forall>c \<in> set cons. rightSpan (index c) \<le> rightSpan (index tp')) \<and>
     rightSpan (index tp) \<le> rightSpan (index tp')"
proof (induction cr tn tp rn ln vis rule: verify_loop.induct)
  case (1 cr tn tp rn ln vis)
  show ?case
  proof (cases "rn \<noteq> [] \<and> index (hd rn) = sibling (index tp)")
    case True
    show ?thesis
    proof (cases "verifyNode tn (make_parent cr tp (hd rn))")
      case v: True
      have "verify_loop cr tn tp rn ln vis = Anchored (vis @ [hd rn] @ [tp])"
        using True v by (subst verify_loop.simps) simp
      with "1.prems" show ?thesis by simp
    next
      case v: False
      have "verify_loop cr tn tp rn ln vis
          = verify_loop cr tn (make_parent cr tp (hd rn)) (tl rn) ln (vis @ [hd rn] @ [tp])"
        using True v by (subst verify_loop.simps) simp
      with "1.prems" "1.IH"(1) [OF True v] obtain cons where
        c: "tl rn = cons @ rem" "\<forall>c \<in> set cons. rightSpan (index c) \<le> rightSpan (index tp')"
          "rightSpan (index (make_parent cr tp (hd rn))) \<le> rightSpan (index tp')"
        by auto
      from c(3) True have h: "rightSpan (index (hd rn)) \<le> rightSpan (index tp')"
        and t: "rightSpan (index tp) \<le> rightSpan (index tp')"
        by (simp_all add: rightSpan_make_parent)
      from True c(1) have "rn = (hd rn # cons) @ rem" by (cases rn) auto
      with c(2) h t show ?thesis by (intro exI [of _ "hd rn # cons"]) simp
    qed
  next
    case False
    show ?thesis
    proof (cases "ln \<noteq> [] \<and> index (hd ln) = sibling (index tp)")
      case l: True
      show ?thesis
      proof (cases "verifyNode tn (make_parent cr tp (hd ln))")
        case v: True
        have "verify_loop cr tn tp rn ln vis = Anchored (vis @ [tp])"
          using False l v by (subst verify_loop.simps) auto
        with "1.prems" show ?thesis by simp
      next
        case v: False
        have "verify_loop cr tn tp rn ln vis
            = verify_loop cr tn (make_parent cr tp (hd ln)) rn (tl ln) (vis @ [tp])"
          using False l v by (subst verify_loop.simps) auto
        with "1.prems" "1.IH"(2) [OF False l v] obtain cons where
          c: "rn = cons @ rem" "\<forall>c \<in> set cons. rightSpan (index c) \<le> rightSpan (index tp')"
            "rightSpan (index (make_parent cr tp (hd ln))) \<le> rightSpan (index tp')"
          by auto
        from c(3) have "rightSpan (index tp) \<le> rightSpan (index tp')"
          by (simp add: rightSpan_make_parent)
        with c(1,2) show ?thesis by blast
      qed
    next
      case l: False
      have "verify_loop cr tn tp rn ln vis = Unanchored tp rn vis"
        using False l by (subst verify_loop.simps) auto
      with "1.prems" show ?thesis by simp
    qed
  qed
qed

lemma verifiedBy_spec:
  assumes "climb_of cr i (Some d) pf ln tn = Unanchored tp rem vis"
  shows "verifiedBy_of tp rem = spec_verifiedBy tp (nodes pf)"
proof -
  from assms have "verify_loop cr tn (first_top cr i (Some d) pf) (nodes pf) ln [] = Unanchored tp rem vis"
    by (simp add: climb_of_def first_remote_def split: if_splits)
  from verify_loop_unanchored [OF this] obtain cons where
    c: "nodes pf = cons @ rem" "\<forall>c \<in> set cons. rightSpan (index c) \<le> rightSpan (index tp)"
    by blast
  show ?thesis
  proof (cases "rem = []")
    case False
    then show ?thesis by (simp add: verifiedBy_of_def spec_verifiedBy_def c(1) Let_def)
  next
    case True
    show ?thesis
    proof (cases "cons = []")
      case e: True
      with True show ?thesis by (simp add: verifiedBy_of_def spec_verifiedBy_def c(1) Let_def)
    next
      case e: False
      then have "rightSpan (index (last cons)) \<le> rightSpan (index tp)" using c(2) by simp
      with True e show ?thesis
        by (simp add: verifiedBy_of_def spec_verifiedBy_def c(1) Let_def max_def)
    qed
  qed
qed

lemma roots_error_Cons:
  "roots_error (r # rs) = None \<longleftrightarrow>
     r \<noteq> Inl StorageFailed \<and> r \<noteq> Inl MissingRoots \<and> roots_error rs = None"
  by (auto simp: roots_error_def)

lemma roots_nodes_Cons [simp]:
  "roots_nodes (Inr n # rs) = n # roots_nodes rs" "roots_nodes (Inl e # rs) = roots_nodes rs"
  "roots_nodes [] = []"
  by (simp_all add: roots_nodes_def)

lemma collect_roots_indices:
  "roots_error (fst (collect_roots stg bits tp ixs rem ns)) = None \<Longrightarrow>
   map index (roots_nodes (fst (collect_roots stg bits tp ixs rem ns))) = ixs"
proof (induction ixs arbitrary: rem ns)
  case Nil
  then show ?case by simp
next
  case (Cons ix ixs)
  show ?case
  proof (cases "ix = index tp")
    case True
    with Cons.prems have "roots_error (fst (collect_roots stg bits tp ixs rem (ns @ [tp]))) = None"
      by (simp add: Let_def roots_error_Cons)
    from Cons.IH [OF this] True show ?thesis by (simp add: Let_def)
  next
    case False
    show ?thesis
    proof (cases "rem \<noteq> [] \<and> ix = index (hd rem)")
      case r: True
      with False Cons.prems
      have "roots_error (fst (collect_roots stg bits tp ixs (tl rem) (ns @ [hd rem]))) = None"
        by (simp add: Let_def roots_error_Cons)
      from Cons.IH [OF this] False r show ?thesis by (simp add: Let_def)
    next
      case r: False
      show ?thesis
      proof (cases "bf_get bits ix")
        case b: True
        with False r Cons.prems
        have e: "roots_error (fst (collect_roots stg bits tp ixs rem ns)) = None"
          and g: "getNode stg ix \<noteq> Inl StorageFailed"
          by (auto simp: Let_def roots_error_Cons)
        from g obtain n where n: "getNode stg ix = Inr n"
          by (cases "getNode stg ix") (auto dest: getNode_error)
        from Cons.IH [OF e] False r b n getNode_index [OF n] show ?thesis
          by (auto simp: Let_def)
      next
        case b: False
        with False r Cons.prems show ?thesis by (auto simp: Let_def roots_error_Cons)
      qed
    qed
  qed
qed

lemma plan_frontier:
  "(if fst (plan_loop bits pn nxt i missing) = None \<and>
       bf_get bits (snd (snd (plan_loop bits pn nxt i missing)))
    then Some (snd (snd (plan_loop bits pn nxt i missing)))
    else fst (plan_loop bits pn nxt i missing)) = fst (spec_frontier bits (map index (drop i pn)) nxt) \<and>
   fst (snd (plan_loop bits pn nxt i missing))
     = missing @ snd (spec_frontier bits (map index (drop i pn)) nxt)"
proof (induction bits pn nxt i missing rule: plan_loop.induct)
  case (1 bits pn nxt i missing)
  let ?sup = "map index (drop i pn)"
  have ne: "?sup \<noteq> [] \<longleftrightarrow> i < length pn" by (simp add: not_le)
  have hd: "hd ?sup = index (pn ! i)" if "i < length pn"
    using that by (simp add: hd_map hd_drop_conv_nth)
  have tl: "tl ?sup = map index (drop (i + 1) pn)"
    by (simp add: map_tl [symmetric] tl_drop drop_Suc)
  show ?case
  proof (cases "bf_get bits nxt")
    case True
    then have "plan_loop bits pn nxt i missing = (Some nxt, missing, nxt)"
      by (subst plan_loop.simps) simp
    moreover from True have "spec_frontier bits ?sup nxt = (Some nxt, [])"
      by (subst spec_frontier.simps) auto
    ultimately show ?thesis by simp
  next
    case False
    show ?thesis
    proof (cases "i < length pn \<and> index (pn ! i) = sibling nxt")
      case m: True
      then have s: "?sup \<noteq> [] \<and> hd ?sup = sibling nxt" using ne hd by simp
      have p1: "plan_loop bits pn nxt i missing = plan_loop bits pn (parent nxt) (i + 1) missing"
        using False m by (subst plan_loop.simps) simp
      have p2: "spec_frontier bits ?sup nxt = spec_frontier bits (tl ?sup) (parent nxt)"
        using False s by (subst spec_frontier.simps) auto
      show ?thesis unfolding p1 p2 tl by (rule "1.IH"(1) [OF False m])
    next
      case m: False
      then have s: "\<not> (?sup \<noteq> [] \<and> hd ?sup = sibling nxt)" using ne hd by auto
      show ?thesis
      proof (cases "bf_get bits (sibling nxt)")
        case b: True
        have p1: "plan_loop bits pn nxt i missing
            = plan_loop bits pn (parent nxt) i (missing @ [sibling nxt])"
          using False m b by (subst plan_loop.simps) auto
        have p2: "spec_frontier bits ?sup nxt =
            (fst (spec_frontier bits ?sup (parent nxt)),
             sibling nxt # snd (spec_frontier bits ?sup (parent nxt)))"
          using False s b by (subst spec_frontier.simps) auto
        have b': "\<not> \<not> bf_get bits (sibling nxt)" using b by simp
        from "1.IH"(2) [OF False m b'] show ?thesis unfolding p1 p2 by simp
      next
        case b: False
        have "plan_loop bits pn nxt i missing = (None, missing, parent nxt)"
          using False m b by (subst plan_loop.simps) auto
        moreover have "spec_frontier bits ?sup nxt =
            (if bf_get bits (parent nxt) then Some (parent nxt) else None, [])"
          using False s b by (subst spec_frontier.simps) auto
        ultimately show ?thesis by simp
      qed
    qed
  qed
qed

lemma trusted_of_spec:
  "trusted_of self i pf = fst (spec_frontier (tree self) (map index (nodes pf)) (2 * i))"
  using plan_frontier [of "tree self" "nodes pf" "2 * i" 0 "[]"]
  by (simp add: trusted_of_def Let_def)

lemma missing_of_spec:
  "missing_of self i pf = snd (spec_frontier (tree self) (map index (nodes pf)) (2 * i))"
  using plan_frontier [of "tree self" "nodes pf" "2 * i" 0 "[]"]
  by (simp add: missing_of_def)

text \<open>
  What the frontier is: the anchor is the lowest node on the path from the leaf whose
  hash is stored, and the local siblings are stored siblings of nodes on that path.
\<close>

lemma spec_frontier_sound:
  "(\<forall>y. fst (spec_frontier bits supplied x) = Some y \<longrightarrow>
       bf_get bits y \<and>
       (\<exists>j. y = (parent ^^ j) x \<and> (\<forall>j' < j. \<not> bf_get bits ((parent ^^ j') x)))) \<and>
   (\<forall>m \<in> set (snd (spec_frontier bits supplied x)).
       bf_get bits m \<and> (\<exists>j. m = sibling ((parent ^^ j) x)))"
proof (induction bits supplied x rule: spec_frontier.induct)
  case (1 bits supplied x)
  have up: "\<exists>j. y = (parent ^^ j) x \<and> (\<forall>j' < j. \<not> bf_get bits ((parent ^^ j') x))"
    if "\<not> bf_get bits x"
       "\<exists>j. y = (parent ^^ j) (parent x) \<and> (\<forall>j' < j. \<not> bf_get bits ((parent ^^ j') (parent x)))"
    for y
  proof -
    from that(2) obtain j where j: "y = (parent ^^ j) (parent x)"
      "\<forall>j' < j. \<not> bf_get bits ((parent ^^ j') (parent x))" by blast
    have "y = (parent ^^ Suc j) x" using j(1) by (simp add: funpow_swap1)
    moreover have "\<not> bf_get bits ((parent ^^ j') x)" if "j' < Suc j" for j'
    proof (cases j')
      case 0
      with \<open>\<not> bf_get bits x\<close> show ?thesis by simp
    next
      case (Suc k)
      with that j(2) show ?thesis by (simp add: funpow_swap1)
    qed
    ultimately show ?thesis by blast
  qed
  have sib: "\<exists>j. m = sibling ((parent ^^ j) x)" if "\<exists>j. m = sibling ((parent ^^ j) (parent x))" for m
  proof -
    from that obtain j where "m = sibling ((parent ^^ j) (parent x))" by blast
    then have "m = sibling ((parent ^^ Suc j) x)" by (simp add: funpow_swap1)
    then show ?thesis by blast
  qed
  show ?case
  proof (cases "bf_get bits x")
    case True
    then have e: "spec_frontier bits supplied x = (Some x, [])"
      by (subst spec_frontier.simps) auto
    have "\<exists>j. x = (parent ^^ j) x \<and> (\<forall>j' < j. \<not> bf_get bits ((parent ^^ j') x))"
      by (rule exI [of _ 0]) simp
    with True show ?thesis unfolding e by simp
  next
    case False
    show ?thesis
    proof (cases "supplied \<noteq> [] \<and> hd supplied = sibling x")
      case m: True
      have e: "spec_frontier bits supplied x = spec_frontier bits (tl supplied) (parent x)"
        using False m by (subst spec_frontier.simps) auto
      from "1.IH"(1) [OF False m] up [OF False] sib show ?thesis unfolding e by blast
    next
      case m: False
      show ?thesis
      proof (cases "bf_get bits (sibling x)")
        case b: True
        have e: "spec_frontier bits supplied x =
            (fst (spec_frontier bits supplied (parent x)),
             sibling x # snd (spec_frontier bits supplied (parent x)))"
          using False m b by (subst spec_frontier.simps) auto
        have s0: "\<exists>j. sibling x = sibling ((parent ^^ j) x)"
          by (rule exI [of _ 0]) simp
        from "1.IH"(2) [OF False m b] up [OF False] sib b s0 show ?thesis
          unfolding e by (simp only: fst_conv snd_conv set_simps ball_simps) blast
      next
        case b: False
        have e: "spec_frontier bits supplied x =
            (if bf_get bits (parent x) then Some (parent x) else None, [])"
          using False m b by (subst spec_frontier.simps) auto
        have "\<exists>j. parent x = (parent ^^ j) x \<and> (\<forall>j' < j. \<not> bf_get bits ((parent ^^ j') x))"
          using False by (intro exI [of _ 1]) simp
        then show ?thesis unfolding e by simp
      qed
    qed
  qed
qed

lemma load_nodes_stored:
  assumes "load_nodes self i pf = Inr (ln, tn)"
  shows "map (getNode (storage_of self)) (missing_of self i pf) = map Inr ln"
    and "map index ln = missing_of self i pf"
    and "map_option index tn = trusted_of self i pf"
    and "\<forall>n. tn = Some n \<longrightarrow> getNode (storage_of self) (index n) = Inr n"
    and "\<forall>n \<in> set ln. getNode (storage_of self) (index n) = Inr n"
proof -
  from assms obtain ms where c: "collect (map (getNode (storage_of self)) (missing_of self i pf)) = Inr ms"
    by (auto simp: load_nodes_def split: sum.splits)
  with assms have l: "ln = ms"
    by (auto simp: load_nodes_def split: sum.splits option.splits)
  from c show m: "map (getNode (storage_of self)) (missing_of self i pf) = map Inr ln"
    by (simp add: collect_Inr_iff l)
  have ix: "index n = x" if "getNode (storage_of self) x = Inr n" for x n
    using that by (rule getNode_index)
  from m have len: "length (missing_of self i pf) = length ln"
    by (metis length_map)
  show mi: "map index ln = missing_of self i pf"
  proof (rule nth_equalityI)
    show "length (map index ln) = length (missing_of self i pf)" using len by simp
    fix k assume "k < length (map index ln)"
    then have k: "k < length ln" by simp
    with len have "map (getNode (storage_of self)) (missing_of self i pf) ! k
        = getNode (storage_of self) (missing_of self i pf ! k)" by simp
    also have "map (getNode (storage_of self)) (missing_of self i pf) ! k = Inr (ln ! k)"
      unfolding m using k by simp
    finally have "getNode (storage_of self) (missing_of self i pf ! k) = Inr (ln ! k)" by simp
    from ix [OF this] k show "map index ln ! k = missing_of self i pf ! k" by simp
  qed
  show "\<forall>n \<in> set ln. getNode (storage_of self) (index n) = Inr n"
  proof
    fix n assume "n \<in> set ln"
    then obtain k where k: "k < length ln" "ln ! k = n" by (auto simp: in_set_conv_nth)
    with len have "map (getNode (storage_of self)) (missing_of self i pf) ! k
        = getNode (storage_of self) (missing_of self i pf ! k)" by simp
    also have "map (getNode (storage_of self)) (missing_of self i pf) ! k = Inr n"
      unfolding m using k by simp
    finally have g: "getNode (storage_of self) (missing_of self i pf ! k) = Inr n" by simp
    from ix [OF g] g show "getNode (storage_of self) (index n) = Inr n" by simp
  qed
  show "map_option index tn = trusted_of self i pf"
    using assms c ix
    by (auto simp: load_nodes_def split: sum.splits option.splits)
  show "\<forall>n. tn = Some n \<longrightarrow> getNode (storage_of self) (index n) = Inr n"
    using assms c ix
    by (auto simp: load_nodes_def split: sum.splits option.splits)
qed

lemma collect_roots_sources:
  "roots_error (fst (collect_roots stg bits tp ixs rem ns)) = None \<Longrightarrow>
   \<forall>n \<in> set (roots_nodes (fst (collect_roots stg bits tp ixs rem ns))).
     (index n = index tp \<longrightarrow> n = tp) \<and>
     (n = tp \<or> n \<in> set rem \<or> (bf_get bits (index n) \<and> getNode stg (index n) = Inr n))"
proof (induction ixs arbitrary: rem ns)
  case Nil
  then show ?case by simp
next
  case (Cons ix ixs)
  show ?case
  proof (cases "ix = index tp")
    case True
    with Cons.prems have "roots_error (fst (collect_roots stg bits tp ixs rem (ns @ [tp]))) = None"
      by (simp add: Let_def roots_error_Cons)
    from Cons.IH [OF this] True show ?thesis by (simp add: Let_def)
  next
    case False
    show ?thesis
    proof (cases "rem \<noteq> [] \<and> ix = index (hd rem)")
      case r: True
      with False Cons.prems
      have "roots_error (fst (collect_roots stg bits tp ixs (tl rem) (ns @ [hd rem]))) = None"
        by (simp add: Let_def roots_error_Cons)
      from Cons.IH [OF this]
      have ih: "\<forall>n \<in> set (roots_nodes (fst (collect_roots stg bits tp ixs (tl rem) (ns @ [hd rem])))).
         (index n = index tp \<longrightarrow> n = tp) \<and>
         (n = tp \<or> n \<in> set rem \<or> (bf_get bits (index n) \<and> getNode stg (index n) = Inr n))"
        using r by (auto dest: list.set_sel(2))
      from r have h: "hd rem \<in> set rem" "index (hd rem) \<noteq> index tp" using False by auto
      from ih h False r show ?thesis by (simp add: Let_def)
    next
      case r: False
      show ?thesis
      proof (cases "bf_get bits ix")
        case b: True
        with False r Cons.prems
        have e: "roots_error (fst (collect_roots stg bits tp ixs rem ns)) = None"
          and g: "getNode stg ix \<noteq> Inl StorageFailed"
          by (auto simp: Let_def roots_error_Cons)
        from g obtain n where n: "getNode stg ix = Inr n"
          by (cases "getNode stg ix") (auto dest: getNode_error)
        from getNode_index [OF n] have i: "index n = ix" .
        from Cons.IH [OF e] False r b n i show ?thesis
          by (auto simp: Let_def)
      next
        case b: False
        with False r Cons.prems show ?thesis by (auto simp: Let_def roots_error_Cons)
      qed
    qed
  qed
qed

lemma put_climb:
  assumes "opened self" "load_nodes self i pf = Inr (ln, tn)" "d = encode (codec_of self) v"
  shows "put cr self i v pf cb =
     (case climb_of cr i (Some d) pf ln tn of
        Anchored visited \<Rightarrow> write_feed cr self i (Some d) visited None cb
      | Unanchored tp remoteNodes visited \<Rightarrow>
          verifyRootsAndWrite cr self i (Some d) tp remoteNodes (signature pf) visited cb)"
  using assms(1,2) unfolding assms(3) by (simp add: put_def putBuffer_def verifyAndWrite_def)

lemma verify_roots_checks:
  "(signature_opt = Some sg \<and> \<not> (\<exists>k. key self = Some k \<and> verify cr (H_roots cr rts) sg k) \<longrightarrow>
      verify_roots cr self i buf vb rts signature_opt ns cb = ([(cb, Failed InvalidSignature)], self)) \<and>
   (signature_opt = None \<and> \<not> (length_feed self \<noteq> 0 \<and> live self) \<and> key self \<noteq> Some (H_roots cr rts) \<longrightarrow>
      verify_roots cr self i buf vb rts signature_opt ns cb = ([(cb, Failed ChecksumFailed)], self)) \<and>
   (signature_opt = None \<and> length_feed self \<noteq> 0 \<and> live self \<longrightarrow>
      verify_roots cr self i buf vb rts signature_opt ns cb = ([(cb, Failed MissingSignature)], self)) \<and>
   ((\<exists>k. signature_opt = Some sg \<and> key self = Some k \<and> verify cr (H_roots cr rts) sg k) \<or>
    (signature_opt = None \<and> \<not> (length_feed self \<noteq> 0 \<and> live self) \<and> key self = Some (H_roots cr rts)) \<longrightarrow>
      verify_roots cr self i buf vb rts signature_opt ns cb =
        write_feed cr (roots_applied self vb rts signature_opt) i buf ns
          (map_option (\<lambda>sg. (vb div 2 - 1, sg)) signature_opt) cb)"
proof (intro conjI impI)
  assume "signature_opt = Some sg \<and> \<not> (\<exists>k. key self = Some k \<and> verify cr (H_roots cr rts) sg k)"
  then show "verify_roots cr self i buf vb rts signature_opt ns cb = ([(cb, Failed InvalidSignature)], self)"
    by (auto simp: verify_roots_def Let_def hash_tree_def split: option.splits)
next
  assume "signature_opt = None \<and> \<not> (length_feed self \<noteq> 0 \<and> live self) \<and> key self \<noteq> Some (H_roots cr rts)"
  then show "verify_roots cr self i buf vb rts signature_opt ns cb = ([(cb, Failed ChecksumFailed)], self)"
    by (auto simp: verify_roots_def Let_def hash_tree_def)
next
  assume "signature_opt = None \<and> length_feed self \<noteq> 0 \<and> live self"
  then show "verify_roots cr self i buf vb rts signature_opt ns cb = ([(cb, Failed MissingSignature)], self)"
    by (simp add: verify_roots_def Let_def)
next
  assume "(\<exists>k. signature_opt = Some sg \<and> key self = Some k \<and> verify cr (H_roots cr rts) sg k) \<or>
    (signature_opt = None \<and> \<not> (length_feed self \<noteq> 0 \<and> live self) \<and> key self = Some (H_roots cr rts))"
  then have "roots_accepted cr self rts signature_opt"
    by (auto simp: roots_accepted_def hash_tree_def)
  then show "verify_roots cr self i buf vb rts signature_opt ns cb =
        write_feed cr (roots_applied self vb rts signature_opt) i buf ns
          (map_option (\<lambda>sg. (vb div 2 - 1, sg)) signature_opt) cb"
    by (rule verify_roots_accepted)
qed


text \<open>
  Two proofs for a third block \<open>c\<close> of a feed of four blocks, both carrying the leaf of the
  fourth block: one for the writer of two blocks, signed over the root 3, and one with no
  signature for the feed that holds the nodes 1, 3 and 5.
\<close>

definition local_proof :: feed_proof where
  "local_proof = \<lparr>nodes = [Node 6 ''Ld'' 1],
     signature = Some (sign toy_crypto (hash_tree toy_crypto
        [Node 3 ''PPLhelloLworldPLcLd'' 12]) ''K'')\<rparr>"

definition anchor_proof :: feed_proof where
  "anchor_proof = \<lparr>nodes = [Node 6 ''Ld'' 1], signature = None\<rparr>"


end
